(* ===== verification/Kernel_Prelude.thy ===== *)
theory Kernel_Prelude
  imports Complex_Main "HOL-Library.Word" "HOL-Library.Signed_Division"
begin

text \<open>
  Shared vocabulary of the xv6 development: the machine's integer types, C's wrap-around and
  truncating arithmetic, the outcome of a kernel routine (it returns, it panics, or its thread
  goes to sleep), the array scan "first slot that satisfies a test" that most tables of the
  kernel are searched with, and little-endian 16- and 32-bit access to byte arrays.
\<close>

unbundle bit_operations_syntax

type_synonym u8 = "8 word"
type_synonym u16 = "16 word"
type_synonym u32 = "32 word"
type_synonym bytes = "u8 list"

named_theorems scan_simps \<open>facts about array scans\<close>
named_theorems byte_simps \<open>little-endian loads after stores\<close>

section \<open>C integers\<close>

text \<open>A C \<open>int\<close> is a mathematical integer together with the wrap-around of 32-bit two's
  complement, applied where the source's arithmetic can leave the range.\<close>

definition wrap32 :: "int \<Rightarrow> int" where
  "wrap32 x = signed_take_bit 31 x"

lemma wrap32_id [simp]: "- (2 ^ 31) \<le> x \<Longrightarrow> x < 2 ^ 31 \<Longrightarrow> wrap32 x = x"
  unfolding wrap32_def by (rule signed_take_bit_int_eq_self) auto

lemma wrap32_range: "- (2 ^ 31) \<le> wrap32 x \<and> wrap32 x < 2 ^ 31"
proof -
  have "- (2 ^ 31) \<le> signed_take_bit 31 x"
    by (rule signed_take_bit_int_greater_eq_minus_exp)
  moreover have "signed_take_bit 31 x < 2 ^ 31"
    by (rule signed_take_bit_int_less_exp)
  ultimately show ?thesis unfolding wrap32_def by blast
qed

lemma sdiv_nonneg: "0 \<le> (a::int) \<Longrightarrow> 0 < b \<Longrightarrow> a sdiv b = a div b"
  by (cases "a = 0") (auto simp: signed_divide_int_def sgn_if)

lemma smod_nonneg: "0 \<le> (a::int) \<Longrightarrow> 0 < b \<Longrightarrow> a smod b = a mod b"
  by (cases "a = 0") (auto simp: signed_modulo_int_def sdiv_nonneg minus_div_mult_eq_mod sgn_if)

lemma unat_lt32: "unat (a :: u32) < 2 ^ 32"
  using unsigned_less [of a, where 'a = nat] by simp

lemma unat_add_no_wrap: "unat a + unat b < 2 ^ 32 \<Longrightarrow> unat (a + b) = unat a + unat (b :: u32)"
  by (simp add: unat_add_lem [THEN iffD1])

section \<open>Outcomes of kernel routines\<close>

text \<open>
  \<open>Ret\<close> is a normal return, \<open>Panic\<close> a call of \<open>panic()\<close> with its message, and \<open>Blocked\<close>
  the point where the calling thread sleeps on a channel and can only go on after another
  thread has run.
\<close>

datatype 'a outcome = Ret 'a | Panic string | Blocked

fun bnd :: "'a outcome \<Rightarrow> ('a \<Rightarrow> 'b outcome) \<Rightarrow> 'b outcome" where
  "bnd (Ret x) f = f x"
| "bnd (Panic msg) f = Panic msg"
| "bnd Blocked f = Blocked"

lemma bnd_eq_Ret: "bnd m f = Ret y \<longleftrightarrow> (\<exists>x. m = Ret x \<and> f x = Ret y)"
  by (cases m) auto

lemma bnd_RetE [elim!]:
  assumes "bnd m f = Ret y"
  obtains x where "m = Ret x" and "f x = Ret y"
  using assms by (auto simp: bnd_eq_Ret)

lemma bnd_assoc: "bnd (bnd m f) g = bnd m (\<lambda>x. bnd (f x) g)"
  by (cases m) auto

lemma bnd_cong [fundef_cong]:
  "m = m' \<Longrightarrow> (\<And>x. m' = Ret x \<Longrightarrow> f x = f' x) \<Longrightarrow> bnd m f = bnd m' f'"
  by (cases m') auto

section \<open>Array scans\<close>

text \<open>\<open>for(p = tab; p < &tab[N]; p++) if(P(p)) goto found;\<close>\<close>

fun scan :: "('a \<Rightarrow> bool) \<Rightarrow> 'a list \<Rightarrow> nat option" where
  "scan P [] = None"
| "scan P (x # xs) = (if P x then Some 0 else map_option Suc (scan P xs))"

lemma scan_None_iff [scan_simps]: "scan P xs = None \<longleftrightarrow> (\<forall>x \<in> set xs. \<not> P x)"
  by (induction xs) auto

lemma scan_Some_iff [scan_simps]:
  "scan P xs = Some i \<longleftrightarrow> i < length xs \<and> P (xs ! i) \<and> (\<forall>j < i. \<not> P (xs ! j))"
proof (induction xs arbitrary: i)
  case Nil
  then show ?case by simp
next
  case (Cons x xs)
  show ?case
  proof (cases i)
    case 0
    then show ?thesis by auto
  next
    case (Suc k)
    then show ?thesis using Cons.IH [of k] by (auto simp: All_less_Suc2)
  qed
qed

lemma scan_SomeD:
  assumes "scan P xs = Some i"
  shows "i < length xs" "P (xs ! i)" "\<And>j. j < i \<Longrightarrow> \<not> P (xs ! j)"
  using assms by (auto simp: scan_Some_iff)

lemma scan_ex: "x \<in> set xs \<Longrightarrow> P x \<Longrightarrow> \<exists>i. scan P xs = Some i"
  using scan_None_iff [of P xs] by (cases "scan P xs") auto

lemma find_SomeD: "List.find P xs = Some x \<Longrightarrow> P x \<and> x \<in> set xs"
  by (induction xs) (auto split: if_splits)

section \<open>Little-endian access to byte arrays\<close>

definition byte32 :: "nat \<Rightarrow> u32 \<Rightarrow> u8" where
  "byte32 k v = ucast (drop_bit (8 * k) v)"

definition le32 :: "u8 \<Rightarrow> u8 \<Rightarrow> u8 \<Rightarrow> u8 \<Rightarrow> u32" where
  "le32 a b c d = ucast a OR push_bit 8 (ucast b) OR push_bit 16 (ucast c) OR push_bit 24 (ucast d)"

definition byte16 :: "nat \<Rightarrow> u16 \<Rightarrow> u8" where
  "byte16 k v = ucast (drop_bit (8 * k) v)"

definition le16 :: "u8 \<Rightarrow> u8 \<Rightarrow> u16" where
  "le16 a b = ucast a OR push_bit 8 (ucast b)"

lemma le32_byte32 [simp]: "le32 (byte32 0 v) (byte32 1 v) (byte32 2 v) (byte32 3 v) = v"
proof (rule bit_word_eqI)
  fix n assume "n < LENGTH(32)"
  then show "bit (le32 (byte32 0 v) (byte32 1 v) (byte32 2 v) (byte32 3 v)) n = bit v n"
    by (cases "n < 8"; cases "n < 16"; cases "n < 24") (auto simp: le32_def byte32_def bit_simps)
qed

lemma le16_byte16 [simp]: "le16 (byte16 0 v) (byte16 1 v) = v"
proof (rule bit_word_eqI)
  fix n assume "n < LENGTH(16)"
  then show "bit (le16 (byte16 0 v) (byte16 1 v)) n = bit v n"
    by (auto simp: le16_def byte16_def bit_simps not_le)
qed

definition get32 :: "bytes \<Rightarrow> nat \<Rightarrow> u32" where
  "get32 xs i = le32 (xs ! i) (xs ! (i + 1)) (xs ! (i + 2)) (xs ! (i + 3))"

definition put32 :: "bytes \<Rightarrow> nat \<Rightarrow> u32 \<Rightarrow> bytes" where
  "put32 xs i v = xs[i := byte32 0 v, i + 1 := byte32 1 v, i + 2 := byte32 2 v, i + 3 := byte32 3 v]"

definition get16 :: "bytes \<Rightarrow> nat \<Rightarrow> u16" where
  "get16 xs i = le16 (xs ! i) (xs ! (i + 1))"

definition put16 :: "bytes \<Rightarrow> nat \<Rightarrow> u16 \<Rightarrow> bytes" where
  "put16 xs i v = xs[i := byte16 0 v, i + 1 := byte16 1 v]"

lemma length_put32 [simp]: "length (put32 xs i v) = length xs"
  by (simp add: put32_def)

lemma length_put16 [simp]: "length (put16 xs i v) = length xs"
  by (simp add: put16_def)

lemma get32_put32_same [byte_simps]: "i + 4 \<le> length xs \<Longrightarrow> get32 (put32 xs i v) i = v"
  using le32_byte32 [of v] by (simp add: get32_def put32_def)

lemma get32_put32_other [byte_simps]:
  "i + 4 \<le> j \<or> j + 4 \<le> i \<Longrightarrow> get32 (put32 xs i v) j = get32 xs j"
  by (auto simp: get32_def put32_def)

lemma get16_put16_same [byte_simps]: "i + 2 \<le> length xs \<Longrightarrow> get16 (put16 xs i v) i = v"
  using le16_byte16 [of v] by (simp add: get16_def put16_def)

lemma get16_put16_other [byte_simps]:
  "i + 2 \<le> j \<or> j + 2 \<le> i \<Longrightarrow> get16 (put16 xs i v) j = get16 xs j"
  by (auto simp: get16_def put16_def)

lemma get32_put16_other [byte_simps]:
  "i + 2 \<le> j \<or> j + 4 \<le> i \<Longrightarrow> get32 (put16 xs i v) j = get32 xs j"
  by (auto simp: get32_def put16_def)

lemma get16_put32_other [byte_simps]:
  "i + 4 \<le> j \<or> j + 2 \<le> i \<Longrightarrow> get16 (put32 xs i v) j = get16 xs j"
  by (auto simp: get16_def put32_def)

lemma nth_put32_other: "j < i \<or> i + 4 \<le> j \<Longrightarrow> put32 xs i v ! j = xs ! j"
  by (auto simp: put32_def)

lemma nth_put16_other: "j < i \<or> i + 2 \<le> j \<Longrightarrow> put16 xs i v ! j = xs ! j"
  by (auto simp: put16_def)

end
