(* ===== verification/C_Strings.thy ===== *)
theory C_Strings
  imports Kernel_Prelude
begin

text \<open>
  The memory and string routines of \<^verbatim>\<open>src/xv6/string.c\<close> (kernel) and \<^verbatim>\<open>src/xv6/ulib.c\<close>
  (user library).  Memory is a function from 32-bit addresses to bytes, so that the overlap
  cases of \<open>memmove\<close> and the wrap-around of pointers are visible.  String arguments are byte
  lists that start at the pointer; reading at or past the end of the list gives the NUL byte
  that terminates the C string.
\<close>

type_synonym memory = "u32 \<Rightarrow> u8"

section \<open>Memory blocks\<close>

text \<open>What a block copy and a block fill mean, whatever the order of the accesses.\<close>

definition mem_copy :: "memory \<Rightarrow> u32 \<Rightarrow> u32 \<Rightarrow> u32 \<Rightarrow> memory" where
  "mem_copy m dst src n = (\<lambda>a. if a - dst < n then m (src + (a - dst)) else m a)"

definition mem_fill :: "memory \<Rightarrow> u32 \<Rightarrow> u8 \<Rightarrow> u32 \<Rightarrow> memory" where
  "mem_fill m dst c n = (\<lambda>a. if a - dst < n then c else m a)"

definition load32 :: "memory \<Rightarrow> u32 \<Rightarrow> u32" where
  "load32 m a = le32 (m a) (m (a + 1)) (m (a + 2)) (m (a + 3))"

definition store32 :: "memory \<Rightarrow> u32 \<Rightarrow> u32 \<Rightarrow> memory" where
  "store32 m a v = m(a := byte32 0 v, a + 1 := byte32 1 v, a + 2 := byte32 2 v, a + 3 := byte32 3 v)"

text \<open>\<open>stosb\<close> and \<open>stosl\<close> of \<^verbatim>\<open>x86.h\<close>: the string instructions with their count in \<open>ecx\<close>.\<close>

fun stosb :: "nat \<Rightarrow> memory \<Rightarrow> u32 \<Rightarrow> u8 \<Rightarrow> memory" where
  "stosb 0 m a c = m"
| "stosb (Suc k) m a c = stosb k (m(a := c)) (a + 1) c"

fun stosl :: "nat \<Rightarrow> memory \<Rightarrow> u32 \<Rightarrow> u32 \<Rightarrow> memory" where
  "stosl 0 m a v = m"
| "stosl (Suc k) m a v = stosl k (store32 m a v) (a + 4) v"

definition memset :: "memory \<Rightarrow> u32 \<Rightarrow> u32 \<Rightarrow> u32 \<Rightarrow> memory" where
  "memset m dst c n =
     (if dst mod 4 = 0 \<and> n mod 4 = 0 then
        (let c = c AND 0xFF
         in stosl (unat (n div 4)) m dst
              (push_bit 24 c OR push_bit 16 c OR push_bit 8 c OR c))
      else stosb (unat n) m dst (ucast c))"

fun memcmp :: "memory \<Rightarrow> u32 \<Rightarrow> u32 \<Rightarrow> nat \<Rightarrow> int" where
  "memcmp m s1 s2 0 = 0"
| "memcmp m s1 s2 (Suc n) =
     (if m s1 \<noteq> m s2 then uint (m s1) - uint (m s2) else memcmp m (s1 + 1) (s2 + 1) n)"

fun copy_forward :: "nat \<Rightarrow> memory \<Rightarrow> u32 \<Rightarrow> u32 \<Rightarrow> memory" where
  "copy_forward 0 m d s = m"
| "copy_forward (Suc n) m d s = copy_forward n (m(d := m s)) (d + 1) (s + 1)"

fun copy_backward :: "nat \<Rightarrow> memory \<Rightarrow> u32 \<Rightarrow> u32 \<Rightarrow> memory" where
  "copy_backward 0 m d s = m"
| "copy_backward (Suc n) m d s = copy_backward n (m(d - 1 := m (s - 1))) (d - 1) (s - 1)"

definition memmove :: "memory \<Rightarrow> u32 \<Rightarrow> u32 \<Rightarrow> u32 \<Rightarrow> memory" where
  "memmove m dst src n =
     (if src < dst \<and> dst < src + n then copy_backward (unat n) m (dst + n) (src + n)
      else copy_forward (unat n) m dst src)"

definition memcpy :: "memory \<Rightarrow> u32 \<Rightarrow> u32 \<Rightarrow> u32 \<Rightarrow> memory" where
  "memcpy m dst src n = memmove m dst src n"

text \<open>The user library's version always copies upwards; a negative count copies nothing.\<close>

definition ulib_memmove :: "memory \<Rightarrow> u32 \<Rightarrow> u32 \<Rightarrow> int \<Rightarrow> memory" where
  "ulib_memmove m vdst vsrc n = copy_forward (nat n) m vdst vsrc"

definition ulib_memset :: "memory \<Rightarrow> u32 \<Rightarrow> u32 \<Rightarrow> u32 \<Rightarrow> memory" where
  "ulib_memset m dst c n = stosb (unat n) m dst (ucast c)"

section \<open>Strings\<close>

fun hd0 :: "bytes \<Rightarrow> u8" where
  "hd0 [] = 0"
| "hd0 (x # xs) = x"

fun strncmp :: "bytes \<Rightarrow> bytes \<Rightarrow> nat \<Rightarrow> int" where
  "strncmp p q 0 = 0"
| "strncmp p q (Suc n) =
     (if hd0 p \<noteq> 0 \<and> hd0 p = hd0 q then strncmp (tl p) (tl q) n
      else uint (hd0 p) - uint (hd0 q))"

text \<open>The \<open>n\<close> bytes that \<open>strncpy(s, t, n)\<close> stores at \<open>s\<close>.\<close>

fun strncpy :: "bytes \<Rightarrow> nat \<Rightarrow> bytes" where
  "strncpy t 0 = []"
| "strncpy t (Suc n) =
     hd0 t # (if hd0 t \<noteq> 0 then strncpy (tl t) n else replicate n 0)"

text \<open>\<open>safestrcpy(s, t, n)\<close> on a destination array \<open>s\<close>: up to \<open>n - 1\<close> bytes and a NUL; the
  rest of the array keeps its bytes.\<close>

fun safestrcpy_loop :: "bytes \<Rightarrow> bytes \<Rightarrow> nat \<Rightarrow> bytes" where
  "safestrcpy_loop s t 0 = s"
| "safestrcpy_loop [] t (Suc n) = []"
| "safestrcpy_loop (x # s) t (Suc n) =
     (if n = 0 then 0 # s
      else if hd0 t \<noteq> 0 then hd0 t # safestrcpy_loop s (tl t) n
      else (case s of [] \<Rightarrow> [0] | y # s' \<Rightarrow> 0 # 0 # s'))"

definition safestrcpy :: "bytes \<Rightarrow> bytes \<Rightarrow> int \<Rightarrow> bytes" where
  "safestrcpy s t n = (if n \<le> 0 then s else safestrcpy_loop s t (nat n))"

fun strlen :: "bytes \<Rightarrow> nat" where
  "strlen [] = 0"
| "strlen (x # xs) = (if x = 0 then 0 else Suc (strlen xs))"

text \<open>\<open>strcpy\<close> of \<^verbatim>\<open>ulib.c\<close>: the bytes it stores, with the terminating NUL.\<close>

fun strcpy :: "bytes \<Rightarrow> bytes" where
  "strcpy [] = [0]"
| "strcpy (x # xs) = (if x = 0 then [0] else x # strcpy xs)"

fun strcmp :: "bytes \<Rightarrow> bytes \<Rightarrow> int" where
  "strcmp [] q = 0 - uint (hd0 q)"
| "strcmp (x # p) q =
     (if x \<noteq> 0 \<and> x = hd0 q then strcmp p (tl q) else uint x - uint (hd0 q))"

text \<open>\<open>strchr\<close> returns the offset of the first match, \<open>None\<close> for the null pointer.\<close>

fun strchr :: "bytes \<Rightarrow> u8 \<Rightarrow> nat option" where
  "strchr [] c = None"
| "strchr (x # xs) c = (if x = 0 then None else if x = c then Some 0 else map_option Suc (strchr xs c))"

fun atoi_loop :: "bytes \<Rightarrow> int \<Rightarrow> int" where
  "atoi_loop [] n = n"
| "atoi_loop (x # xs) n =
     (if 48 \<le> x \<and> x \<le> 57 then atoi_loop xs (wrap32 (wrap32 (wrap32 (n * 10) + uint x) - 48)) else n)"

definition atoi :: "bytes \<Rightarrow> int" where
  "atoi s = atoi_loop s 0"

section \<open>Facts about memory blocks\<close>

text \<open>Stepping a pointer by one byte, seen from the offset of an address in the block.\<close>

lemma unat_offset_step:
  fixes a d :: u32
  assumes "a \<noteq> d"
  shows "unat (a - d) = Suc (unat (a - (d + 1)))"
proof -
  have nz: "a - d \<noteq> 0" using assms by simp
  then have "unat (a - d - 1) = unat (a - d) - 1" by (rule unat_minus_one)
  moreover have "0 < unat (a - d)" using nz by (simp add: unat_gt_0)
  ultimately show ?thesis by (simp add: diff_diff_add)
qed

lemma unat_offset_wrap:
  fixes d :: u32
  shows "unat (d - (d + 1)) = 2 ^ 32 - 1"
proof -
  have "d - (d + 1) = (- 1 :: u32)" by simp
  moreover have "unat (- 1 :: u32) = 2 ^ 32 - 1"
    by (simp add: unsigned_minus_1_eq_mask mask_eq_exp_minus_1)
  ultimately show ?thesis by simp
qed

lemma copy_forward_eq:
  assumes "n < 2 ^ 32" and "d = s \<or> n \<le> unat (d - s)"
  shows "copy_forward n m d s = (\<lambda>a. if unat (a - d) < n then m (s + (a - d)) else m a)"
  using assms
proof (induction n arbitrary: m d s)
  case 0
  then show ?case by simp
next
  case (Suc n)
  have IH: "copy_forward n (m(d := m s)) (d + 1) (s + 1) =
      (\<lambda>a. if unat (a - (d + 1)) < n then (m(d := m s)) (s + 1 + (a - (d + 1))) else (m(d := m s)) a)"
    by (rule Suc.IH) (use Suc.prems in auto)
  show ?case
  proof
    fix a
    show "copy_forward (Suc n) m d s a = (if unat (a - d) < Suc n then m (s + (a - d)) else m a)"
    proof (cases "a = d")
      case True
      then show ?thesis using Suc.prems(1) unat_offset_wrap [of d] by (simp add: IH)
    next
      case False
      have hit: "s + (a - d) = d \<Longrightarrow> unat (a - d) < Suc n \<Longrightarrow> False"
      proof -
        assume eq: "s + (a - d) = d" and lt: "unat (a - d) < Suc n"
        from eq have ds: "a - d = d - s" by (simp add: algebra_simps eq_diff_eq)
        then show False using Suc.prems(2) lt False by auto
      qed
      have "s + 1 + (a - (d + 1)) = s + (a - d)" by simp
      then show ?thesis using False hit unat_offset_step [OF False] by (auto simp: IH)
    qed
  qed
qed

lemma copy_backward_eq:
  assumes "n < 2 ^ 32" and "d = s \<or> n \<le> unat (s - d)"
  shows "copy_backward n m (d + of_nat n) (s + of_nat n) =
    (\<lambda>a. if unat (a - d) < n then m (s + (a - d)) else m a)"
  using assms
proof (induction n arbitrary: m)
  case 0
  then show ?case by simp
next
  case (Suc n)
  let ?m = "m(d + of_nat n := m (s + of_nat n))"
  have n32: "unat (of_nat n :: u32) = n"
    using Suc.prems(1) by (simp add: unat_of_nat)
  have IH: "copy_backward n ?m (d + of_nat n) (s + of_nat n) =
      (\<lambda>a. if unat (a - d) < n then ?m (s + (a - d)) else ?m a)"
    by (rule Suc.IH) (use Suc.prems in auto)
  show ?case
  proof
    fix a
    have last: "a = d + of_nat n \<longleftrightarrow> unat (a - d) = n"
      by (metis add.commute add_diff_cancel diff_add_cancel n32 word_unat_eq_iff)
    have hit: "s + (a - d) = d + of_nat n \<Longrightarrow> unat (a - d) < n \<Longrightarrow> False"
    proof -
      assume eq: "s + (a - d) = d + of_nat n" and lt: "unat (a - d) < n"
      have "s - d = of_nat n - (a - d)" using eq by (simp add: algebra_simps)
      moreover have "unat (of_nat n - (a - d)) = n - unat (a - d)"
        using lt n32 by (subst unat_sub) (auto simp: word_le_nat_alt)
      ultimately have sd: "unat (s - d) = n - unat (a - d)" by (simp only:)
      have "d = s" using Suc.prems(2) sd lt by auto
      then show False using sd lt by simp
    qed
    show "copy_backward (Suc n) m (d + of_nat (Suc n)) (s + of_nat (Suc n)) a =
        (if unat (a - d) < Suc n then m (s + (a - d)) else m a)"
      using last hit by (auto simp: IH less_Suc_eq algebra_simps)
  qed
qed

lemma mem_copy_unat: "mem_copy m d s n = (\<lambda>a. if unat (a - d) < unat n then m (s + (a - d)) else m a)"
  by (simp add: mem_copy_def word_less_nat_alt)

lemma memmove_is_copy:
  assumes src: "unat src + unat n < 2 ^ 32" and dst: "unat dst + unat n < 2 ^ 32"
  shows "memmove m dst src n = mem_copy m dst src n"
proof (cases "src < dst \<and> dst < src + n")
  case True
  have "unat (src + n) = unat src + unat n"
    using src by (simp add: unat_add_lem [THEN iffD1])
  then have lt: "unat src < unat dst" "unat dst < unat src + unat n"
    using True by (auto simp: word_less_nat_alt)
  have "unat (src - dst) = 2 ^ 32 + unat src - unat dst"
    using lt by (simp add: unat_sub_if')
  then have "unat n \<le> unat (src - dst)" using dst lt by simp
  then have "copy_backward (unat n) m (dst + of_nat (unat n)) (src + of_nat (unat n)) =
      (\<lambda>a. if unat (a - dst) < unat n then m (src + (a - dst)) else m a)"
    using dst by (intro copy_backward_eq) auto
  then show ?thesis using True by (simp add: memmove_def mem_copy_unat)
next
  case False
  have "unat (src + n) = unat src + unat n"
    using src by (simp add: unat_add_lem [THEN iffD1])
  then have "unat dst \<le> unat src \<or> unat src + unat n \<le> unat dst"
    using False by (auto simp: word_less_nat_alt not_less)
  then have "dst = src \<or> unat n \<le> unat (dst - src)"
    using src by (auto simp: unat_sub_if' word_unat_eq_iff)
  then have "copy_forward (unat n) m dst src =
      (\<lambda>a. if unat (a - dst) < unat n then m (src + (a - dst)) else m a)"
    using src by (intro copy_forward_eq) auto
  then show ?thesis using False by (auto simp: memmove_def mem_copy_unat)
qed

lemma load32_store32_same [simp]: "load32 (store32 m a v) a = v"
  using le32_byte32 [of v] by (simp add: load32_def store32_def)

lemma stosb_eq:
  assumes "n < 2 ^ 32"
  shows "stosb n m d c = (\<lambda>a. if unat (a - d) < n then c else m a)"
  using assms
proof (induction n arbitrary: m d)
  case 0
  then show ?case by simp
next
  case (Suc n)
  have IH: "stosb n (m(d := c)) (d + 1) c =
      (\<lambda>a. if unat (a - (d + 1)) < n then c else (m(d := c)) a)"
    by (rule Suc.IH) (use Suc.prems in auto)
  show ?case
  proof
    fix a
    show "stosb (Suc n) m d c a = (if unat (a - d) < Suc n then c else m a)"
      by (cases "a = d") (simp_all add: IH unat_offset_step)
  qed
qed

text \<open>The word that \<open>memset\<close> stores four bytes at a time has the byte in each of its lanes.\<close>

definition byte_lanes :: "u32 \<Rightarrow> u32" where
  "byte_lanes c = push_bit 24 c OR push_bit 16 c OR push_bit 8 c OR c"

lemma byte32_lanes:
  assumes "k < 4"
  shows "byte32 k (byte_lanes (c AND 0xFF)) = ucast c"
proof (rule bit_word_eqI)
  fix n assume n: "n < LENGTH(8)"
  have "(0xFF :: u32) = mask 8" by (simp add: mask_eq_exp_minus_1)
  then have low: "c AND 0xFF = take_bit 8 c" by (simp add: take_bit_eq_mask)
  show "bit (byte32 k (byte_lanes (c AND 0xFF))) n = bit (ucast c :: u8) n"
    using assms n by (cases k; cases "k - 1"; cases "k - 2"; cases "k - 3")
      (auto simp: low byte32_def byte_lanes_def bit_simps)
qed

lemma stosl_lanes: "stosl k m a (byte_lanes (c AND 0xFF)) = stosb (4 * k) m a (ucast c)"
proof (induction k arbitrary: m a)
  case 0
  then show ?case by simp
next
  case (Suc k)
  have st: "store32 m a (byte_lanes (c AND 0xFF)) =
      m(a := ucast c, a + 1 := ucast c, a + 2 := ucast c, a + 3 := ucast c)"
    using byte32_lanes [of 0 c] byte32_lanes [of 1 c] byte32_lanes [of 2 c] byte32_lanes [of 3 c]
    by (simp add: store32_def)
  have "4 * Suc k = Suc (Suc (Suc (Suc (4 * k))))" by simp
  then have "stosb (4 * Suc k) m a (ucast c) =
      stosb (4 * k) (m(a := ucast c, a + 1 := ucast c, a + 2 := ucast c, a + 3 := ucast c)) (a + 4) (ucast c)"
    by (simp only: stosb.simps) (simp add: add.assoc)
  then show ?case by (simp only: stosl.simps st Suc.IH)
qed

lemma memset_is_fill: "memset m dst c n = mem_fill m dst (ucast c) n"
proof -
  have fill: "stosb (unat n) m dst (ucast c) = mem_fill m dst (ucast c) n"
    using stosb_eq [of "unat n" m dst "ucast c"] unsigned_less [of n]
    by (simp add: mem_fill_def word_less_nat_alt)
  have "memset m dst c n = stosb (unat n) m dst (ucast c)"
  proof (cases "dst mod 4 = 0 \<and> n mod 4 = 0")
    case True
    then have "unat (n mod 4) = 0" by simp
    then have "unat n mod 4 = 0" by (simp add: unat_mod_distrib)
    then have "4 * (unat n div 4) = unat n" by presburger
    then have "4 * unat (n div 4) = unat n" by (simp add: unat_div_distrib)
    then show ?thesis
      using True stosl_lanes [of "unat (n div 4)" m dst c]
      by (simp add: memset_def Let_def byte_lanes_def)
  next
    case False
    then show ?thesis by (auto simp: memset_def)
  qed
  then show ?thesis using fill by simp
qed

section \<open>Facts about strings\<close>

lemma length_strncpy [simp]: "length (strncpy t n) = n"
  by (induction t n rule: strncpy.induct) auto

lemma hd0_replicate [simp]: "hd0 (replicate n 0) = 0"
  by (cases n) auto

lemma strncmp_refl [simp]: "strncmp p p n = 0"
  by (induction n arbitrary: p) auto

text \<open>A name stored with \<open>strncpy\<close> compares equal to the name it was made from, also when it
  is cut off at \<open>n\<close> bytes and has no terminating NUL.\<close>

lemma strncmp_strncpy [simp]: "strncmp t (strncpy t n) n = 0"
  by (induction t n rule: strncpy.induct) auto

lemma strncmp_zero_iff:
  "strncmp p q n = 0 \<longleftrightarrow> strncpy p n = strncpy q n"
proof (induction p q n rule: strncmp.induct)
  case (1 p q)
  then show ?case by simp
next
  case (2 p q n)
  then show ?case by (auto simp: uint_word_of_int_eq word_uint_eq_iff [symmetric])
qed

section \<open>Properties\<close>

text \<open>C36: The kernel's \<open>memmove\<close> copies correctly also when source and destination overlap, in either
  direction: every byte of the destination is the byte that the source had before the call, and no
  other byte changes, as long as neither range reaches the end of the address space.\<close>

theorem memmove_overlap:
  assumes "unat src + unat n < 2 ^ 32" and "unat dst + unat n < 2 ^ 32"
  shows "memmove m dst src n a = (if unat (a - dst) < unat n then m (src + (a - dst)) else m a)"
  using memmove_is_copy [OF assms] by (simp add: mem_copy_unat)

theorem memmove_overlap_witness: "memmove (\<lambda>a. ucast a) 101 100 3 103 = (102 :: u8)"
  using memmove_overlap [of 100 3 101 "\<lambda>a. ucast a" 103] by simp

end
