(* ===== verification/Kalloc.thy ===== *)
theory Kalloc
  imports C_Strings
begin

text \<open>
  The physical page allocator of \<^verbatim>\<open>src/xv6/kalloc.c\<close>, on a byte memory: a free page holds the
  address of the next free page in its first word, and \<open>kmem.freelist\<close> is the address of the
  first one.  The list of free pages is recovered from the memory by the predicate \<open>chain\<close>.
\<close>

record machine =
  mem :: memory
  freelist :: u32
  use_lock :: bool
  kend :: u32  \<comment> \<open>\<open>end[]\<close>, first address after the kernel image (set by the linker)\<close>
  kdata :: u32  \<comment> \<open>\<open>data[]\<close>, first address of the kernel's writable data (set by the linker)\<close>

definition PGSIZE :: u32 where "PGSIZE = 4096"
definition EXTMEM :: u32 where "EXTMEM = 0x100000"
definition PHYSTOP :: u32 where "PHYSTOP = 0xE000000"
definition DEVSPACE :: u32 where "DEVSPACE = 0xFE000000"
definition KERNBASE :: u32 where "KERNBASE = 0x80000000"
definition KERNLINK :: u32 where "KERNLINK = KERNBASE + EXTMEM"

definition V2P :: "u32 \<Rightarrow> u32" where "V2P a = a - KERNBASE"
definition P2V :: "u32 \<Rightarrow> u32" where "P2V a = a + KERNBASE"

definition PGROUNDUP :: "u32 \<Rightarrow> u32" where
  "PGROUNDUP sz = (sz + PGSIZE - 1) AND NOT (PGSIZE - 1)"

definition PGROUNDDOWN :: "u32 \<Rightarrow> u32" where
  "PGROUNDDOWN a = a AND NOT (PGSIZE - 1)"

definition kfree :: "u32 \<Rightarrow> 'a machine_scheme \<Rightarrow> 'a machine_scheme outcome" where
  "kfree v s =
     (if v mod PGSIZE \<noteq> 0 \<or> v < kend s \<or> PHYSTOP \<le> V2P v then Panic ''kfree''
      else
        (let m = memset (mem s) v 1 PGSIZE;
             m = store32 m v (freelist s)
         in Ret (s\<lparr>mem := m, freelist := v\<rparr>)))"

definition kalloc :: "'a machine_scheme \<Rightarrow> u32 \<times> 'a machine_scheme" where
  "kalloc s =
     (let r = freelist s
      in if r \<noteq> 0 then (r, s\<lparr>freelist := load32 (mem s) r\<rparr>) else (r, s))"

lemma kfree_Ret_bounds:
  assumes "kfree v s = Ret s'"
  shows "unat v + unat PGSIZE < 2 ^ 32"
proof -
  have "V2P v < PHYSTOP"
    using assms by (auto simp: kfree_def split: if_splits)
  then have "unat (v - KERNBASE) < unat PHYSTOP"
    by (simp add: V2P_def word_less_nat_alt)
  then show ?thesis
    using unsigned_less [of v, where 'a = nat]
    by (auto simp: unat_sub_if' KERNBASE_def PHYSTOP_def PGSIZE_def split: if_splits)
qed

text \<open>The loop of \<open>freerange\<close>; it ends because \<open>kfree\<close> accepts only addresses below
  \<open>KERNBASE + PHYSTOP\<close>, so the pointer cannot wrap.\<close>

function freerange_loop :: "u32 \<Rightarrow> u32 \<Rightarrow> 'a machine_scheme \<Rightarrow> 'a machine_scheme outcome" where
  "freerange_loop p vend s =
     (if p + PGSIZE \<le> vend then bnd (kfree p s) (\<lambda>s. freerange_loop (p + PGSIZE) vend s) else Ret s)"
  by pat_completeness auto
termination
proof (relation "measure (\<lambda>(p, vend, s). 2 ^ 32 - unat p)")
  fix p vend and s x :: "'a machine_scheme"
  assume "kfree p s = Ret x"
  then have "unat p + unat PGSIZE < 2 ^ 32" by (rule kfree_Ret_bounds)
  moreover from this have "unat (p + PGSIZE) = unat p + unat PGSIZE"
    by (rule unat_add_no_wrap)
  ultimately show "((p + PGSIZE, vend, x), (p, vend, s)) \<in> measure (\<lambda>(p, vend, s). 2 ^ 32 - unat p)"
    by (simp add: PGSIZE_def)
qed simp

declare freerange_loop.simps [simp del]

definition freerange :: "u32 \<Rightarrow> u32 \<Rightarrow> 'a machine_scheme \<Rightarrow> 'a machine_scheme outcome" where
  "freerange vstart vend s = freerange_loop (PGROUNDUP vstart) vend s"

definition kinit1 :: "u32 \<Rightarrow> u32 \<Rightarrow> 'a machine_scheme \<Rightarrow> 'a machine_scheme outcome" where
  "kinit1 vstart vend s = freerange vstart vend (s\<lparr>use_lock := False\<rparr>)"

definition kinit2 :: "u32 \<Rightarrow> u32 \<Rightarrow> 'a machine_scheme \<Rightarrow> 'a machine_scheme outcome" where
  "kinit2 vstart vend s = bnd (freerange vstart vend s) (\<lambda>s. Ret (s\<lparr>use_lock := True\<rparr>))"

section \<open>The free list in memory\<close>

primrec chain :: "memory \<Rightarrow> u32 \<Rightarrow> u32 list \<Rightarrow> bool" where
  "chain m r [] = (r = 0)"
| "chain m r (p # ps) = (r = p \<and> p \<noteq> 0 \<and> chain m (load32 m p) ps)"

text \<open>A page the allocator may hold: aligned, past the kernel image, below \<open>PHYSTOP\<close>.\<close>

definition page_ok :: "u32 \<Rightarrow> u32 \<Rightarrow> bool" where
  "page_ok e v \<longleftrightarrow> v mod PGSIZE = 0 \<and> e \<le> v \<and> V2P v < PHYSTOP"

definition free_pages :: "'a machine_scheme \<Rightarrow> u32 list \<Rightarrow> bool" where
  "free_pages s ps \<longleftrightarrow>
     chain (mem s) (freelist s) ps \<and> distinct ps \<and> (\<forall>p \<in> set ps. page_ok (kend s) p)"

lemma page_ok_nonzero: "page_ok e v \<Longrightarrow> v \<noteq> 0"
  by (auto simp: page_ok_def V2P_def KERNBASE_def PHYSTOP_def)

lemma page_aligned_unat: "a mod PGSIZE = 0 \<longleftrightarrow> unat a mod 4096 = 0"
proof -
  have "unat (a mod PGSIZE) = unat a mod 4096" by (simp add: PGSIZE_def unat_mod_distrib)
  then show ?thesis by (metis unat_0_iff)
qed

text \<open>Rounding to pages.\<close>

lemma unat_drop_bit32: "unat (drop_bit n (a :: u32)) = unat a div 2 ^ n"
proof -
  have "take_bit 32 (unat a) = unat a" using unat_lt32 [of a] by (simp add: take_bit_nat_eq_self_iff)
  then have "unat (drop_bit n a) = drop_bit n (unat a)" by (simp only: unsigned_drop_bit_eq) simp
  then show ?thesis by (simp add: drop_bit_eq_div)
qed

lemma PGROUNDDOWN_shift: "PGROUNDDOWN a = push_bit 12 (drop_bit 12 a)"
proof -
  have "(PGSIZE - 1 :: u32) = mask 12" by (simp add: PGSIZE_def mask_eq_exp_minus_1)
  then show ?thesis unfolding PGROUNDDOWN_def
    by (intro bit_word_eqI) (auto simp: bit_simps not_less)
qed

lemma unat_PGROUNDDOWN: "unat (PGROUNDDOWN a) = unat a div 4096 * 4096"
proof -
  have "unat a div 4096 * 4096 < 2 ^ 32" using unat_lt32 [of a] div_times_less_eq_dividend [of "unat a" 4096] by linarith
  then have m: "unat a div 4096 * 4096 mod 2 ^ 32 = unat a div 4096 * 4096" by simp
  have "unat (push_bit 12 (drop_bit 12 a)) = unat (drop_bit 12 a) * 4096 mod 2 ^ 32"
    by (simp add: push_bit_eq_mult unat_word_ariths)
  then show ?thesis using m by (simp add: PGROUNDDOWN_shift unat_drop_bit32)
qed

lemma PGROUNDUP_eq: "PGROUNDUP a = PGROUNDDOWN (a + PGSIZE - 1)"
  by (simp add: PGROUNDUP_def PGROUNDDOWN_def)

lemma PGROUNDDOWN_aligned: "PGROUNDDOWN a mod PGSIZE = 0"
  by (simp add: page_aligned_unat unat_PGROUNDDOWN)

lemma PGROUNDUP_aligned: "PGROUNDUP a mod PGSIZE = 0"
  by (simp add: PGROUNDUP_eq PGROUNDDOWN_aligned)

text \<open>Two different aligned pages do not overlap.\<close>

lemma aligned_pages_disjoint:
  assumes a: "a mod PGSIZE = 0" and b: "b mod PGSIZE = 0" and ab: "a \<noteq> b" and k: "k < PGSIZE"
  shows "\<not> a + k - b < PGSIZE"
proof -
  obtain x y where x: "unat a = 4096 * x" and y: "unat b = 4096 * y"
    using a b by (auto simp: page_aligned_unat mod_eq_0_iff_dvd elim!: dvdE)
  have k': "unat k < 4096" using k by (simp add: PGSIZE_def word_less_nat_alt)
  have lt: "4096 * x < 2 ^ 32" "4096 * y < 2 ^ 32"
    using unat_lt32 [of a] unat_lt32 [of b] x y by simp_all
  then have lt': "x < 2 ^ 20" "y < 2 ^ 20" by simp_all
  have "unat a + unat k < 2 ^ 32" using x k' lt' by simp
  then have e: "unat (a + k) = 4096 * x + unat k" using x by (simp add: unat_add_no_wrap)
  have ne: "x \<noteq> y" using ab x y by (auto simp: word_unat_eq_iff)
  have "4096 \<le> unat (a + k - b)"
  proof (cases "y < x")
    case True
    then show ?thesis using e y k' by (simp add: unat_sub_if')
  next
    case False
    then have "x < y" using ne by simp
    then show ?thesis using e y k' lt' by (simp add: unat_sub_if')
  qed
  then show ?thesis by (simp add: PGSIZE_def word_less_nat_alt not_less)
qed


lemma load32_other_page:
  assumes "a mod PGSIZE = 0" and "b mod PGSIZE = 0" and "a \<noteq> b"
  shows "load32 (store32 (memset m b c PGSIZE) b v) a = load32 m a"
proof -
  have off: "a + k \<noteq> b + j \<and> \<not> a + k - b < PGSIZE" if "k < 4" "j < 4" for k j :: u32
  proof -
    have k: "k < PGSIZE" using that by (simp add: PGSIZE_def word_less_nat_alt)
    have "\<not> a + k - b < PGSIZE" by (rule aligned_pages_disjoint [OF assms k])
    moreover have "a + k = b + j \<Longrightarrow> a + k - b < PGSIZE"
      using that(2) by (simp add: PGSIZE_def word_less_nat_alt)
    ultimately show ?thesis by blast
  qed
  have far: "store32 (memset m b c PGSIZE) b v (a + k) = m (a + k)" if "k < 4" for k :: u32
    using off [OF that, of 0] off [OF that, of 1] off [OF that, of 2] off [OF that, of 3]
    by (simp add: store32_def memset_is_fill mem_fill_def)
  then show ?thesis using far [of 0] far [of 1] far [of 2] far [of 3] by (simp add: load32_def)
qed

lemma chain_other_page:
  assumes "chain m r ps" and "\<forall>p \<in> set ps. p mod PGSIZE = 0 \<and> p \<noteq> v" and "v mod PGSIZE = 0"
  shows "chain (store32 (memset m v c PGSIZE) v x) r ps"
  using assms by (induction ps arbitrary: r) (auto simp: load32_other_page)

lemma kfree_free_pages:
  assumes "free_pages s ps" and "page_ok (kend s) v" and "v \<notin> set ps"
  shows "\<exists>s'. kfree v s = Ret s' \<and> free_pages s' (v # ps)"
proof -
  have v: "v mod PGSIZE = 0" "\<not> v < kend s" "\<not> PHYSTOP \<le> V2P v"
    using assms(2) by (auto simp: page_ok_def not_less not_le)
  let ?m = "store32 (memset (mem s) v 1 PGSIZE) v (freelist s)"
  have "chain ?m (freelist s) ps"
    using assms(1,3) v(1) by (intro chain_other_page) (auto simp: free_pages_def page_ok_def)
  then have "free_pages (s\<lparr>mem := ?m, freelist := v\<rparr>) (v # ps)"
    using assms page_ok_nonzero [OF assms(2)] by (simp add: free_pages_def)
  then show ?thesis using v by (simp add: kfree_def Let_def)
qed

lemma kalloc_free_pages:
  assumes "free_pages s ps"
  shows "kalloc s = (case ps of [] \<Rightarrow> (0, s) | p # qs \<Rightarrow> (p, s\<lparr>freelist := load32 (mem s) p\<rparr>))"
    and "ps \<noteq> [] \<Longrightarrow> free_pages (snd (kalloc s)) (tl ps)"
  using assms by (cases ps; auto simp: kalloc_def free_pages_def Let_def)+

text \<open>The pages that \<open>freerange\<close> puts on the list, in the order of their addresses.\<close>

definition page_range :: "u32 \<Rightarrow> u32 \<Rightarrow> u32 list" where
  "page_range p vend = map (\<lambda>i. p + of_nat i * PGSIZE) [0..<(unat vend - unat p) div 4096]"

lemma page_range_step:
  assumes "unat p + 4096 \<le> unat vend" and "unat (p + PGSIZE) = unat p + 4096"
  shows "page_range p vend = p # page_range (p + PGSIZE) vend"
proof -
  have n: "(unat vend - unat p) div 4096 = Suc ((unat vend - unat (p + PGSIZE)) div 4096)"
    using assms by (simp add: le_div_geq)
  show ?thesis unfolding page_range_def n map_upt_Suc by (simp add: algebra_simps)
qed

lemma freerange_loop_pages:
  assumes "free_pages s ps" and "p mod PGSIZE = 0" and "kend s \<le> p" and "KERNBASE \<le> p"
    and "unat p \<le> 0x8E000000" and "unat vend \<le> 0x8E000000"
    and "\<forall>q \<in> set ps. q < p \<or> vend \<le> q"
  shows "\<exists>s'. freerange_loop p vend s = Ret s' \<and> free_pages s' (rev (page_range p vend) @ ps) \<and>
    kend s' = kend s"
  using assms
proof (induction "(unat vend - unat p) div 4096" arbitrary: p s ps rule: less_induct)
  case (less p s ps)
  have add: "unat (p + PGSIZE) = unat p + 4096"
    using less.prems(5) by (subst unat_add_no_wrap) (auto simp: PGSIZE_def)
  show ?case
  proof (cases "unat p + 4096 \<le> unat vend")
    case False
    then have "page_range p vend = []" by (simp add: page_range_def)
    then show ?thesis using False add less.prems(1)
      by (simp add: freerange_loop.simps [of p] word_le_nat_alt)
  next
    case True
    have "V2P p < PHYSTOP"
      using True less.prems(4,6)
      by (auto simp: V2P_def KERNBASE_def PHYSTOP_def word_less_nat_alt word_le_nat_alt unat_sub_if')
    then have "page_ok (kend s) p" using less.prems(2,3) by (simp add: page_ok_def)
    moreover have "p \<notin> set ps" using less.prems(7) True by (auto simp: word_le_nat_alt)
    ultimately obtain s1 where s1: "kfree p s = Ret s1" "free_pages s1 (p # ps)"
      using kfree_free_pages [OF less.prems(1)] by blast
    have kend1: "kend s1 = kend s" using s1(1) by (auto simp: kfree_def Let_def split: if_splits)
    have al: "(p + PGSIZE) mod PGSIZE = 0"
      using less.prems(2) add by (simp add: page_aligned_unat)
    have "\<exists>s'. freerange_loop (p + PGSIZE) vend s1 = Ret s' \<and>
        free_pages s' (rev (page_range (p + PGSIZE) vend) @ p # ps) \<and> kend s' = kend s1"
    proof (rule less.hyps)
      show "(unat vend - unat (p + PGSIZE)) div 4096 < (unat vend - unat p) div 4096"
        using True add by (simp add: le_div_geq)
      show "\<forall>q \<in> set (p # ps). q < p + PGSIZE \<or> vend \<le> q"
        using less.prems(7) add by (auto simp: word_less_nat_alt)
    qed (use s1(2) al add kend1 True less.prems in \<open>auto simp: word_le_nat_alt\<close>)
    then show ?thesis
      using True add s1(1) kend1 page_range_step [OF True add]
      by (auto simp: freerange_loop.simps [of p] word_le_nat_alt)
  qed
qed

section \<open>The allocator's contract\<close>

text \<open>
  What the rest of the kernel relies on.  \<open>held s ps\<close> says that exactly the pages \<open>ps\<close> are
  free; \<open>ok s\<close> are the pages the allocator may be given.
\<close>

locale page_allocator =
  fixes alloc :: "'s \<Rightarrow> u32 \<times> 's"
    and release :: "u32 \<Rightarrow> 's \<Rightarrow> 's outcome"
    and held :: "'s \<Rightarrow> u32 list \<Rightarrow> bool"
    and ok :: "'s \<Rightarrow> u32 \<Rightarrow> bool"
  assumes alloc_empty: "held s [] \<Longrightarrow> alloc s = (0, s)"
    and alloc_cons: "held s (p # ps) \<Longrightarrow> fst (alloc s) = p \<and> held (snd (alloc s)) ps"
    and alloc_ok: "ok (snd (alloc s)) p = ok s p"
    and release_held: "held s ps \<Longrightarrow> ok s p \<Longrightarrow> p \<notin> set ps \<Longrightarrow>
        \<exists>s'. release p s = Ret s' \<and> held s' (p # ps)"
    and held_distinct: "held s ps \<Longrightarrow> distinct ps"
    and held_ok: "held s ps \<Longrightarrow> p \<in> set ps \<Longrightarrow> ok s p \<and> p \<noteq> 0"
begin

lemma alloc_fresh:
  assumes "held s ps" and "fst (alloc s) \<noteq> 0"
  shows "ok s (fst (alloc s)) \<and> fst (alloc s) \<in> set ps \<and>
    held (snd (alloc s)) (tl ps) \<and> fst (alloc s) \<notin> set (tl ps)"
proof (cases ps)
  case Nil
  then show ?thesis using assms alloc_empty by simp
next
  case (Cons p qs)
  then show ?thesis
    using assms alloc_cons [of s p qs] held_distinct [of s ps] held_ok [of s ps p] by auto
qed

lemma alloc_fails_iff: "held s ps \<Longrightarrow> fst (alloc s) = 0 \<longleftrightarrow> ps = []"
  using alloc_empty alloc_cons held_ok by (cases ps) (fastforce+)

lemma release_alloc:
  assumes "held s ps" "ok s p" "p \<notin> set ps"
  shows "\<exists>s'. release p s = Ret s' \<and> fst (alloc s') = p \<and> held (snd (alloc s')) ps"
  using release_held [OF assms] alloc_cons by blast

end

interpretation kmem_pool: page_allocator kalloc kfree free_pages "\<lambda>s. page_ok (kend s)"
proof unfold_locales
  fix s :: "'a machine_scheme" and p ps
  show "free_pages s [] \<Longrightarrow> kalloc s = (0, s)"
    using kalloc_free_pages(1) [of s "[]"] by simp
  show "free_pages s (p # ps) \<Longrightarrow> fst (kalloc s) = p \<and> free_pages (snd (kalloc s)) ps"
    using kalloc_free_pages [of s "p # ps"] by simp
  show "page_ok (kend (snd (kalloc s))) p = page_ok (kend s) p"
    by (simp add: kalloc_def Let_def)
  show "free_pages s ps \<Longrightarrow> page_ok (kend s) p \<Longrightarrow> p \<notin> set ps \<Longrightarrow>
      \<exists>s'. kfree p s = Ret s' \<and> free_pages s' (p # ps)"
    by (rule kfree_free_pages)
  show "free_pages s ps \<Longrightarrow> distinct ps" by (simp add: free_pages_def)
  show "free_pages s ps \<Longrightarrow> p \<in> set ps \<Longrightarrow> page_ok (kend s) p \<and> p \<noteq> 0"
    by (auto simp: free_pages_def dest: page_ok_nonzero)
qed

section \<open>Runs of the allocator\<close>

text \<open>
  A run: \<open>all\<close> are the pages given to the allocator at the start and \<open>out\<close> those handed out and not
  freed since.  Between calls the rest of the kernel may write anything into the pages it was given.
\<close>

definition in_pages :: "u32 list \<Rightarrow> u32 \<Rightarrow> bool" where
  "in_pages ps a \<longleftrightarrow> (\<exists>p \<in> set ps. a - p < PGSIZE)"

inductive pool_run :: "u32 set \<Rightarrow> u32 list \<Rightarrow> machine \<Rightarrow> bool" where
  start: "free_pages s ps \<Longrightarrow> pool_run (set ps) [] s"
| alloc: "pool_run all out s \<Longrightarrow> kalloc s = (p, s') \<Longrightarrow> pool_run all (if p = 0 then out else p # out) s'"
| free: "pool_run all out s \<Longrightarrow> p \<in> set out \<Longrightarrow> kfree p s = Ret s' \<Longrightarrow> pool_run all (remove1 p out) s'"
| store: "pool_run all out s \<Longrightarrow> (\<And>a. \<not> in_pages out a \<Longrightarrow> m a = mem s a) \<Longrightarrow> pool_run all out (s\<lparr>mem := m\<rparr>)"

definition pool_inv :: "u32 set \<Rightarrow> u32 list \<Rightarrow> machine \<Rightarrow> bool" where
  "pool_inv all out s \<longleftrightarrow>
     (\<exists>ps. free_pages s ps \<and> distinct (out @ ps) \<and> set (out @ ps) = all \<and> (\<forall>p \<in> all. page_ok (kend s) p))"

lemma load32_untouched:
  assumes "\<And>a. \<not> in_pages out a \<Longrightarrow> m' a = m a" "p mod PGSIZE = 0" "\<forall>q \<in> set out. q mod PGSIZE = 0 \<and> q \<noteq> p"
  shows "load32 m' p = load32 m p"
proof -
  have "m' (p + k) = m (p + k)" if "k < 4" for k :: u32
  proof (rule assms(1))
    have "k < PGSIZE" using that by (simp add: PGSIZE_def word_less_nat_alt)
    then show "\<not> in_pages out (p + k)" using assms(2,3) aligned_pages_disjoint [of p _ k] by (auto simp: in_pages_def)
  qed
  from this [of 0] this [of 1] this [of 2] this [of 3] show ?thesis by (simp add: load32_def)
qed

lemma chain_untouched:
  assumes "chain m r ps" "\<And>a. \<not> in_pages out a \<Longrightarrow> m' a = m a"
    "\<forall>p \<in> set ps. p mod PGSIZE = 0" "\<forall>q \<in> set out. q mod PGSIZE = 0 \<and> q \<notin> set ps"
  shows "chain m' r ps"
  using assms(1,3,4)
proof (induction ps arbitrary: r)
  case (Cons p ps)
  have "load32 m' p = load32 m p" using Cons.prems by (intro load32_untouched [OF assms(2)]) auto
  then show ?case using Cons by auto
qed simp

lemma pool_inv_alloc:
  assumes "pool_inv all out s" "kalloc s = (p, s')"
  shows "pool_inv all (if p = 0 then out else p # out) s' \<and> (if p = 0 then set out = all else p \<in> all \<and> p \<notin> set out)"
proof -
  obtain ps where ps: "free_pages s ps" "distinct (out @ ps)" "set (out @ ps) = all" "\<forall>p \<in> all. page_ok (kend s) p"
    using assms(1) by (auto simp: pool_inv_def)
  show ?thesis
  proof (cases ps)
    case Nil
    then show ?thesis using ps assms kmem_pool.alloc_empty [of s] by (auto simp: pool_inv_def)
  next
    case (Cons q qs)
    then have a: "p = q" "free_pages s' qs" "p \<noteq> 0" using ps(1) assms(2) kmem_pool.alloc_cons [of s q qs] kmem_pool.held_ok [of s ps q] by auto
    have "kend s' = kend s" using assms(2) by (auto simp: kalloc_def Let_def split: if_splits)
    then have "pool_inv all (p # out) s'" unfolding pool_inv_def using a ps Cons by (intro exI [of _ qs]) auto
    then show ?thesis using a ps(2,3) Cons by auto
  qed
qed

lemma pool_inv_free:
  assumes "pool_inv all out s" "p \<in> set out"
  shows "\<exists>s'. kfree p s = Ret s' \<and> pool_inv all (remove1 p out) s'"
proof -
  obtain ps where ps: "free_pages s ps" "distinct (out @ ps)" "set (out @ ps) = all" "\<forall>p \<in> all. page_ok (kend s) p"
    using assms(1) by (auto simp: pool_inv_def)
  then have ok: "page_ok (kend s) p" "p \<notin> set ps" using assms(2) by auto
  obtain s' where s': "kfree p s = Ret s'" "free_pages s' (p # ps)" using kfree_free_pages [OF ps(1) ok] by blast
  have "kend s' = kend s" using s'(1) by (auto simp: kfree_def Let_def split: if_splits)
  then show ?thesis unfolding pool_inv_def using s' ps assms(2) by (intro exI [of _ s'] conjI exI [of _ "p # ps"]) auto
qed

lemma pool_inv_store:
  assumes "pool_inv all out s" "\<And>a. \<not> in_pages out a \<Longrightarrow> m a = mem s a"
  shows "pool_inv all out (s\<lparr>mem := m\<rparr>)"
proof -
  obtain ps where ps: "free_pages s ps" "distinct (out @ ps)" "set (out @ ps) = all" "\<forall>p \<in> all. page_ok (kend s) p"
    using assms(1) by (auto simp: pool_inv_def)
  have "chain m (freelist s) ps"
    using ps by (intro chain_untouched [OF _ assms(2)]) (auto simp: free_pages_def page_ok_def)
  then have "free_pages (s\<lparr>mem := m\<rparr>) ps" using ps(1) by (simp add: free_pages_def)
  then show ?thesis unfolding pool_inv_def using ps by (intro exI [of _ ps]) simp
qed

lemma pool_run_inv: "pool_run all out s \<Longrightarrow> pool_inv all out s"
proof (induction rule: pool_run.induct)
  case (start s ps)
  then show ?case by (auto simp: pool_inv_def free_pages_def)
next
  case (free all out s p s')
  then show ?case using pool_inv_free [of all out s p] by auto
qed (simp_all add: pool_inv_alloc pool_inv_store)

section \<open>Properties\<close>

text \<open>C30: Pages are handed out exclusively.  In every run in which pages are freed only by their holder
  and the rest of the kernel writes only into pages it holds, \<open>kalloc\<close> returns a page that nobody holds,
  and it returns 0 exactly when all pages are out; and every page that is held can be freed without
  a panic.\<close>

theorem kalloc_exclusive:
  assumes "pool_run all out s" "kalloc s = (p, s')"
  shows "distinct out \<and> set out \<subseteq> all \<and> (p = 0 \<longleftrightarrow> set out = all) \<and> (p \<noteq> 0 \<longrightarrow> p \<in> all \<and> p \<notin> set out) \<and>
    (\<forall>q \<in> set out. \<exists>s''. kfree q s = Ret s'')"
proof -
  have inv: "pool_inv all out s" using assms(1) by (rule pool_run_inv)
  then have "distinct out \<and> set out \<subseteq> all" by (auto simp: pool_inv_def)
  then show ?thesis using pool_inv_alloc [OF inv assms(2)] pool_inv_free [OF inv] by (auto split: if_splits)
qed

text \<open>One page given to an empty allocator.\<close>

definition empty_machine :: machine where
  "empty_machine = \<lparr>mem = \<lambda>_. 0, freelist = 0, use_lock = False, kend = 0x80100000, kdata = 0\<rparr>"

theorem kalloc_exclusive_witness:
  "\<exists>s s'. pool_run {0x80400000} [] s \<and> kalloc s = (0x80400000, s') \<and> (0x80400000 :: u32) \<noteq> 0"
proof -
  have ok: "page_ok (kend empty_machine) 0x80400000"
    by (simp add: page_ok_def empty_machine_def PGSIZE_def V2P_def KERNBASE_def PHYSTOP_def)
  have none: "free_pages empty_machine []" by (simp add: free_pages_def empty_machine_def)
  obtain s where s: "kfree 0x80400000 empty_machine = Ret s" "free_pages s [0x80400000]"
    using kfree_free_pages [OF none ok] by auto
  have r: "pool_run {0x80400000} [] s" using pool_run.start [OF s(2)] by simp
  obtain p s' where k: "kalloc s = (p, s')" by (cases "kalloc s")
  then have "p = 0x80400000" using kalloc_exclusive [OF r k] by auto
  then show ?thesis using r k by auto
qed

text \<open>C31: The range given to \<open>freerange\<close> becomes free memory: on an empty free list, all whole pages of
  the range, each once, become the free list, and nothing else does.  The bounds are those of the two
  calls in \<open>main\<close>.\<close>

theorem freerange_pages:
  assumes "free_pages s []" "kend s \<le> PGROUNDUP vstart" "KERNBASE \<le> PGROUNDUP vstart"
    "unat (PGROUNDUP vstart) \<le> 0x8E000000" "unat vend \<le> 0x8E000000"
  shows "\<exists>s'. freerange vstart vend s = Ret s' \<and> free_pages s' (rev (page_range (PGROUNDUP vstart) vend))"
proof -
  have "PGROUNDUP vstart mod PGSIZE = 0" by (rule PGROUNDUP_aligned)
  then show ?thesis
    using freerange_loop_pages [OF assms(1) _ assms(2-5)] by (auto simp: freerange_def)
qed

theorem freerange_pages_witness:
  "\<exists>s'. freerange 0x80400001 0x80403000 empty_machine = Ret s' \<and> free_pages s' [0x80402000, 0x80401000]"
proof -
  have up: "PGROUNDUP 0x80400001 = 0x80401000" by (simp add: PGROUNDUP_def PGSIZE_def)
  have "page_range 0x80401000 0x80403000 = [0x80401000, 0x80402000]" by (simp add: page_range_def PGSIZE_def upt_rec)
  then show ?thesis
    using freerange_pages [of empty_machine "0x80400001" "0x80403000"]
    by (simp add: up free_pages_def empty_machine_def KERNBASE_def)
qed

end
