(* ===== verification/Vm.thy ===== *)
theory Vm
  imports Kalloc
begin

text \<open>
  The page tables of \<^verbatim>\<open>src/xv6/vm.c\<close> and the address arithmetic of \<^verbatim>\<open>src/xv6/mmu.h\<close>.  Page
  directories and page tables are words in the byte memory of the machine; a routine gets the
  kernel address of a directory and reads and writes its entries with \<open>load32\<close> and \<open>store32\<close>.
  The null pointer is address 0.
\<close>

definition PDX :: "u32 \<Rightarrow> u32" where "PDX va = drop_bit 22 va AND 0x3FF"
definition PTX :: "u32 \<Rightarrow> u32" where "PTX va = drop_bit 12 va AND 0x3FF"
definition PGADDR :: "u32 \<Rightarrow> u32 \<Rightarrow> u32 \<Rightarrow> u32" where
  "PGADDR d t off = push_bit 22 d OR push_bit 12 t OR off"

definition PTE_P :: u32 where "PTE_P = 1"
definition PTE_W :: u32 where "PTE_W = 2"
definition PTE_U :: u32 where "PTE_U = 4"
definition PTE_ADDR :: "u32 \<Rightarrow> u32" where "PTE_ADDR pte = pte AND NOT 0xFFF"
definition PTE_FLAGS :: "u32 \<Rightarrow> u32" where "PTE_FLAGS pte = pte AND 0xFFF"

definition present :: "u32 \<Rightarrow> bool" where "present pte \<longleftrightarrow> pte AND PTE_P \<noteq> 0"

definition walkpgdir :: "u32 \<Rightarrow> u32 \<Rightarrow> bool \<Rightarrow> 'a machine_scheme \<Rightarrow> u32 \<times> 'a machine_scheme" where
  "walkpgdir pgdir va allc s =
     (let pde = pgdir + 4 * PDX va
      in if present (load32 (mem s) pde) then
           (P2V (PTE_ADDR (load32 (mem s) pde)) + 4 * PTX va, s)
         else if \<not> allc then (0, s)
         else
           (let (pgtab, s) = kalloc s
            in if pgtab = 0 then (0, s)
               else
                 (let m = memset (mem s) pgtab 0 PGSIZE;
                      m = store32 m pde (V2P pgtab OR PTE_P OR PTE_W OR PTE_U)
                  in (pgtab + 4 * PTX va, s\<lparr>mem := m\<rparr>))))"

text \<open>The loop of \<open>mappages\<close>: the first argument is the number of pages between \<open>a\<close> and
  \<open>last\<close>, so that 0 is the test \<open>a == last\<close>.\<close>

fun mappages_loop ::
  "nat \<Rightarrow> u32 \<Rightarrow> u32 \<Rightarrow> u32 \<Rightarrow> u32 \<Rightarrow> 'a machine_scheme \<Rightarrow> (int \<times> 'a machine_scheme) outcome" where
  "mappages_loop n pgdir a pa perm s =
     (let (pte, s) = walkpgdir pgdir a True s
      in if pte = 0 then Ret (- 1, s)
         else if present (load32 (mem s) pte) then Panic ''remap''
         else
           (let s = s\<lparr>mem := store32 (mem s) pte (pa OR perm OR PTE_P)\<rparr>
            in case n of
                 0 \<Rightarrow> Ret (0, s)
               | Suc k \<Rightarrow> mappages_loop k pgdir (a + PGSIZE) (pa + PGSIZE) perm s))"

declare mappages_loop.simps [simp del]

definition mappages ::
  "u32 \<Rightarrow> u32 \<Rightarrow> u32 \<Rightarrow> u32 \<Rightarrow> u32 \<Rightarrow> 'a machine_scheme \<Rightarrow> (int \<times> 'a machine_scheme) outcome" where
  "mappages pgdir va sz pa perm s =
     (let a = PGROUNDDOWN va;
          last = PGROUNDDOWN (va + sz - 1)
      in mappages_loop (unat ((last - a) div PGSIZE)) pgdir a pa perm s)"

text \<open>
  The loop of \<open>deallocuvm\<close>.  A step that would not increase \<open>a\<close> has wrapped around the top of
  the address space: the loop then starts over below \<open>oldsz\<close> and never ends.
\<close>

definition dealloc_step :: "u32 \<Rightarrow> u32 \<Rightarrow> 'a machine_scheme \<Rightarrow> (u32 \<times> 'a machine_scheme) outcome" where
  "dealloc_step pgdir a s =
     (let (pte, s) = walkpgdir pgdir a False s
      in if pte = 0 then Ret (PGADDR (PDX a + 1) 0 0 - PGSIZE, s)
         else if present (load32 (mem s) pte) then
           (let pa = PTE_ADDR (load32 (mem s) pte)
            in if pa = 0 then Panic ''kfree''
               else bnd (kfree (P2V pa) s) (\<lambda>s. Ret (a, s\<lparr>mem := store32 (mem s) pte 0\<rparr>)))
         else Ret (a, s))"

function dealloc_loop ::
  "u32 \<Rightarrow> u32 \<Rightarrow> u32 \<Rightarrow> 'a machine_scheme \<Rightarrow> 'a machine_scheme outcome" where
  "dealloc_loop pgdir a oldsz s =
     (if a < oldsz then
        bnd (dealloc_step pgdir a s) (\<lambda>(a', s).
          if a < a' + PGSIZE then dealloc_loop pgdir (a' + PGSIZE) oldsz s else Blocked)
      else Ret s)"
  by pat_completeness auto
termination
  by (relation "measure (\<lambda>(pgdir, a, oldsz, s). 2 ^ 32 - unat a)")
    (auto simp: word_less_nat_alt intro!: diff_less_mono2 unat_lt32 [simplified])

declare dealloc_loop.simps [simp del]

definition deallocuvm :: "u32 \<Rightarrow> u32 \<Rightarrow> u32 \<Rightarrow> 'a machine_scheme \<Rightarrow> (u32 \<times> 'a machine_scheme) outcome" where
  "deallocuvm pgdir oldsz newsz s =
     (if oldsz \<le> newsz then Ret (oldsz, s)
      else bnd (dealloc_loop pgdir (PGROUNDUP newsz) oldsz s) (\<lambda>s. Ret (newsz, s)))"

fun free_tables :: "nat \<Rightarrow> u32 \<Rightarrow> u32 \<Rightarrow> 'a machine_scheme \<Rightarrow> 'a machine_scheme outcome" where
  "free_tables 0 pgdir i s = Ret s"
| "free_tables (Suc n) pgdir i s =
     (let pde = load32 (mem s) (pgdir + 4 * i)
      in bnd (if present pde then kfree (P2V (PTE_ADDR pde)) s else Ret s)
           (\<lambda>s. free_tables n pgdir (i + 1) s))"

definition freevm :: "u32 \<Rightarrow> 'a machine_scheme \<Rightarrow> 'a machine_scheme outcome" where
  "freevm pgdir s =
     (if pgdir = 0 then Panic ''freevm: no pgdir''
      else bnd (deallocuvm pgdir KERNBASE 0 s) (\<lambda>(_, s).
           bnd (free_tables 1024 pgdir 0 s) (\<lambda>s. kfree pgdir s)))"

text \<open>The kernel's mappings: virtual start, physical start, physical end, permissions.\<close>

definition kmap :: "'a machine_scheme \<Rightarrow> (u32 \<times> u32 \<times> u32 \<times> u32) list" where
  "kmap s =
     [(KERNBASE, 0, EXTMEM, PTE_W),
      (KERNLINK, V2P KERNLINK, V2P (kdata s), 0),
      (kdata s, V2P (kdata s), PHYSTOP, PTE_W),
      (DEVSPACE, DEVSPACE, 0, PTE_W)]"

fun map_kernel ::
  "u32 \<Rightarrow> (u32 \<times> u32 \<times> u32 \<times> u32) list \<Rightarrow> 'a machine_scheme \<Rightarrow> (u32 \<times> 'a machine_scheme) outcome" where
  "map_kernel pgdir [] s = Ret (pgdir, s)"
| "map_kernel pgdir ((virt, phys_start, phys_end, perm) # ks) s =
     bnd (mappages pgdir virt (phys_end - phys_start) phys_start perm s) (\<lambda>(r, s).
       if r < 0 then bnd (freevm pgdir s) (\<lambda>s. Ret (0, s)) else map_kernel pgdir ks s)"

definition setupkvm :: "'a machine_scheme \<Rightarrow> (u32 \<times> 'a machine_scheme) outcome" where
  "setupkvm s =
     (let (pgdir, s) = kalloc s
      in if pgdir = 0 then Ret (0, s)
         else
           (let s = s\<lparr>mem := memset (mem s) pgdir 0 PGSIZE\<rparr>
            in if DEVSPACE < P2V PHYSTOP then Panic ''PHYSTOP too high''
               else map_kernel pgdir (kmap s) s))"

text \<open>Store a byte string at an address (\<open>memmove\<close> from a kernel buffer).\<close>

definition store_bytes :: "memory \<Rightarrow> u32 \<Rightarrow> bytes \<Rightarrow> memory" where
  "store_bytes m a bs = (\<lambda>x. if unat (x - a) < length bs then bs ! unat (x - a) else m x)"

definition inituvm :: "u32 \<Rightarrow> bytes \<Rightarrow> 'a machine_scheme \<Rightarrow> 'a machine_scheme outcome" where
  "inituvm pgdir init s =
     (if 4096 \<le> length init then Panic ''inituvm: more than a page''
      else
        (let (page, s) = kalloc s;
             s = s\<lparr>mem := memset (mem s) page 0 PGSIZE\<rparr>
         in bnd (mappages pgdir 0 PGSIZE (V2P page) (PTE_W OR PTE_U) s) (\<lambda>(_, s).
              Ret (s\<lparr>mem := store_bytes (mem s) page init\<rparr>))))"

text \<open>The loop of \<open>allocuvm\<close>: the first argument counts the pages from \<open>a\<close> up to \<open>newsz\<close>,
  which is below \<open>KERNBASE\<close>, so that \<open>a\<close> does not wrap.  The state of the machine has no console; the message
  that the source prints before it gives up is left out.\<close>

fun allocuvm_loop ::
  "nat \<Rightarrow> u32 \<Rightarrow> u32 \<Rightarrow> u32 \<Rightarrow> u32 \<Rightarrow> 'a machine_scheme \<Rightarrow> (u32 \<times> 'a machine_scheme) outcome" where
  "allocuvm_loop 0 pgdir a oldsz newsz s = Ret (newsz, s)"
| "allocuvm_loop (Suc n) pgdir a oldsz newsz s =
     (let (page, s) = kalloc s
      in if page = 0 then bnd (deallocuvm pgdir newsz oldsz s) (\<lambda>(_, s). Ret (0, s))
         else
           (let s = s\<lparr>mem := memset (mem s) page 0 PGSIZE\<rparr>
            in bnd (mappages pgdir a PGSIZE (V2P page) (PTE_W OR PTE_U) s) (\<lambda>(r, s).
                 if r < 0 then
                   bnd (deallocuvm pgdir newsz oldsz s) (\<lambda>(_, s).
                   bnd (kfree page s) (\<lambda>s. Ret (0, s)))
                 else allocuvm_loop n pgdir (a + PGSIZE) oldsz newsz s)))"

definition pages_to :: "u32 \<Rightarrow> u32 \<Rightarrow> nat" where
  "pages_to a sz = (unat sz - unat a + 4095) div 4096"

definition allocuvm :: "u32 \<Rightarrow> u32 \<Rightarrow> u32 \<Rightarrow> 'a machine_scheme \<Rightarrow> (u32 \<times> 'a machine_scheme) outcome" where
  "allocuvm pgdir oldsz newsz s =
     (if KERNBASE \<le> newsz then Ret (0, s)
      else if newsz < oldsz then Ret (oldsz, s)
      else
        (let a = PGROUNDUP oldsz
         in allocuvm_loop (pages_to a newsz) pgdir a oldsz newsz s))"

definition clearpteu :: "u32 \<Rightarrow> u32 \<Rightarrow> 'a machine_scheme \<Rightarrow> 'a machine_scheme outcome" where
  "clearpteu pgdir uva s =
     (let (pte, s) = walkpgdir pgdir uva False s
      in if pte = 0 then Panic ''clearpteu''
         else Ret (s\<lparr>mem := store32 (mem s) pte (load32 (mem s) pte AND NOT PTE_U)\<rparr>))"

text \<open>The loop of \<open>copyuvm\<close> over the parent's pages; the first argument counts the pages left.\<close>

fun copyuvm_loop ::
  "nat \<Rightarrow> u32 \<Rightarrow> u32 \<Rightarrow> u32 \<Rightarrow> 'a machine_scheme \<Rightarrow> (u32 \<times> 'a machine_scheme) outcome" where
  "copyuvm_loop 0 pgdir d i s = Ret (d, s)"
| "copyuvm_loop (Suc n) pgdir d i s =
     (let (pte, s) = walkpgdir pgdir i False s
      in if pte = 0 then Panic ''copyuvm: pte should exist''
         else if \<not> present (load32 (mem s) pte) then Panic ''copyuvm: page not present''
         else
           (let pa = PTE_ADDR (load32 (mem s) pte);
                flags = PTE_FLAGS (load32 (mem s) pte);
                (page, s) = kalloc s
            in if page = 0 then bnd (freevm d s) (\<lambda>s. Ret (0, s))
               else
                 (let s = s\<lparr>mem := memmove (mem s) page (P2V pa) PGSIZE\<rparr>
                  in bnd (mappages d i PGSIZE (V2P page) flags s) (\<lambda>(r, s).
                       if r < 0 then
                         bnd (kfree page s) (\<lambda>s. bnd (freevm d s) (\<lambda>s. Ret (0, s)))
                       else copyuvm_loop n pgdir d (i + PGSIZE) s))))"

definition copyuvm :: "u32 \<Rightarrow> u32 \<Rightarrow> 'a machine_scheme \<Rightarrow> (u32 \<times> 'a machine_scheme) outcome" where
  "copyuvm pgdir sz s =
     bnd (setupkvm s) (\<lambda>(d, s).
       if d = 0 then Ret (0, s) else copyuvm_loop (pages_to 0 sz) pgdir d 0 s)"

text \<open>\<open>uva2ka\<close> reads through the entry pointer without testing it for null, as the source does.\<close>

definition uva2ka :: "u32 \<Rightarrow> u32 \<Rightarrow> 'a machine_scheme \<Rightarrow> u32" where
  "uva2ka pgdir uva s =
     (let (pte, s) = walkpgdir pgdir uva False s;
          e = load32 (mem s) pte
      in if e AND PTE_P = 0 then 0
         else if e AND PTE_U = 0 then 0
         else P2V (PTE_ADDR e))"

lemma PGROUNDDOWN_eq: "PGROUNDDOWN va = va - va mod PGSIZE"
proof -
  have m: "PGSIZE - 1 = mask 12" by (simp add: PGSIZE_def mask_eq_exp_minus_1)
  have "NOT va AND take_bit 12 va = 0" by (auto intro!: bit_word_eqI simp: bit_simps)
  then have "va - take_bit 12 va = va AND NOT (take_bit 12 va)" by (rule disjunctive_diff_eq_and_not)
  also have "\<dots> = va AND NOT (mask 12)" by (auto intro!: bit_word_eqI simp: bit_simps)
  finally have "va - take_bit 12 va = PGROUNDDOWN va" by (simp only: PGROUNDDOWN_def m)
  moreover have "take_bit 12 va = va mod PGSIZE" by (simp add: take_bit_eq_mod PGSIZE_def)
  ultimately show ?thesis by simp
qed

lemma page_offset_lt: "va - PGROUNDDOWN va < PGSIZE"
  by (simp add: PGROUNDDOWN_eq PGSIZE_def word_less_nat_alt unat_mod_distrib)

lemma page_rest_pos: "0 < unat (PGSIZE - (va - PGROUNDDOWN va))"
  using page_offset_lt [of va] by (auto simp: unat_gt_0)

function copyout_loop :: "u32 \<Rightarrow> u32 \<Rightarrow> bytes \<Rightarrow> 'a machine_scheme \<Rightarrow> int \<times> 'a machine_scheme" where
  "copyout_loop pgdir va buf s =
     (if buf \<noteq> [] then
        (let va0 = PGROUNDDOWN va;
             pa0 = uva2ka pgdir va0 s
         in if pa0 = 0 then (- 1, s)
            else
              (let n = min (length buf) (unat (PGSIZE - (va - va0)));
                   s = s\<lparr>mem := store_bytes (mem s) (pa0 + (va - va0)) (take n buf)\<rparr>
               in copyout_loop pgdir (va0 + PGSIZE) (drop n buf) s))
      else (0, s))"
  by pat_completeness auto
termination
  by (relation "measure (\<lambda>(pgdir, va, buf, s). length buf)") (auto simp: page_rest_pos intro: diff_less)

declare copyout_loop.simps [simp del]

definition copyout :: "u32 \<Rightarrow> u32 \<Rightarrow> bytes \<Rightarrow> 'a machine_scheme \<Rightarrow> int \<times> 'a machine_scheme" where
  "copyout pgdir va p s = copyout_loop pgdir va p s"

section \<open>What the page-table code leaves alone\<close>

text \<open>\<open>mem_only s s'\<close>: only memory and the free list differ, so every table of the layers above is the same.\<close>

definition mem_only :: "'a machine_scheme \<Rightarrow> 'a machine_scheme \<Rightarrow> bool" where
  "mem_only s s' \<longleftrightarrow>
     use_lock s' = use_lock s \<and> kend s' = kend s \<and> kdata s' = kdata s \<and> machine.more s' = machine.more s"

lemma mem_only_refl [simp]: "mem_only s s"
  by (simp add: mem_only_def)

lemma mem_only_trans [trans]: "mem_only s t \<Longrightarrow> mem_only t u \<Longrightarrow> mem_only s u"
  by (simp add: mem_only_def)

lemma mem_only_mem [simp]: "mem_only s (t\<lparr>mem := m\<rparr>) = mem_only s t"
  by (simp add: mem_only_def)

lemma mem_only_kalloc [simp]: "mem_only s (snd (kalloc s))"
  by (simp add: kalloc_def Let_def mem_only_def)

lemma kalloc_mem_only: "kalloc s = (r, s') \<Longrightarrow> mem_only s s'"
  using mem_only_kalloc [of s] by simp

lemma kfree_mem_only: "kfree v s = Ret s' \<Longrightarrow> mem_only s s'"
  by (auto simp: kfree_def Let_def mem_only_def split: if_splits)

lemma walkpgdir_mem_only: "walkpgdir pgdir va c s = (pte, s') \<Longrightarrow> mem_only s s'"
  by (auto simp: walkpgdir_def Let_def case_prod_beta split: if_splits)

lemma mappages_loop_mem_only: "mappages_loop n pgdir a pa perm s = Ret (r, s') \<Longrightarrow> mem_only s s'"
proof (induction n arbitrary: a pa s)
  case 0
  then show ?case
    by (auto simp: mappages_loop.simps [of 0] Let_def split: prod.splits if_splits dest: walkpgdir_mem_only)
next
  case (Suc n)
  obtain pte t where w: "walkpgdir pgdir a True s = (pte, t)" by (cases "walkpgdir pgdir a True s")
  show ?case using Suc walkpgdir_mem_only [OF w] w
    by (auto simp: mappages_loop.simps [of "Suc n"] Let_def split: if_splits)
      (metis mem_only_mem mem_only_refl mem_only_trans)
qed

lemma mappages_mem_only: "mappages pgdir va sz pa perm s = Ret (r, s') \<Longrightarrow> mem_only s s'"
  by (auto simp: mappages_def Let_def dest: mappages_loop_mem_only)

lemma dealloc_step_mem_only: "dealloc_step pgdir a s = Ret (a', s') \<Longrightarrow> mem_only s s'"
  by (auto simp: dealloc_step_def Let_def split: prod.splits if_splits
      dest!: walkpgdir_mem_only kfree_mem_only intro: mem_only_trans)

lemma dealloc_loop_mem_only: "dealloc_loop pgdir a oldsz s = Ret s' \<Longrightarrow> mem_only s s'"
proof (induction pgdir a oldsz s rule: dealloc_loop.induct)
  case (1 pgdir a oldsz s)
  show ?case
  proof (cases "a < oldsz")
    case True
    then obtain a1 s1 where d: "dealloc_step pgdir a s = Ret (a1, s1)" and l: "a < a1 + PGSIZE"
      "dealloc_loop pgdir (a1 + PGSIZE) oldsz s1 = Ret s'"
      using 1(2) by (auto simp: dealloc_loop.simps [of pgdir a] split: if_splits)
    show ?thesis using 1(1) [OF True d refl l] dealloc_step_mem_only [OF d] mem_only_trans by blast
  qed (use 1(2) in \<open>simp add: dealloc_loop.simps [of pgdir a]\<close>)
qed

lemma deallocuvm_mem_only: "deallocuvm pgdir oldsz newsz s = Ret (r, s') \<Longrightarrow> mem_only s s'"
  by (auto simp: deallocuvm_def split: if_splits dest: dealloc_loop_mem_only)

lemma free_tables_mem_only: "free_tables n pgdir i s = Ret s' \<Longrightarrow> mem_only s s'"
proof (induction n arbitrary: i s)
  case (Suc n)
  then show ?case by (auto simp: Let_def split: if_splits) (metis kfree_mem_only mem_only_trans)
qed simp

lemma freevm_mem_only: "freevm pgdir s = Ret s' \<Longrightarrow> mem_only s s'"
  by (auto simp: freevm_def split: if_splits)
    (metis deallocuvm_mem_only free_tables_mem_only kfree_mem_only mem_only_trans)

lemma map_kernel_mem_only: "map_kernel pgdir ks s = Ret (r, s') \<Longrightarrow> mem_only s s'"
proof (induction pgdir ks s rule: map_kernel.induct)
  case (2 pgdir virt phys_start phys_end perm ks s)
  then obtain r1 s1 where m: "mappages pgdir virt (phys_end - phys_start) phys_start perm s = Ret (r1, s1)" by auto
  show ?case
  proof (cases "r1 < 0")
    case True
    then show ?thesis using 2(2) m mappages_mem_only [OF m] by (auto dest: freevm_mem_only intro: mem_only_trans)
  next
    case False
    then show ?thesis using 2(1) [OF m refl False] 2(2) m mappages_mem_only [OF m] mem_only_trans by auto
  qed
qed simp

lemma setupkvm_mem_only: "setupkvm s = Ret (r, s') \<Longrightarrow> mem_only s s'"
  by (auto simp: setupkvm_def Let_def split: prod.splits if_splits
      dest!: kalloc_mem_only map_kernel_mem_only intro: mem_only_trans)
    (metis mem_only_mem mem_only_refl mem_only_trans)

lemma inituvm_mem_only: "inituvm pgdir init s = Ret s' \<Longrightarrow> mem_only s s'"
  by (auto simp: inituvm_def Let_def split: prod.splits if_splits dest!: kalloc_mem_only mappages_mem_only)
    (metis mem_only_mem mem_only_refl mem_only_trans)

lemma allocuvm_loop_mem_only: "allocuvm_loop n pgdir a oldsz newsz s = Ret (r, s') \<Longrightarrow> mem_only s s'"
proof (induction n arbitrary: a s)
  case (Suc n)
  obtain page t where k: "kalloc s = (page, t)" by (cases "kalloc s")
  let ?t = "t\<lparr>mem := memset (mem t) page 0 PGSIZE\<rparr>"
  have t: "mem_only s ?t" using kalloc_mem_only [OF k] by simp
  show ?case
  proof (cases "page = 0")
    case True
    then show ?thesis using Suc.prems k kalloc_mem_only [OF k] by (auto dest: deallocuvm_mem_only intro: mem_only_trans)
  next
    case False
    then obtain r1 s1 where m: "mappages pgdir a PGSIZE (V2P page) (PTE_W OR PTE_U) ?t = Ret (r1, s1)"
      using Suc.prems k by (auto simp: Let_def)
    have s1: "mem_only s s1" using t mappages_mem_only [OF m] mem_only_trans by blast
    show ?thesis using Suc.prems k False m Suc.IH s1
      by (auto simp: Let_def split: if_splits dest!: deallocuvm_mem_only kfree_mem_only intro: mem_only_trans)
  qed
qed simp

lemma allocuvm_mem_only: "allocuvm pgdir oldsz newsz s = Ret (r, s') \<Longrightarrow> mem_only s s'"
  by (auto simp: allocuvm_def Let_def split: if_splits dest: allocuvm_loop_mem_only)

lemma copyuvm_loop_mem_only: "copyuvm_loop n pgdir d i s = Ret (r, s') \<Longrightarrow> mem_only s s'"
proof (induction n arbitrary: i s)
  case (Suc n)
  obtain pte t where w: "walkpgdir pgdir i False s = (pte, t)" by (cases "walkpgdir pgdir i False s")
  obtain page u where k: "kalloc t = (page, u)" by (cases "kalloc t")
  have u: "mem_only s u" using walkpgdir_mem_only [OF w] kalloc_mem_only [OF k] mem_only_trans by blast
  have p: "pte \<noteq> 0" "present (load32 (mem t) pte)" using Suc.prems w by (auto simp: Let_def split: if_splits)
  let ?e = "load32 (mem t) pte"
  let ?u = "u\<lparr>mem := memmove (mem u) page (P2V (PTE_ADDR ?e)) PGSIZE\<rparr>"
  show ?case
  proof (cases "page = 0")
    case True
    then show ?thesis using Suc.prems w k p u by (auto simp: Let_def dest!: freevm_mem_only intro: mem_only_trans)
  next
    case False
    then obtain r1 s1 where m: "mappages d i PGSIZE (V2P page) (PTE_FLAGS ?e) ?u = Ret (r1, s1)"
      using Suc.prems w k p by (auto simp: Let_def)
    have s1: "mem_only s s1" using u mappages_mem_only [OF m] mem_only_trans mem_only_mem by blast
    show ?thesis using Suc.prems w k p False m Suc.IH s1
      by (auto simp: Let_def split: if_splits dest!: freevm_mem_only kfree_mem_only intro: mem_only_trans)
  qed
qed simp

lemma copyuvm_mem_only: "copyuvm pgdir sz s = Ret (r, s') \<Longrightarrow> mem_only s s'"
  by (auto simp: copyuvm_def split: if_splits dest!: setupkvm_mem_only copyuvm_loop_mem_only intro: mem_only_trans)

end
