(* ===== verification/Proc_Table.thy ===== *)
theory Proc_Table
  imports Vm
begin

text \<open>
  The process table of \<^verbatim>\<open>src/xv6/proc.c\<close> and \<^verbatim>\<open>src/xv6/proc.h\<close>: the structures, slot
  allocation, sleep and wakeup, kill, and the setters that the scheduler's system calls use.
  A pointer to a table entry is its index.  A routine that calls \<open>myproc()\<close> gets the index of
  the calling process as the argument \<open>me\<close>.  Code between \<open>acquire(&ptable.lock)\<close> and
  \<open>release(&ptable.lock)\<close> is one atomic step here; the lock itself is in theory \<open>Spinlock\<close>.
\<close>

section \<open>Structures\<close>

datatype procstate = UNUSED | EMBRYO | SLEEPING | RUNNABLE | RUNNING | ZOMBIE

text \<open>Wait channels: the addresses that the kernel passes to \<open>sleep\<close>.\<close>

datatype lock_name = BufLock nat | InodeLock nat

datatype chan =
    ProcChan nat            \<comment> \<open>a process slot (\<open>wait\<close>)\<close>
  | PidChan nat             \<comment> \<open>\<open>&p->pid\<close> (semaphores)\<close>
  | TicksChan               \<comment> \<open>\<open>&ticks\<close>\<close>
  | LogChan                 \<comment> \<open>\<open>&log\<close>\<close>
  | InputChan               \<comment> \<open>\<open>&input.r\<close>\<close>
  | BufChan nat             \<comment> \<open>a buffer waiting for the disk\<close>
  | PipeReadChan u32        \<comment> \<open>\<open>&p->nread\<close>\<close>
  | PipeWriteChan u32       \<comment> \<open>\<open>&p->nwrite\<close>\<close>
  | LockChan lock_name      \<comment> \<open>a sleep-lock\<close>

record trapframe =
  tf_edi :: u32
  tf_esi :: u32
  tf_ebp :: u32
  tf_oesp :: u32
  tf_ebx :: u32
  tf_edx :: u32
  tf_ecx :: u32
  tf_eax :: u32
  tf_gs :: u16
  tf_fs :: u16
  tf_es :: u16
  tf_ds :: u16
  tf_trapno :: u32
  tf_err :: u32
  tf_eip :: u32
  tf_cs :: u16
  tf_eflags :: u32
  tf_esp :: u32
  tf_ss :: u16

definition zero_trapframe :: trapframe where
  "zero_trapframe =
     \<lparr>tf_edi = 0, tf_esi = 0, tf_ebp = 0, tf_oesp = 0, tf_ebx = 0, tf_edx = 0, tf_ecx = 0,
      tf_eax = 0, tf_gs = 0, tf_fs = 0, tf_es = 0, tf_ds = 0, tf_trapno = 0, tf_err = 0,
      tf_eip = 0, tf_cs = 0, tf_eflags = 0, tf_esp = 0, tf_ss = 0\<rparr>"

text \<open>Code addresses that \<open>allocproc\<close> writes on a new kernel stack.\<close>

datatype code_label = Forkret | Trapret | KernelCode u32

record kcontext =
  ctx_edi :: u32
  ctx_esi :: u32
  ctx_ebx :: u32
  ctx_ebp :: u32
  ctx_eip :: code_label
  ctx_ret :: code_label  \<comment> \<open>the word above the context: where \<open>forkret\<close> returns to\<close>

definition zero_context :: kcontext where
  "zero_context =
     \<lparr>ctx_edi = 0, ctx_esi = 0, ctx_ebx = 0, ctx_ebp = 0, ctx_eip = KernelCode 0,
      ctx_ret = KernelCode 0\<rparr>"

definition NPROC :: nat where "NPROC = 64"
definition NOFILE :: nat where "NOFILE = 16"

text \<open>A \<open>float\<close> value is a rational; the rounding of float operations is a parameter of the
  routines that compute with them.\<close>

record proc =
  p_sz :: u32
  p_pgdir :: u32
  p_kstack :: u32
  p_state :: procstate
  p_pid :: int
  p_parent :: "nat option"
  p_tf :: trapframe
  p_context :: kcontext
  p_chan :: "chan option"
  p_killed :: bool
  p_ofile :: "nat option list"
  p_cwd :: "nat option"
  p_name :: bytes
  p_queue :: int
  p_entered_queue :: int
  p_tickets :: int
  p_priority_ratio :: int
  p_arrival_time_ratio :: int
  p_executed_cycle_ratio :: int
  p_executed_cycle :: rat
  p_priority :: int

text \<open>An entry of the statically allocated table before its first use.\<close>

definition zero_proc :: proc where
  "zero_proc =
     \<lparr>p_sz = 0, p_pgdir = 0, p_kstack = 0, p_state = UNUSED, p_pid = 0, p_parent = None,
      p_tf = zero_trapframe, p_context = zero_context, p_chan = None, p_killed = False,
      p_ofile = replicate NOFILE None, p_cwd = None, p_name = replicate 16 0,
      p_queue = 0, p_entered_queue = 0, p_tickets = 0, p_priority_ratio = 0,
      p_arrival_time_ratio = 0, p_executed_cycle_ratio = 0, p_executed_cycle = 0, p_priority = 0\<rparr>"

record ptab = machine +
  procs :: "proc list"
  nextpid :: int
  initproc :: "nat option"
  ticks :: u32
  cpu_proc :: "nat \<Rightarrow> nat option"  \<comment> \<open>\<open>cpus[c].proc\<close>\<close>

definition upd_proc :: "nat \<Rightarrow> (proc \<Rightarrow> proc) \<Rightarrow> 'a ptab_scheme \<Rightarrow> 'a ptab_scheme" where
  "upd_proc i f s = s\<lparr>procs := (procs s)[i := f (procs s ! i)]\<rparr>"

definition STARVING_THRESHOLD :: u32 where "STARVING_THRESHOLD = 8000"
definition MIN_BJF_RANK :: rat where "MIN_BJF_RANK = 1000000"
definition DEFAULT_MAX_TICKETS :: int where "DEFAULT_MAX_TICKETS = 30"

section \<open>Random numbers\<close>

text \<open>
  \<open>generate_random_number(min, max)\<close> at the given value of \<open>ticks\<close>.  Every operation wraps at
  32 bits and \<open>%\<close> truncates; a zero divisor is a divide error, on which \<open>trap()\<close> panics in the
  kernel.
\<close>

definition rand_expr :: "int \<Rightarrow> int \<Rightarrow> int \<Rightarrow> int" where
  "rand_expr diff time mx =
     wrap32 (wrap32 ((1 + wrap32 (1 + wrap32 (wrap32 ((wrap32 (time + 2) smod diff) * wrap32 (time + 1)) * 132)) smod diff)
                     * (1 + time smod mx))
             * (1 + wrap32 (2 * mx) smod diff))"

definition generate_random_number :: "int \<Rightarrow> int \<Rightarrow> u32 \<Rightarrow> int outcome" where
  "generate_random_number mn mx tks =
     (if mx \<le> mn then Ret (if 0 < mx then mx else wrap32 (- 1 * mx))
      else
        (let diff = wrap32 (wrap32 (mx - mn) + 1);
             time = sint tks
         in if diff = 0 \<or> mx = 0 then Panic ''trap''
            else
              (let rand_num = rand_expr diff time mx
               in Ret (wrap32 (rand_num smod diff + mn)))))"

section \<open>Slots\<close>

definition new_proc_fields :: "u32 \<Rightarrow> int \<Rightarrow> proc \<Rightarrow> proc" where
  "new_proc_fields tks tickets p =
     p\<lparr>p_context := zero_context\<lparr>ctx_eip := Forkret, ctx_ret := Trapret\<rparr>,
       p_entered_queue := sint tks,
       p_queue := 1,
       p_executed_cycle := 0,
       p_priority_ratio := 1,
       p_arrival_time_ratio := 1,
       p_executed_cycle_ratio := 1,
       p_priority := 1,
       p_tickets := tickets\<rparr>"

definition allocproc :: "'a ptab_scheme \<Rightarrow> (nat option \<times> 'a ptab_scheme) outcome" where
  "allocproc s =
     (case scan (\<lambda>p. p_state p = UNUSED) (procs s) of
        None \<Rightarrow> Ret (None, s)
      | Some i \<Rightarrow>
          (let s = upd_proc i (\<lambda>p. p\<lparr>p_state := EMBRYO, p_pid := nextpid s\<rparr>) s;
               s = s\<lparr>nextpid := wrap32 (nextpid s + 1)\<rparr>;
               (stk, s) = kalloc s;
               s = upd_proc i (\<lambda>p. p\<lparr>p_kstack := stk\<rparr>) s
           in if stk = 0 then Ret (None, upd_proc i (\<lambda>p. p\<lparr>p_state := UNUSED\<rparr>) s)
              else bnd (generate_random_number 1 DEFAULT_MAX_TICKETS (ticks s)) (\<lambda>t.
                     Ret (Some i, upd_proc i (new_proc_fields (ticks s) t) s))))"

section \<open>Sleep, wakeup, kill\<close>

text \<open>The part of \<open>sleep(chan, lk)\<close> up to the switch into the scheduler, and what the process
  does when it is scheduled again.\<close>

definition sleep_enter :: "nat \<Rightarrow> chan \<Rightarrow> 'a ptab_scheme \<Rightarrow> 'a ptab_scheme" where
  "sleep_enter me ch s = upd_proc me (\<lambda>p. p\<lparr>p_chan := Some ch, p_state := SLEEPING\<rparr>) s"

definition sleep_leave :: "nat \<Rightarrow> 'a ptab_scheme \<Rightarrow> 'a ptab_scheme" where
  "sleep_leave me s = upd_proc me (\<lambda>p. p\<lparr>p_chan := None\<rparr>) s"

definition wake_one :: "chan \<Rightarrow> proc \<Rightarrow> proc" where
  "wake_one ch p = (if p_state p = SLEEPING \<and> p_chan p = Some ch then p\<lparr>p_state := RUNNABLE\<rparr> else p)"

definition wakeup1 :: "chan \<Rightarrow> 'a ptab_scheme \<Rightarrow> 'a ptab_scheme" where
  "wakeup1 ch s = s\<lparr>procs := map (wake_one ch) (procs s)\<rparr>"

definition wakeup :: "chan \<Rightarrow> 'a ptab_scheme \<Rightarrow> 'a ptab_scheme" where
  "wakeup ch s = wakeup1 ch s"

definition kill :: "int \<Rightarrow> 'a ptab_scheme \<Rightarrow> int \<times> 'a ptab_scheme" where
  "kill pid s =
     (case scan (\<lambda>p. p_pid p = pid) (procs s) of
        None \<Rightarrow> (- 1, s)
      | Some i \<Rightarrow>
          (0, upd_proc i (\<lambda>p. p\<lparr>p_killed := True,
                               p_state := (if p_state p = SLEEPING then RUNNABLE else p_state p)\<rparr>) s))"

text \<open>\<open>yield\<close> up to the switch: the double constant \<open>0.1\<close> is added and the sum is rounded to
  \<open>float\<close> by \<open>fl\<close>.\<close>

definition tenth :: rat where
  "tenth = 3602879701896397 / 36028797018963968"

definition yield_enter :: "(rat \<Rightarrow> rat) \<Rightarrow> nat \<Rightarrow> 'a ptab_scheme \<Rightarrow> 'a ptab_scheme" where
  "yield_enter fl me s =
     upd_proc me (\<lambda>p. p\<lparr>p_state := RUNNABLE, p_executed_cycle := fl (p_executed_cycle p + tenth)\<rparr>) s"

section \<open>Parents and the setters of the scheduling system calls\<close>

text \<open>\<open>get_parent_pid\<close> reads through the parent pointer; with no parent the null pointer is
  read, a page fault in the kernel.\<close>

definition get_parent_pid :: "nat \<Rightarrow> 'a ptab_scheme \<Rightarrow> int outcome" where
  "get_parent_pid me s =
     (case p_parent (procs s ! me) of
        None \<Rightarrow> Panic ''trap''
      | Some i \<Rightarrow> Ret (p_pid (procs s ! i)))"

definition map_pid :: "int \<Rightarrow> (proc \<Rightarrow> proc) \<Rightarrow> 'a ptab_scheme \<Rightarrow> 'a ptab_scheme" where
  "map_pid pid f s = s\<lparr>procs := map (\<lambda>p. if p_pid p = pid then f p else p) (procs s)\<rparr>"

definition set_proc_queue :: "int \<Rightarrow> int \<Rightarrow> 'a ptab_scheme \<Rightarrow> 'a ptab_scheme" where
  "set_proc_queue pid queue s = map_pid pid (\<lambda>p. p\<lparr>p_queue := queue\<rparr>) s"

definition set_lottery_params :: "int \<Rightarrow> int \<Rightarrow> 'a ptab_scheme \<Rightarrow> 'a ptab_scheme" where
  "set_lottery_params pid ticket_chance s = map_pid pid (\<lambda>p. p\<lparr>p_tickets := ticket_chance\<rparr>) s"

definition bjf_fields :: "int \<Rightarrow> int \<Rightarrow> int \<Rightarrow> proc \<Rightarrow> proc" where
  "bjf_fields pr ar er p =
     p\<lparr>p_priority_ratio := pr, p_arrival_time_ratio := ar, p_executed_cycle_ratio := er\<rparr>"

definition set_a_proc_bjf_params :: "int \<Rightarrow> int \<Rightarrow> int \<Rightarrow> int \<Rightarrow> 'a ptab_scheme \<Rightarrow> 'a ptab_scheme" where
  "set_a_proc_bjf_params pid pr ar er s = map_pid pid (bjf_fields pr ar er) s"

definition set_all_bjf_params :: "int \<Rightarrow> int \<Rightarrow> int \<Rightarrow> 'a ptab_scheme \<Rightarrow> 'a ptab_scheme" where
  "set_all_bjf_params pr ar er s = s\<lparr>procs := map (bjf_fields pr ar er) (procs s)\<rparr>"

section \<open>Updates of one entry\<close>

lemma procs_upd_proc [simp]: "procs (upd_proc i f s) = (procs s)[i := f (procs s ! i)]"
  by (simp add: upd_proc_def)

lemma upd_proc_rest [simp]:
  "nextpid (upd_proc i f s) = nextpid s" "initproc (upd_proc i f s) = initproc s" "ticks (upd_proc i f s) = ticks s"
  "cpu_proc (upd_proc i f s) = cpu_proc s"
  by (simp_all add: upd_proc_def)

lemma wakeup1_rest [simp]:
  "nextpid (wakeup1 ch s) = nextpid s" "initproc (wakeup1 ch s) = initproc s" "ticks (wakeup1 ch s) = ticks s"
  "cpu_proc (wakeup1 ch s) = cpu_proc s" "procs (wakeup1 ch s) = map (wake_one ch) (procs s)"
  by (simp_all add: wakeup1_def)

lemma mem_only_ptab:
  fixes s s' :: "'a ptab_scheme"
  assumes "mem_only s s'"
  shows "procs s' = procs s" "nextpid s' = nextpid s" "initproc s' = initproc s" "ticks s' = ticks s"
    "cpu_proc s' = cpu_proc s"
  using assms by (cases s; cases s'; simp add: mem_only_def)+

end
