(* ===== verification/Sleeplock.thy ===== *)
theory Sleeplock
  imports Proc_Table
begin

text \<open>
  Sleep-locks (\<^verbatim>\<open>src/xv6/sleeplock.c\<close>).  A lock is a value of its owner (a buffer, an inode).
  \<open>pid\<close> is the process identifier of the caller, \<open>myproc()->pid\<close>.  The waiting loop of
  \<open>acquiresleep\<close> either finds the lock free or puts the caller to sleep, which is the outcome
  \<open>Blocked\<close> of a routine; \<open>acquiresleep_step\<close> is one turn of that loop on the process table.
\<close>

record sleeplock =
  locked :: bool
  lk_pid :: int

definition initsleeplock :: sleeplock where
  "initsleeplock = \<lparr>locked = False, lk_pid = 0\<rparr>"

definition acquiresleep :: "int \<Rightarrow> sleeplock \<Rightarrow> sleeplock outcome" where
  "acquiresleep pid lk = (if locked lk then Blocked else Ret \<lparr>locked = True, lk_pid = pid\<rparr>)"

definition acquiresleep_step ::
  "nat \<Rightarrow> lock_name \<Rightarrow> sleeplock \<Rightarrow> 'a ptab_scheme \<Rightarrow> sleeplock \<times> 'a ptab_scheme" where
  "acquiresleep_step me nm lk s =
     (if locked lk then (lk, sleep_enter me (LockChan nm) s)
      else (\<lparr>locked = True, lk_pid = p_pid (procs s ! me)\<rparr>, s))"

definition releasesleep :: "lock_name \<Rightarrow> sleeplock \<Rightarrow> 'a ptab_scheme \<Rightarrow> sleeplock \<times> 'a ptab_scheme" where
  "releasesleep nm lk s = (\<lparr>locked = False, lk_pid = 0\<rparr>, wakeup (LockChan nm) s)"

definition holdingsleep :: "int \<Rightarrow> sleeplock \<Rightarrow> bool" where
  "holdingsleep pid lk \<longleftrightarrow> locked lk \<and> lk_pid lk = pid"

lemma acquiresleep_Ret [simp]:
  "acquiresleep pid lk = Ret lk' \<longleftrightarrow> \<not> locked lk \<and> lk' = \<lparr>locked = True, lk_pid = pid\<rparr>"
  by (auto simp: acquiresleep_def)

lemma holdingsleep_fresh [simp]: "holdingsleep pid \<lparr>locked = True, lk_pid = pid\<rparr>"
  by (simp add: holdingsleep_def)

end
