(* ===== verification/Bio.thy ===== *)
theory Bio
  imports Sleeplock
begin

text \<open>
  The buffer cache (\<^verbatim>\<open>src/xv6/bio.c\<close>) over the in-memory disk driver (\<^verbatim>\<open>src/xv6/memide.c\<close>).
  A buffer is an index into \<open>bufs\<close>; the doubly linked list through \<open>prev\<close> and \<open>next\<close> is the list
  \<open>lru\<close> of the indices from \<open>head.next\<close> on.  \<open>me\<close> is the slot of the calling process.  The field
  \<open>disk_writes\<close> records every block that reached the disk, in order, for the statements about
  crashes.
\<close>

section \<open>Definitions\<close>

definition BSIZE :: nat where "BSIZE = 512"
definition NBUF :: nat where "NBUF = 30"
definition ROOTDEV :: u32 where "ROOTDEV = 1"

record buf =
  b_valid :: bool
  b_dirty :: bool
  b_dev :: u32
  b_blockno :: u32
  b_lock :: sleeplock
  b_refcnt :: u32
  b_data :: bytes

definition zero_buf :: buf where
  "zero_buf =
     \<lparr>b_valid = False, b_dirty = False, b_dev = 0, b_blockno = 0, b_lock = initsleeplock,
      b_refcnt = 0, b_data = replicate BSIZE 0\<rparr>"

record bio = ptab +
  memdisk :: "bytes list"
  disk_writes :: "(nat \<times> bytes) list"
  bufs :: "buf list"
  lru :: "nat list"

definition upd_buf :: "nat \<Rightarrow> (buf \<Rightarrow> buf) \<Rightarrow> 'a bio_scheme \<Rightarrow> 'a bio_scheme" where
  "upd_buf k f s = s\<lparr>bufs := (bufs s)[k := f (bufs s ! k)]\<rparr>"

definition bdata :: "nat \<Rightarrow> 'a bio_scheme \<Rightarrow> bytes" where
  "bdata k s = b_data (bufs s ! k)"

definition set_bdata :: "nat \<Rightarrow> bytes \<Rightarrow> 'a bio_scheme \<Rightarrow> 'a bio_scheme" where
  "set_bdata k d s = upd_buf k (\<lambda>b. b\<lparr>b_data := d\<rparr>) s"

definition mypid :: "nat \<Rightarrow> 'a ptab_scheme \<Rightarrow> int" where
  "mypid me s = p_pid (procs s ! me)"

text \<open>\<open>binit\<close> pushes each buffer on the front of the list.\<close>

definition binit :: "'a bio_scheme \<Rightarrow> 'a bio_scheme" where
  "binit s = s\<lparr>lru := rev [0..<NBUF],
               bufs := map (\<lambda>b. b\<lparr>b_lock := initsleeplock\<rparr>) (bufs s)\<rparr>"

definition iderw :: "nat \<Rightarrow> nat \<Rightarrow> 'a bio_scheme \<Rightarrow> 'a bio_scheme outcome" where
  "iderw me k s =
     (let b = bufs s ! k
      in if \<not> holdingsleep (mypid me s) (b_lock b) then Panic ''iderw: buf not locked''
         else if b_valid b \<and> \<not> b_dirty b then Panic ''iderw: nothing to do''
         else if b_dev b \<noteq> 1 then Panic ''iderw: request not for disk 1''
         else if unat (b_blockno b) \<ge> length (memdisk s) then Panic ''iderw: block out of range''
         else if b_dirty b then
           Ret (upd_buf k (\<lambda>b. b\<lparr>b_dirty := False, b_valid := True\<rparr>)
                 (s\<lparr>memdisk := (memdisk s)[unat (b_blockno b) := b_data b],
                    disk_writes := disk_writes s @ [(unat (b_blockno b), b_data b)]\<rparr>))
         else
           Ret (upd_buf k (\<lambda>b'. b'\<lparr>b_data := memdisk s ! unat (b_blockno b), b_valid := True\<rparr>) s))"

definition lock_buf :: "nat \<Rightarrow> nat \<Rightarrow> 'a bio_scheme \<Rightarrow> (nat \<times> 'a bio_scheme) outcome" where
  "lock_buf me k s =
     bnd (acquiresleep (mypid me s) (b_lock (bufs s ! k))) (\<lambda>lk.
       Ret (k, upd_buf k (\<lambda>b. b\<lparr>b_lock := lk\<rparr>) s))"

definition bget :: "nat \<Rightarrow> u32 \<Rightarrow> u32 \<Rightarrow> 'a bio_scheme \<Rightarrow> (nat \<times> 'a bio_scheme) outcome" where
  "bget me dev blockno s =
     (case find (\<lambda>k. b_dev (bufs s ! k) = dev \<and> b_blockno (bufs s ! k) = blockno) (lru s) of
        Some k \<Rightarrow> lock_buf me k (upd_buf k (\<lambda>b. b\<lparr>b_refcnt := b_refcnt b + 1\<rparr>) s)
      | None \<Rightarrow>
          (case find (\<lambda>k. b_refcnt (bufs s ! k) = 0 \<and> \<not> b_dirty (bufs s ! k)) (rev (lru s)) of
             Some k \<Rightarrow>
               lock_buf me k
                 (upd_buf k (\<lambda>b. b\<lparr>b_dev := dev, b_blockno := blockno, b_valid := False,
                                  b_dirty := False, b_refcnt := 1\<rparr>) s)
           | None \<Rightarrow> Panic ''bget: no buffers''))"

definition bread :: "nat \<Rightarrow> u32 \<Rightarrow> u32 \<Rightarrow> 'a bio_scheme \<Rightarrow> (nat \<times> 'a bio_scheme) outcome" where
  "bread me dev blockno s =
     bnd (bget me dev blockno s) (\<lambda>(k, s).
       if \<not> b_valid (bufs s ! k) then bnd (iderw me k s) (\<lambda>s. Ret (k, s))
       else Ret (k, s))"

definition bwrite :: "nat \<Rightarrow> nat \<Rightarrow> 'a bio_scheme \<Rightarrow> 'a bio_scheme outcome" where
  "bwrite me k s =
     (if \<not> holdingsleep (mypid me s) (b_lock (bufs s ! k)) then Panic ''bwrite''
      else iderw me k (upd_buf k (\<lambda>b. b\<lparr>b_dirty := True\<rparr>) s))"

definition brelse :: "nat \<Rightarrow> nat \<Rightarrow> 'a bio_scheme \<Rightarrow> 'a bio_scheme outcome" where
  "brelse me k s =
     (if \<not> holdingsleep (mypid me s) (b_lock (bufs s ! k)) then Panic ''brelse''
      else
        (let (lk, s) = releasesleep (BufLock k) (b_lock (bufs s ! k)) s;
             s = upd_buf k (\<lambda>b. b\<lparr>b_lock := lk, b_refcnt := b_refcnt b - 1\<rparr>) s
         in if b_refcnt (bufs s ! k) = 0 then Ret (s\<lparr>lru := k # remove1 k (lru s)\<rparr>)
            else Ret s))"

section \<open>Invariant and contents\<close>

text \<open>
  Routines are modelled between their blocking points, so a reference to a buffer is its lock:
  \<open>refcnt\<close> is 1 for a locked buffer and 0 otherwise.  A valid buffer that nobody holds and that is
  not pinned by the log (\<open>B_DIRTY\<close>) has the contents of its disk block.
\<close>

definition buf_ok :: "bytes list \<Rightarrow> buf \<Rightarrow> bool" where
  "buf_ok disk b \<longleftrightarrow>
     length (b_data b) = BSIZE \<and> b_refcnt b = (if locked (b_lock b) then 1 else 0) \<and>
     (b_dirty b \<longrightarrow> b_valid b) \<and> (b_valid b \<longrightarrow> b_dev b = 1 \<and> unat (b_blockno b) < length disk) \<and>
     (b_valid b \<longrightarrow> \<not> b_dirty b \<longrightarrow> \<not> locked (b_lock b) \<longrightarrow> b_data b = disk ! unat (b_blockno b))"

definition one_copy :: "buf list \<Rightarrow> bool" where
  "one_copy bs \<longleftrightarrow>
     (\<forall>i < length bs. \<forall>j < length bs.
        b_dev (bs ! i) \<noteq> 0 \<and> b_dev (bs ! i) = b_dev (bs ! j) \<and> b_blockno (bs ! i) = b_blockno (bs ! j) \<longrightarrow> i = j)"

definition cache_ok :: "'a bio_scheme \<Rightarrow> bool" where
  "cache_ok s \<longleftrightarrow>
     length (bufs s) = NBUF \<and> distinct (lru s) \<and> set (lru s) = {..<NBUF} \<and>
     (\<forall>d \<in> set (memdisk s). length d = BSIZE) \<and> (\<forall>b \<in> set (bufs s). buf_ok (memdisk s) b) \<and>
     one_copy (bufs s)"

text \<open>The current contents of block \<open>b\<close> of the disk: a valid copy in the cache, or else the disk.\<close>

definition blk :: "'a bio_scheme \<Rightarrow> u32 \<Rightarrow> bytes" where
  "blk s b =
     (case find (\<lambda>x. b_valid x \<and> b_blockno x = b) (bufs s) of
        Some x \<Rightarrow> b_data x
      | None \<Rightarrow> memdisk s ! unat b)"

lemma one_copyD:
  "one_copy bs \<Longrightarrow> i < length bs \<Longrightarrow> j < length bs \<Longrightarrow> b_dev (bs ! i) \<noteq> 0 \<Longrightarrow>
    b_dev (bs ! i) = b_dev (bs ! j) \<Longrightarrow> b_blockno (bs ! i) = b_blockno (bs ! j) \<Longrightarrow> i = j"
  by (auto simp: one_copy_def)

lemma cache_ok_nth: "cache_ok s \<Longrightarrow> k < NBUF \<Longrightarrow> buf_ok (memdisk s) (bufs s ! k)"
  by (auto simp: cache_ok_def)

lemma blk_cached:
  assumes "cache_ok s" "k < NBUF" "b_valid (bufs s ! k)"
  shows "blk s (b_blockno (bufs s ! k)) = b_data (bufs s ! k)"
proof (cases "find (\<lambda>x. b_valid x \<and> b_blockno x = b_blockno (bufs s ! k)) (bufs s)")
  case None
  then show ?thesis using assms by (auto simp: find_None_iff cache_ok_def)
next
  case (Some x)
  then obtain j where j: "j < length (bufs s)" "b_valid (bufs s ! j)"
    "b_blockno (bufs s ! j) = b_blockno (bufs s ! k)" "x = bufs s ! j" by (auto simp: find_Some_iff)
  have "j = k"
    using assms j cache_ok_nth [of s k] cache_ok_nth [of s j]
    by (intro one_copyD [of "bufs s"]) (auto simp: cache_ok_def buf_ok_def)
  then show ?thesis using Some j by (simp add: blk_def)
qed

lemma blk_uncached:
  "\<forall>k < length (bufs s). b_valid (bufs s ! k) \<longrightarrow> b_blockno (bufs s ! k) \<noteq> b \<Longrightarrow> blk s b = memdisk s ! unat b"
  by (auto simp: blk_def find_None_iff in_set_conv_nth split: option.splits dest!: find_Some_iff [THEN iffD1])

text \<open>Contents read off a buffer or off the disk, whichever applies.\<close>

lemma blk_eqI:
  assumes "cache_ok s" "cache_ok s'"
    and "\<And>k. k < NBUF \<Longrightarrow> b_valid (bufs s ! k) \<Longrightarrow> b_blockno (bufs s ! k) = b \<Longrightarrow> blk s' b = b_data (bufs s ! k)"
    and "\<forall>k < NBUF. b_valid (bufs s ! k) \<longrightarrow> b_blockno (bufs s ! k) \<noteq> b \<Longrightarrow> blk s' b = memdisk s ! unat b"
  shows "blk s' b = blk s b"
proof (cases "\<exists>k < NBUF. b_valid (bufs s ! k) \<and> b_blockno (bufs s ! k) = b")
  case True
  then show ?thesis using assms(3) blk_cached [OF assms(1)] by auto
next
  case False
  then have "blk s b = memdisk s ! unat b" using assms(1) by (intro blk_uncached) (auto simp: cache_ok_def)
  then show ?thesis using False assms(4) by auto
qed

lemma length_blk:
  assumes "cache_ok s" "unat b < length (memdisk s)"
  shows "length (blk s b) = BSIZE"
proof (cases "\<exists>k < NBUF. b_valid (bufs s ! k) \<and> b_blockno (bufs s ! k) = b")
  case True
  then show ?thesis using blk_cached [OF assms(1)] cache_ok_nth [OF assms(1)] by (auto simp: buf_ok_def)
next
  case False
  then have "blk s b = memdisk s ! unat b" using assms(1) by (intro blk_uncached) (auto simp: cache_ok_def)
  then show ?thesis using assms by (auto simp: cache_ok_def)
qed

text \<open>The effect of replacing one buffer.\<close>

definition put_buf :: "nat \<Rightarrow> buf \<Rightarrow> 'a bio_scheme \<Rightarrow> 'a bio_scheme" where
  "put_buf k u s = s\<lparr>bufs := (bufs s)[k := u]\<rparr>"

lemma put_buf_simps [simp]:
  "memdisk (put_buf k u s) = memdisk s" "lru (put_buf k u s) = lru s" "procs (put_buf k u s) = procs s"
  "bufs (put_buf k u s) = (bufs s)[k := u]" "disk_writes (put_buf k u s) = disk_writes s"
  "mypid me (put_buf k u s) = mypid me s" "put_buf k v (put_buf k u s) = put_buf k v s"
  by (simp_all add: put_buf_def mypid_def)

lemma upd_buf_put: "upd_buf k f s = put_buf k (f (bufs s ! k)) s"
  by (simp add: upd_buf_def put_buf_def)

lemma one_copy_update:
  assumes one: "one_copy bs" and k: "k < length bs"
    and new: "\<And>j. j < length bs \<Longrightarrow> j \<noteq> k \<Longrightarrow> b_dev (bs ! j) = b_dev u \<Longrightarrow> b_blockno (bs ! j) = b_blockno u \<Longrightarrow> b_dev u = 0"
  shows "one_copy (bs[k := u])"
  unfolding one_copy_def
proof (intro allI impI)
  fix i j
  assume "i < length (bs[k := u])" "j < length (bs[k := u])"
    "b_dev (bs[k := u] ! i) \<noteq> 0 \<and> b_dev (bs[k := u] ! i) = b_dev (bs[k := u] ! j) \<and>
     b_blockno (bs[k := u] ! i) = b_blockno (bs[k := u] ! j)"
  then show "i = j"
    using k new [of i] new [of j] one_copyD [OF one, of i j] by (cases "i = k"; cases "j = k") simp_all
qed

lemma cache_ok_put:
  assumes "cache_ok s" "k < NBUF" "buf_ok (memdisk s) u"
    and "\<And>j. j < NBUF \<Longrightarrow> j \<noteq> k \<Longrightarrow> b_dev (bufs s ! j) = b_dev u \<Longrightarrow> b_blockno (bufs s ! j) = b_blockno u \<Longrightarrow> b_dev u = 0"
  shows "cache_ok (put_buf k u s)"
proof -
  have len: "length (bufs s) = NBUF" and one: "one_copy (bufs s)" using assms(1) by (auto simp: cache_ok_def)
  have "one_copy ((bufs s)[k := u])" using assms len by (intro one_copy_update [OF one]) auto
  moreover have "buf_ok (memdisk s) b" if "b \<in> set ((bufs s)[k := u])" for b
  proof -
    from that have "b = u \<or> b \<in> set (bufs s)" using set_update_subset_insert [of "bufs s" k u] by auto
    then show ?thesis using assms(1,3) unfolding cache_ok_def by metis
  qed
  ultimately show ?thesis using assms(1) by (simp add: cache_ok_def)
qed

lemma blk_put:
  assumes ok: "cache_ok s" "cache_ok (put_buf k u s)" and k: "k < NBUF"
  shows "blk (put_buf k u s) b =
    (if b_valid u \<and> b_blockno u = b then b_data u
     else if b_valid (bufs s ! k) \<and> b_blockno (bufs s ! k) = b then memdisk s ! unat b
     else blk s b)"
proof (cases "b_valid u \<and> b_blockno u = b")
  case True
  have "length (bufs s) = NBUF" using ok(1) by (simp add: cache_ok_def)
  then show ?thesis using blk_cached [OF ok(2) k] k True by simp
next
  case new: False
  have len: "length (bufs s) = NBUF" using ok(1) by (simp add: cache_ok_def)
  show ?thesis
  proof (cases "\<exists>j < NBUF. j \<noteq> k \<and> b_valid (bufs s ! j) \<and> b_blockno (bufs s ! j) = b")
    case True
    then obtain j where j: "j < NBUF" "j \<noteq> k" "b_valid (bufs s ! j)" "b_blockno (bufs s ! j) = b" by blast
    have "\<not> (b_valid (bufs s ! k) \<and> b_blockno (bufs s ! k) = b)"
    proof
      assume "b_valid (bufs s ! k) \<and> b_blockno (bufs s ! k) = b"
      then have "j = k"
        using j k ok(1) len cache_ok_nth [of s k] cache_ok_nth [of s j]
        by (intro one_copyD [of "bufs s"]) (simp_all add: cache_ok_def buf_ok_def)
      then show False using j by simp
    qed
    moreover have "blk (put_buf k u s) b = b_data (bufs s ! j)" "blk s b = b_data (bufs s ! j)"
      using j blk_cached [OF ok(2), of j] blk_cached [OF ok(1), of j] by simp_all
    ultimately show ?thesis using new by auto
  next
    case none: False
    have "b_blockno ((bufs s)[k := u] ! j) \<noteq> b" if "j < NBUF" "b_valid ((bufs s)[k := u] ! j)" for j
      using that none new len k by (cases "j = k") auto
    then have "blk (put_buf k u s) b = memdisk s ! unat b"
      using blk_uncached [of "put_buf k u s" b] len by simp
    moreover have "blk s b = memdisk s ! unat b" if "\<not> (b_valid (bufs s ! k) \<and> b_blockno (bufs s ! k) = b)"
      using that none len by (intro blk_uncached allI impI) (metis len)
    ultimately show ?thesis using new by auto
  qed
qed

section \<open>The buffer protocol\<close>

text \<open>
  A process holds the buffers \<open>H\<close> and no other buffer is locked.  Each held buffer is valid.
\<close>

definition holds :: "nat \<Rightarrow> nat set \<Rightarrow> 'a bio_scheme \<Rightarrow> bool" where
  "holds me H s \<longleftrightarrow>
     cache_ok s \<and> me < length (procs s) \<and> H \<subseteq> {..<NBUF} \<and> (\<forall>k < NBUF. locked (b_lock (bufs s ! k)) \<longleftrightarrow> k \<in> H) \<and>
     (\<forall>k \<in> H. b_valid (bufs s ! k) \<and> lk_pid (b_lock (bufs s ! k)) = mypid me s)"

definition pinned :: "'a bio_scheme \<Rightarrow> nat set" where
  "pinned s = {k. k < NBUF \<and> b_dirty (bufs s ! k)}"

definition bno :: "'a bio_scheme \<Rightarrow> nat \<Rightarrow> u32" where
  "bno s k = b_blockno (bufs s ! k)"

text \<open>The blocks that the log has pinned in the cache.\<close>

definition pblocks :: "'a bio_scheme \<Rightarrow> u32 set" where
  "pblocks s = bno s ` pinned s"

text \<open>The copy is on disk, or pinned until the log writes it.\<close>

definition saved :: "'a bio_scheme \<Rightarrow> nat \<Rightarrow> bool" where
  "saved s k \<longleftrightarrow> b_dirty (bufs s ! k) \<or> b_data (bufs s ! k) = memdisk s ! unat (bno s k)"

lemma holdsD:
  assumes "holds me H s"
  shows "cache_ok s" "H \<subseteq> {..<NBUF}" "length (bufs s) = NBUF" "set (lru s) = {..<NBUF}"
    and "k < NBUF \<Longrightarrow> locked (b_lock (bufs s ! k)) \<longleftrightarrow> k \<in> H"
    and "k \<in> H \<Longrightarrow> b_valid (bufs s ! k)"
    and "k \<in> H \<Longrightarrow> lk_pid (b_lock (bufs s ! k)) = mypid me s" and "me < length (procs s)"
  using assms by (auto simp: holds_def cache_ok_def)

text \<open>A copy of block \<open>b\<close> in buffer \<open>k\<close>, locked by the caller.\<close>

definition got :: "nat \<Rightarrow> u32 \<Rightarrow> 'a bio_scheme \<Rightarrow> nat \<Rightarrow> buf \<Rightarrow> bool" where
  "got me b s k u \<longleftrightarrow>
     k < NBUF \<and> b_refcnt (bufs s ! k) = 0 \<and>
     (b_valid (bufs s ! k) \<longrightarrow> b_blockno (bufs s ! k) \<noteq> b \<longrightarrow> \<not> b_dirty (bufs s ! k)) \<and>
     b_dev u = 1 \<and> b_blockno u = b \<and> b_valid u \<and> b_lock u = \<lparr>locked = True, lk_pid = mypid me s\<rparr> \<and>
     b_refcnt u = 1 \<and> b_data u = blk s b \<and> b_dirty u = b_dirty (bufs s ! k) \<and>
     (b_dirty u \<or> b_data u = memdisk s ! unat b) \<and>
     (\<forall>j < NBUF. j \<noteq> k \<longrightarrow> b_dev (bufs s ! j) = 1 \<longrightarrow> b_blockno (bufs s ! j) \<noteq> b)"

lemma iderw_read:
  assumes "b_lock (bufs s ! k) = \<lparr>locked = True, lk_pid = mypid me s\<rparr>" "\<not> b_valid (bufs s ! k)"
    "\<not> b_dirty (bufs s ! k)" "b_dev (bufs s ! k) = 1" "unat (b_blockno (bufs s ! k)) < length (memdisk s)"
  shows "iderw me k s =
    Ret (put_buf k ((bufs s ! k)\<lparr>b_data := memdisk s ! unat (b_blockno (bufs s ! k)), b_valid := True\<rparr>) s)"
  using assms by (simp add: iderw_def Let_def upd_buf_put)

lemma bread_hit:
  assumes h: "holds me H s" and b: "unat b < length (memdisk s)"
    and k: "k < NBUF" "b_dev (bufs s ! k) = 1" "b_blockno (bufs s ! k) = b" "k \<notin> H"
    and f: "find (\<lambda>k. b_dev (bufs s ! k) = 1 \<and> b_blockno (bufs s ! k) = b) (lru s) = Some k"
  shows "\<exists>u. bread me 1 b s = Ret (k, put_buf k u s) \<and> got me b s k u"
proof -
  let ?c = "bufs s ! k"
  note hd = holdsD [OF h]
  have ul: "\<not> locked (b_lock ?c)" and ok: "buf_ok (memdisk s) ?c"
    using hd(5) [OF k(1)] k(4) cache_ok_nth [OF hd(1) k(1)] by auto
  have r0: "b_refcnt ?c = 0" using ok ul by (simp add: buf_ok_def)
  have uniq: "b_blockno (bufs s ! j) \<noteq> b" if "j < NBUF" "j \<noteq> k" "b_dev (bufs s ! j) = 1" for j
    using that hd(1,3) k one_copyD [of "bufs s" j k] by (auto simp: cache_ok_def)
  let ?v = "?c\<lparr>b_refcnt := 1, b_lock := \<lparr>locked = True, lk_pid = mypid me s\<rparr>\<rparr>"
  have g: "bget me 1 b s = Ret (k, put_buf k ?v s)"
    using f ul k hd(3) r0 by (simp add: bget_def lock_buf_def upd_buf_put mypid_def acquiresleep_def)
  show ?thesis
  proof (cases "b_valid ?c")
    case True
    then have "bread me 1 b s = Ret (k, put_buf k ?v s)" using g k hd(3) by (simp add: bread_def)
    moreover have "blk s b = b_data ?c" using blk_cached [OF hd(1) k(1) True] k(3) by simp
    moreover have "b_dirty ?c \<or> b_data ?c = memdisk s ! unat b" using ok ul True k(3) by (auto simp: buf_ok_def)
    ultimately show ?thesis
      using True uniq r0 k unfolding got_def by (intro exI [of _ ?v]) simp
  next
    case False
    let ?w = "?v\<lparr>b_data := memdisk s ! unat b, b_valid := True\<rparr>"
    have nd: "\<not> b_dirty ?c" using False ok by (auto simp: buf_ok_def)
    have "iderw me k (put_buf k ?v s) = Ret (put_buf k ?w s)"
      using iderw_read [of "put_buf k ?v s" k me] False nd k b hd(3) by simp
    then have "bread me 1 b s = Ret (k, put_buf k ?w s)" using g k hd(3) False by (simp add: bread_def)
    moreover have "blk s b = memdisk s ! unat b"
    proof (rule blk_uncached, intro allI impI notI)
      fix j assume j: "j < length (bufs s)" "b_valid (bufs s ! j)" "b_blockno (bufs s ! j) = b"
      then have "b_dev (bufs s ! j) = 1" using cache_ok_nth [OF hd(1), of j] hd(3) by (simp add: buf_ok_def)
      then show False using uniq j hd(3) False by auto
    qed
    ultimately show ?thesis using uniq r0 k nd unfolding got_def by (intro exI [of _ ?w]) simp
  qed
qed

lemma bread_miss:
  assumes h: "holds me H s" and b: "unat b < length (memdisk s)" and room: "card (H \<union> pinned s) < NBUF"
    and f: "find (\<lambda>k. b_dev (bufs s ! k) = 1 \<and> b_blockno (bufs s ! k) = b) (lru s) = None"
  shows "\<exists>k u. bread me 1 b s = Ret (k, put_buf k u s) \<and> got me b s k u"
proof -
  note hd = holdsD [OF h]
  have no: "\<not> (b_dev (bufs s ! j) = 1 \<and> b_blockno (bufs s ! j) = b)" if "j < NBUF" for j
    using f that hd(4) by (auto simp: find_None_iff)
  have "\<not> {..<NBUF} \<subseteq> H \<union> pinned s"
  proof
    assume "{..<NBUF} \<subseteq> H \<union> pinned s"
    moreover have "H \<union> pinned s \<subseteq> {..<NBUF}" using hd(2) by (auto simp: pinned_def)
    ultimately have "H \<union> pinned s = {..<NBUF}" by blast
    then show False using room by simp
  qed
  then obtain j where j: "j < NBUF" "j \<notin> H" "\<not> b_dirty (bufs s ! j)" by (auto simp: pinned_def)
  have rj: "b_refcnt (bufs s ! j) = 0"
    using j hd(5) [OF j(1)] cache_ok_nth [OF hd(1) j(1)] by (simp add: buf_ok_def)
  obtain k where k: "find (\<lambda>k. b_refcnt (bufs s ! k) = 0 \<and> \<not> b_dirty (bufs s ! k)) (rev (lru s)) = Some k"
    using j rj hd(4) by (cases "find (\<lambda>k. b_refcnt (bufs s ! k) = 0 \<and> \<not> b_dirty (bufs s ! k)) (rev (lru s))")
      (auto simp: find_None_iff)
  then have kp: "b_refcnt (bufs s ! k) = 0" "\<not> b_dirty (bufs s ! k)" and "k \<in> set (rev (lru s))"
    using find_SomeD [OF k] by auto
  then have kn: "k < NBUF" using hd(4) by auto
  let ?c = "bufs s ! k"
  have ul: "\<not> locked (b_lock ?c)" using kp(1) cache_ok_nth [OF hd(1) kn] by (auto simp: buf_ok_def split: if_splits)
  let ?v = "?c\<lparr>b_dev := 1, b_blockno := b, b_valid := False, b_dirty := False, b_refcnt := 1,
      b_lock := \<lparr>locked = True, lk_pid = mypid me s\<rparr>\<rparr>"
  have g: "bget me 1 b s = Ret (k, put_buf k ?v s)"
    using f k ul kn hd(3) by (simp add: bget_def lock_buf_def upd_buf_put mypid_def acquiresleep_def)
  let ?w = "?v\<lparr>b_data := memdisk s ! unat b, b_valid := True\<rparr>"
  have "iderw me k (put_buf k ?v s) = Ret (put_buf k ?w s)"
    using iderw_read [of "put_buf k ?v s" k me] kn b hd(3) by simp
  then have "bread me 1 b s = Ret (k, put_buf k ?w s)" using g kn hd(3) by (simp add: bread_def)
  moreover have "blk s b = memdisk s ! unat b"
  proof (rule blk_uncached, intro allI impI notI)
    fix j assume i: "j < length (bufs s)" "b_valid (bufs s ! j)" "b_blockno (bufs s ! j) = b"
    then have "b_dev (bufs s ! j) = 1" using cache_ok_nth [OF hd(1), of j] hd(3) by (simp add: buf_ok_def)
    then show False using no i hd(3) by auto
  qed
  ultimately show ?thesis using kp kn no unfolding got_def by (intro exI [of _ k] exI [of _ ?w]) simp
qed

text \<open>What a cache operation leaves alone: everything but the buffers, their order and the states of
  processes that it wakes.\<close>

definition bio_frame :: "'a bio_scheme \<Rightarrow> 'a bio_scheme \<Rightarrow> bool" where
  "bio_frame s s' \<longleftrightarrow>
     (\<exists>ps bs l. s' = s\<lparr>procs := ps, bufs := bs, lru := l\<rparr> \<and> map p_pid ps = map p_pid (procs s))"

lemma bio_frameI:
  "s' = s\<lparr>procs := ps, bufs := bs, lru := l\<rparr> \<Longrightarrow> map p_pid ps = map p_pid (procs s) \<Longrightarrow> bio_frame s s'"
  by (auto simp: bio_frame_def)

lemma bio_frame_refl [simp]: "bio_frame s s"
  by (rule bio_frameI [where ps = "procs s" and bs = "bufs s" and l = "lru s"]) simp_all

lemma bio_frame_trans:
  assumes "bio_frame s t" "bio_frame t u" shows "bio_frame s u"
proof -
  from assms(1) obtain ps bs l where
    t: "t = s\<lparr>procs := ps, bufs := bs, lru := l\<rparr>" "map p_pid ps = map p_pid (procs s)" by (auto simp: bio_frame_def)
  from assms(2) obtain ps' bs' l' where
    u: "u = t\<lparr>procs := ps', bufs := bs', lru := l'\<rparr>" "map p_pid ps' = map p_pid (procs t)" by (auto simp: bio_frame_def)
  show ?thesis using t u by (intro bio_frameI [where ps = ps' and bs = bs' and l = l']) simp_all
qed

lemma bio_frame_put [simp]: "bio_frame s (put_buf k u s)"
  by (rule bio_frameI [where ps = "procs s" and bs = "(bufs s)[k := u]" and l = "lru s"])
    (simp_all add: put_buf_def)

lemma bio_frame_simps:
  assumes "bio_frame s s'"
  shows "memdisk s' = memdisk s" "disk_writes s' = disk_writes s" "bio.more s' = bio.more s"
    "nextpid s' = nextpid s" "ticks s' = ticks s" "freelist s' = freelist s" "mem s' = mem s"
    "length (procs s') = length (procs s)"
  using assms by (auto simp: bio_frame_def dest: map_eq_imp_length_eq)

lemma wakeup_pids [simp]: "map p_pid (procs (wakeup c s)) = map p_pid (procs s)"
  by (simp add: wakeup_def wakeup1_def wake_one_def)

lemma mypid_wakeup [simp]: "me < length (procs s) \<Longrightarrow> mypid me (wakeup c s) = mypid me s"
  by (simp add: wakeup_def wakeup1_def wake_one_def mypid_def)

lemma pinned_put:
  "length (bufs s) = NBUF \<Longrightarrow> k < NBUF \<Longrightarrow>
    pinned (put_buf k u s) = (if b_dirty u then insert k (pinned s) else pinned s - {k})"
  by (auto simp: pinned_def nth_list_update)

lemma got_holds:
  assumes h: "holds me H s" and g: "got me b s k u" and b: "unat b < length (memdisk s)"
  shows "k \<notin> H" "holds me (insert k H) (put_buf k u s)" "blk (put_buf k u s) = blk s"
    "pinned (put_buf k u s) = pinned s" "saved (put_buf k u s) k"
proof -
  note hd = holdsD [OF h]
  let ?c = "bufs s ! k"
  have kn: "k < NBUF" and r0: "b_refcnt ?c = 0" using g by (auto simp: got_def)
  have okc: "buf_ok (memdisk s) ?c" by (rule cache_ok_nth [OF hd(1) kn])
  have ul: "\<not> locked (b_lock ?c)" using okc r0 by (auto simp: buf_ok_def split: if_splits)
  then show kH: "k \<notin> H" using hd(5) [OF kn] by simp
  have disk: "length (blk s b) = BSIZE" by (rule length_blk [OF hd(1) b])
  have ok: "cache_ok (put_buf k u s)"
  proof (rule cache_ok_put [OF hd(1) kn])
    show "buf_ok (memdisk s) u" using g b disk by (auto simp: buf_ok_def got_def)
    show "\<And>j. j < NBUF \<Longrightarrow> j \<noteq> k \<Longrightarrow> b_dev (bufs s ! j) = b_dev u \<Longrightarrow> b_blockno (bufs s ! j) = b_blockno u \<Longrightarrow> b_dev u = 0"
      using g by (simp add: got_def)
  qed
  show "holds me (insert k H) (put_buf k u s)"
    unfolding holds_def using ok hd kn kH g by (auto simp: nth_list_update got_def)
  show "blk (put_buf k u s) = blk s"
  proof
    fix x
    have "memdisk s ! unat x = blk s x" if "b_valid ?c" "b_blockno ?c = x" "x \<noteq> b"
      using that okc ul g blk_cached [OF hd(1) kn that(1)] by (auto simp: buf_ok_def got_def)
    then show "blk (put_buf k u s) x = blk s x" using blk_put [OF hd(1) ok kn] g by (auto simp: got_def)
  qed
  show "pinned (put_buf k u s) = pinned s"
    using pinned_put [OF hd(3) kn] g kn by (auto simp: got_def pinned_def)
  show "saved (put_buf k u s) k" using g kn hd(3) by (auto simp: saved_def bno_def got_def)
qed

lemma card_pinned:
  assumes "cache_ok s" shows "card (pinned s) = card (pblocks s)"
proof -
  have "inj_on (bno s) (pinned s)"
  proof (rule inj_onI)
    fix i j assume "i \<in> pinned s" "j \<in> pinned s" "bno s i = bno s j"
    then show "i = j"
      using assms cache_ok_nth [OF assms, of i] cache_ok_nth [OF assms, of j] one_copyD [of "bufs s" i j]
      by (auto simp: pinned_def bno_def buf_ok_def cache_ok_def)
  qed
  then show ?thesis by (simp add: pblocks_def card_image)
qed

lemma got_pblocks:
  assumes "holds me H s" "got me b s k u"
  shows "pblocks (put_buf k u s) = pblocks s"
proof -
  have kn: "k < NBUF" and len: "length (bufs s) = NBUF" and d: "b_dirty u = b_dirty (bufs s ! k)"
    and ub: "b_blockno u = b"
    using assms holdsD(3) [OF assms(1)] by (auto simp: got_def)
  have "b_blockno (bufs s ! k) = b" if "b_dirty (bufs s ! k)"
    using that assms(2) cache_ok_nth [OF holdsD(1) [OF assms(1)] kn] by (auto simp: got_def buf_ok_def)
  then have "bno (put_buf k u s) j = bno s j" if "j \<in> pinned s" for j
    using that kn len ub by (cases "j = k") (auto simp: bno_def pinned_def)
  moreover have "pinned (put_buf k u s) = pinned s"
    using pinned_put [OF len kn] d kn by (auto simp: pinned_def)
  ultimately show ?thesis unfolding pblocks_def by (intro image_cong) auto
qed

lemma bread_holds:
  assumes h: "holds me H s" and b: "unat b < length (memdisk s)" and nb: "b \<notin> bno s ` H"
    and room: "card H + card (pblocks s) < NBUF \<or> b \<in> pblocks s"
  obtains k u where "bread me 1 b s = Ret (k, put_buf k u s)" "got me b s k u"
proof (cases "find (\<lambda>k. b_dev (bufs s ! k) = 1 \<and> b_blockno (bufs s ! k) = b) (lru s)")
  case None
  have "b \<notin> pblocks s"
  proof
    assume "b \<in> pblocks s"
    then obtain k where "k < NBUF" "b_dirty (bufs s ! k)" "b_blockno (bufs s ! k) = b"
      by (auto simp: pblocks_def pinned_def bno_def)
    then show False
      using None cache_ok_nth [OF holdsD(1) [OF h], of k] holdsD(4) [OF h] by (auto simp: find_None_iff buf_ok_def)
  qed
  then have "card (H \<union> pinned s) < NBUF"
    using room card_Un_le [of H "pinned s"] card_pinned [OF holdsD(1) [OF h]] by linarith
  then show thesis using bread_miss [OF h b] None that by blast
next
  case (Some k)
  note fk = find_SomeD [OF Some]
  then have "k < NBUF" using holdsD(4) [OF h] by auto
  moreover have "k \<notin> H" using fk nb by (auto simp: bno_def)
  ultimately show thesis using bread_hit [OF h b, of k] fk Some that by blast
qed

lemma pblocks_eq: "pinned s' = pinned s \<Longrightarrow> bno s' = bno s \<Longrightarrow> pblocks s' = pblocks s"
  by (simp add: pblocks_def)

lemma set_bdata_holds:
  assumes h: "holds me H s" and k: "k \<in> H" and d: "length d = BSIZE"
  shows "holds me H (set_bdata k d s)" "blk (set_bdata k d s) = (blk s)(bno s k := d)"
    "pblocks (set_bdata k d s) = pblocks s" "bio_frame s (set_bdata k d s)"
    "bdata k (set_bdata k d s) = d" "bno (set_bdata k d s) = bno s"
    "\<And>j. j \<noteq> k \<Longrightarrow> bufs (set_bdata k d s) ! j = bufs s ! j"
    "b_dirty (bufs (set_bdata k d s) ! k) = b_dirty (bufs s ! k)"
proof -
  note hd = holdsD [OF h]
  let ?u = "(bufs s ! k)\<lparr>b_data := d\<rparr>"
  have kn: "k < NBUF" using hd(2) k by auto
  have eq: "set_bdata k d s = put_buf k ?u s" by (simp add: set_bdata_def upd_buf_put)
  have okk: "buf_ok (memdisk s) (bufs s ! k)" and lk: "locked (b_lock (bufs s ! k))" and v: "b_valid (bufs s ! k)"
    using cache_ok_nth [OF hd(1) kn] hd(5) [OF kn] hd(6) k by auto
  have one: "one_copy (bufs s)" using hd(1) by (simp add: cache_ok_def)
  have ok: "cache_ok (put_buf k ?u s)"
  proof (rule cache_ok_put [OF hd(1) kn])
    show "buf_ok (memdisk s) ?u" using okk lk d by (simp add: buf_ok_def)
    fix j assume "j < NBUF" "j \<noteq> k" "b_dev (bufs s ! j) = b_dev ?u" "b_blockno (bufs s ! j) = b_blockno ?u"
    then show "b_dev ?u = 0" using one_copyD [OF one, of j k] kn hd(3) by auto
  qed
  show "holds me H (set_bdata k d s)"
    unfolding eq holds_def using ok hd kn by (auto simp: nth_list_update)
  show "blk (set_bdata k d s) = (blk s)(bno s k := d)"
    unfolding eq using blk_put [OF hd(1) ok kn] v by (auto simp: fun_eq_iff bno_def)
  have pin: "pinned (set_bdata k d s) = pinned s"
    unfolding eq using pinned_put [OF hd(3) kn] kn by (auto simp: pinned_def)
  show bn: "bno (set_bdata k d s) = bno s"
    unfolding eq using kn hd(3) by (auto simp: fun_eq_iff bno_def nth_list_update)
  show "pblocks (set_bdata k d s) = pblocks s" using pin bn by (simp add: pblocks_def)
qed (use assms holdsD(2,3) [OF h] in \<open>auto simp: set_bdata_def upd_buf_put bdata_def\<close>)

lemma brelse_holds:
  assumes h: "holds me H s" and k: "k \<in> H" and sv: "saved s k"
  obtains s' where "brelse me k s = Ret s'" "holds me (H - {k}) s'" "blk s' = blk s" "pblocks s' = pblocks s"
    "bio_frame s s'" "bno s' = bno s" "\<And>j. j \<noteq> k \<Longrightarrow> bufs s' ! j = bufs s ! j"
proof -
  note hd = holdsD [OF h]
  have kn: "k < NBUF" using hd(2) k by auto
  let ?u = "(bufs s ! k)\<lparr>b_lock := \<lparr>locked = False, lk_pid = 0\<rparr>, b_refcnt := 0\<rparr>"
  have okk: "buf_ok (memdisk s) (bufs s ! k)" and lk: "locked (b_lock (bufs s ! k))" and v: "b_valid (bufs s ! k)"
    using cache_ok_nth [OF hd(1) kn] hd(5) [OF kn] hd(6) k by auto
  have r1: "b_refcnt (bufs s ! k) = 1" using okk lk by (simp add: buf_ok_def)
  have one: "one_copy (bufs s)" using hd(1) by (simp add: cache_ok_def)
  have ok: "cache_ok (put_buf k ?u s)"
  proof (rule cache_ok_put [OF hd(1) kn])
    show "buf_ok (memdisk s) ?u" using okk lk sv by (auto simp: buf_ok_def saved_def bno_def)
    fix j assume "j < NBUF" "j \<noteq> k" "b_dev (bufs s ! j) = b_dev ?u" "b_blockno (bufs s ! j) = b_blockno ?u"
    then show "b_dev ?u = 0" using one_copyD [OF one, of j k] kn hd(3) by auto
  qed
  define s' where "s' = put_buf k ?u s\<lparr>procs := procs (wakeup (LockChan (BufLock k)) s), lru := k # remove1 k (lru s)\<rparr>"
  have eq: "brelse me k s = Ret s'"
    using lk hd(7) [OF k] kn hd(3) r1
    by (simp add: brelse_def releasesleep_def holdingsleep_def upd_buf_put s'_def put_buf_def wakeup_def wakeup1_def)
  have bk: "blk s' = blk (put_buf k ?u s)" by (simp add: fun_eq_iff blk_def s'_def put_buf_def split: option.split)
  have "distinct (k # remove1 k (lru s))" "set (k # remove1 k (lru s)) = {..<NBUF}"
    using hd(1) kn by (auto simp: cache_ok_def)
  then have ok': "cache_ok s'" using ok by (simp add: cache_ok_def s'_def put_buf_def)
  show thesis
  proof (rule that [OF eq])
    show "holds me (H - {k}) s'"
      unfolding holds_def using ok' hd kn mypid_wakeup [OF hd(8)]
      by (auto simp: nth_list_update s'_def put_buf_def mypid_def wakeup_def wakeup1_def)
    show "blk s' = blk s" unfolding bk
      using blk_put [OF hd(1) ok kn] blk_cached [OF hd(1) kn v] v by (auto simp: fun_eq_iff)
    show "pblocks s' = pblocks s"
      by (rule pblocks_eq) (use kn hd(3) in \<open>auto simp: pinned_def bno_def fun_eq_iff s'_def put_buf_def nth_list_update\<close>)
    show "bio_frame s s'"
      by (rule bio_frameI [where ps = "procs (wakeup (LockChan (BufLock k)) s)" and bs = "bufs s'" and l = "lru s'"])
        (simp_all add: s'_def put_buf_def)
    show "bno s' = bno s" using kn hd(3) by (auto simp: fun_eq_iff bno_def nth_list_update s'_def put_buf_def)
    show "\<And>j. j \<noteq> k \<Longrightarrow> bufs s' ! j = bufs s ! j" by (simp add: s'_def put_buf_def)
  qed
qed

text \<open>Setting \<open>B_DIRTY\<close> on a held buffer pins it and changes no contents.\<close>

lemma pin_holds:
  assumes h: "holds me H s" and k: "k \<in> H"
  defines "t \<equiv> upd_buf k (\<lambda>b. b\<lparr>b_dirty := True\<rparr>) s"
  shows "holds me H t" "blk t = blk s" "pblocks t = insert (bno s k) (pblocks s)" "bio_frame s t" "bno t = bno s"
    "saved t k" "bdata k t = bdata k s" "\<And>j. j \<noteq> k \<Longrightarrow> bufs t ! j = bufs s ! j"
proof -
  note hd = holdsD [OF h]
  let ?u = "(bufs s ! k)\<lparr>b_dirty := True\<rparr>"
  have kn: "k < NBUF" using hd(2) k by auto
  have eq: "t = put_buf k ?u s" by (simp add: t_def upd_buf_put)
  have okk: "buf_ok (memdisk s) (bufs s ! k)" and lk: "locked (b_lock (bufs s ! k))" and v: "b_valid (bufs s ! k)"
    using cache_ok_nth [OF hd(1) kn] hd(5) [OF kn] hd(6) k by auto
  have one: "one_copy (bufs s)" using hd(1) by (simp add: cache_ok_def)
  have ok: "cache_ok (put_buf k ?u s)"
  proof (rule cache_ok_put [OF hd(1) kn])
    show "buf_ok (memdisk s) ?u" using okk lk v by (simp add: buf_ok_def)
    fix j assume "j < NBUF" "j \<noteq> k" "b_dev (bufs s ! j) = b_dev ?u" "b_blockno (bufs s ! j) = b_blockno ?u"
    then show "b_dev ?u = 0" using one_copyD [OF one, of j k] kn hd(3) by auto
  qed
  show "holds me H t" unfolding eq holds_def using ok hd kn by (auto simp: nth_list_update)
  show "blk t = blk s"
    unfolding eq using blk_put [OF hd(1) ok kn] blk_cached [OF hd(1) kn v] v by (auto simp: fun_eq_iff)
  have pin: "pinned t = insert k (pinned s)" unfolding eq using pinned_put [OF hd(3) kn] by simp
  show bnt: "bno t = bno s" unfolding eq using kn hd(3) by (auto simp: fun_eq_iff bno_def nth_list_update)
  show "pblocks t = insert (bno s k) (pblocks s)" using pin bnt by (simp add: pblocks_def)
  show "bio_frame s t" "saved t k" "bdata k t = bdata k s" "\<And>j. j \<noteq> k \<Longrightarrow> bufs t ! j = bufs s ! j"
    unfolding eq using kn hd(3) by (simp_all add: saved_def bdata_def)
qed

lemma buf_ok_disk_update:
  "buf_ok disk b \<Longrightarrow> (b_dev b = 1 \<Longrightarrow> b_blockno b \<noteq> n) \<Longrightarrow> buf_ok (disk[unat n := d]) b"
  by (auto simp: buf_ok_def nth_list_update word_unat_eq_iff)

lemma bwrite_holds:
  assumes h: "holds me H s" and k: "k \<in> H"
  obtains s' where "bwrite me k s = Ret s'" "holds me H s'" "blk s' = blk s" "pblocks s' = pblocks s - {bno s k}"
    "bno s' = bno s" "saved s' k" "bdata k s' = bdata k s" "\<And>j. j \<noteq> k \<Longrightarrow> bufs s' ! j = bufs s ! j"
    "memdisk s' = (memdisk s)[unat (bno s k) := bdata k s]"
    "disk_writes s' = disk_writes s @ [(unat (bno s k), bdata k s)]"
    "bio.more s' = bio.more s" "procs s' = procs s"
proof -
  note hd = holdsD [OF h]
  have kn: "k < NBUF" using hd(2) k by auto
  let ?c = "bufs s ! k" and ?n = "bno s k" and ?d = "bdata k s"
  let ?u = "?c\<lparr>b_dirty := False, b_valid := True\<rparr>" and ?disk = "(memdisk s)[unat (bno s k) := bdata k s]"
  have okk: "buf_ok (memdisk s) ?c" and lk: "locked (b_lock ?c)" and v: "b_valid ?c"
    using cache_ok_nth [OF hd(1) kn] hd(5) [OF kn] hd(6) k by auto
  have dev: "b_dev ?c = 1" and rng: "unat ?n < length (memdisk s)" and ln: "length ?d = BSIZE"
    using okk v by (auto simp: buf_ok_def bno_def bdata_def)
  have one: "one_copy (bufs s)" using hd(1) by (simp add: cache_ok_def)
  define s' where "s' = put_buf k ?u s\<lparr>memdisk := ?disk, disk_writes := disk_writes s @ [(unat ?n, ?d)]\<rparr>"
  have eq: "bwrite me k s = Ret s'"
    using lk hd(7) [OF k] kn hd(3) dev rng
    by (simp add: bwrite_def holdingsleep_def iderw_def upd_buf_put s'_def put_buf_def mypid_def bno_def bdata_def)
  have others: "buf_ok ?disk (bufs s ! j)" "b_dev (bufs s ! j) = 1 \<Longrightarrow> b_blockno (bufs s ! j) \<noteq> ?n"
    if "j < NBUF" "j \<noteq> k" for j
    using one_copyD [OF one, of j k] that dev kn hd(3) buf_ok_disk_update [OF cache_ok_nth [OF hd(1) that(1)]]
    by (auto simp: bno_def)
  have "buf_ok ?disk ?u" using okk v lk by (simp add: buf_ok_def)
  then have "buf_ok ?disk (bufs s' ! j)" if "j < NBUF" for j
    using that others(1) [of j] kn hd(3) by (cases "j = k") (simp_all add: s'_def put_buf_def)
  then have "\<forall>b \<in> set (bufs s'). buf_ok ?disk b"
    using hd(3) by (auto simp: in_set_conv_nth s'_def put_buf_def)
  moreover have "one_copy (bufs s')"
  proof -
    have "one_copy ((bufs s)[k := ?u])"
      using kn hd(3) others(2) dev by (intro one_copy_update [OF one]) (auto simp: bno_def)
    then show ?thesis by (simp add: s'_def put_buf_def)
  qed
  moreover have "\<forall>d \<in> set ?disk. length d = BSIZE"
    using hd(1) ln set_update_subset_insert [of "memdisk s" "unat ?n" ?d] by (auto simp: cache_ok_def)
  ultimately have ok': "cache_ok s'" using hd(1) by (simp add: cache_ok_def s'_def put_buf_def)
  show thesis
  proof (rule that [OF eq])
    show "holds me H s'"
      unfolding holds_def using ok' hd kn by (auto simp: nth_list_update s'_def put_buf_def mypid_def)
    show "blk s' = blk s"
    proof
      fix x
      show "blk s' x = blk s x"
      proof (rule blk_eqI [OF hd(1) ok'])
        fix j assume j: "j < NBUF" "b_valid (bufs s ! j)" "b_blockno (bufs s ! j) = x"
        then have "b_valid (bufs s' ! j)" "b_blockno (bufs s' ! j) = x" "b_data (bufs s' ! j) = b_data (bufs s ! j)"
          using kn hd(3) by (auto simp: s'_def put_buf_def nth_list_update)
        then show "blk s' x = b_data (bufs s ! j)" using blk_cached [OF ok' j(1)] by simp
      next
        assume none: "\<forall>j < NBUF. b_valid (bufs s ! j) \<longrightarrow> b_blockno (bufs s ! j) \<noteq> x"
        then have "x \<noteq> ?n" using kn v by (auto simp: bno_def)
        moreover have "b_blockno (bufs s' ! j) \<noteq> x" if "j < length (bufs s')" "b_valid (bufs s' ! j)" for j
          using that none kn hd(3) v by (cases "j = k") (auto simp: s'_def put_buf_def)
        ultimately show "blk s' x = memdisk s ! unat x"
          using blk_uncached [of s' x] by (simp add: s'_def put_buf_def word_unat_eq_iff)
      qed
    qed
    have "pinned s' = pinned s - {k}" "bno s' = bno s"
      using kn hd(3) by (auto simp: pinned_def s'_def put_buf_def nth_list_update bno_def fun_eq_iff)
    moreover have "bno s j \<noteq> bno s k" if "j \<in> pinned s" "j \<noteq> k" for j
      using that others(2) [of j] cache_ok_nth [OF hd(1), of j] by (auto simp: pinned_def bno_def buf_ok_def)
    ultimately show "pblocks s' = pblocks s - {bno s k}" by (auto simp: pblocks_def)
  qed (use kn hd(3) in \<open>auto simp: pinned_def s'_def put_buf_def nth_list_update fun_eq_iff bno_def saved_def bdata_def rng [unfolded bno_def]\<close>)
qed

section \<open>What clients of the cache rely on\<close>

text \<open>
  The contract of the cache with the log and the file system: reading a block gives a locked
  buffer with the block's current contents, releasing a buffer whose contents are saved changes
  no contents, and neither touches the buffers already held.
\<close>

locale buffer_cache =
  fixes held :: "nat set \<Rightarrow> 's \<Rightarrow> bool" and contents :: "'s \<Rightarrow> u32 \<Rightarrow> bytes" and blocks :: "'s \<Rightarrow> nat"
    and pins :: "'s \<Rightarrow> u32 set" and cap :: nat and frame :: "'s \<Rightarrow> 's \<Rightarrow> bool"
    and peek :: "nat \<Rightarrow> 's \<Rightarrow> 'b" and get :: "nat \<Rightarrow> 's \<Rightarrow> bytes" and blockof :: "'s \<Rightarrow> nat \<Rightarrow> u32"
    and clean :: "'s \<Rightarrow> nat \<Rightarrow> bool"
    and rd :: "u32 \<Rightarrow> 's \<Rightarrow> (nat \<times> 's) outcome" and rel :: "nat \<Rightarrow> 's \<Rightarrow> 's outcome"
  assumes frame_refl: "frame s s" and frame_trans: "frame s t \<Longrightarrow> frame t u \<Longrightarrow> frame s u"
    and rd_ok: "held H s \<Longrightarrow> unat b < blocks s \<Longrightarrow> b \<notin> blockof s ` H \<Longrightarrow> card H + card (pins s) < cap \<or> b \<in> pins s \<Longrightarrow>
      \<exists>k s'. rd b s = Ret (k, s') \<and> k \<notin> H \<and> held (insert k H) s' \<and> contents s' = contents s \<and>
        pins s' = pins s \<and> frame s s' \<and> blockof s' k = b \<and> get k s' = contents s b \<and> clean s' k \<and>
        (\<forall>j \<in> H. peek j s' = peek j s)"
    and rel_ok: "held H s \<Longrightarrow> k \<in> H \<Longrightarrow> clean s k \<Longrightarrow>
      \<exists>s'. rel k s = Ret s' \<and> held (H - {k}) s' \<and> contents s' = contents s \<and> pins s' = pins s \<and>
        frame s s' \<and> (\<forall>j \<in> H - {k}. peek j s' = peek j s)"
begin

lemma read_block:
  assumes "held H s" "unat b < blocks s" "b \<notin> blockof s ` H" "card H + card (pins s) < cap \<or> b \<in> pins s"
  obtains k s1 s2 where "rd b s = Ret (k, s1)" "get k s1 = contents s b" "rel k s1 = Ret s2" "held H s2"
    "contents s2 = contents s" "pins s2 = pins s" "frame s s1" "frame s s2" "\<And>j. j \<in> H \<Longrightarrow> peek j s2 = peek j s"
proof -
  from rd_ok [OF assms] obtain k s1 where r: "rd b s = Ret (k, s1)" "k \<notin> H" "held (insert k H) s1"
    "contents s1 = contents s" "pins s1 = pins s" "frame s s1" "get k s1 = contents s b" "clean s1 k"
    "\<forall>j \<in> H. peek j s1 = peek j s" by blast
  from rel_ok [OF r(3) _ r(8)] obtain s2 where l: "rel k s1 = Ret s2" "held (insert k H - {k}) s2"
    "contents s2 = contents s1" "pins s2 = pins s1" "frame s1 s2" "\<forall>j \<in> insert k H - {k}. peek j s2 = peek j s1"
    by blast
  have "insert k H - {k} = H" using r(2) by blast
  then show thesis using that [OF r(1,7) l(1)] l r frame_trans by metis
qed

end

interpretation cache: buffer_cache "holds me" blk "\<lambda>s. length (memdisk s)" pblocks NBUF bio_frame
  "\<lambda>k s. bufs s ! k" bdata bno saved "bread me 1" "brelse me"
proof unfold_locales
  fix H and s :: "'a bio_scheme" and b
  assume a: "holds me H s" "unat b < length (memdisk s)" "b \<notin> bno s ` H" "card H + card (pblocks s) < NBUF \<or> b \<in> pblocks s"
  from bread_holds [OF this] obtain k u where r: "bread me 1 b s = Ret (k, put_buf k u s)" and g: "got me b s k u"
    by blast
  note gh = got_holds [OF a(1) g a(2)] got_pblocks [OF a(1) g]
  have "k < NBUF" "length (bufs s) = NBUF" "b_blockno u = b" "b_data u = blk s b"
    using g holdsD(3) [OF a(1)] by (auto simp: got_def)
  then have "bno (put_buf k u s) k = b" "bdata k (put_buf k u s) = blk s b"
    by (simp_all add: bno_def bdata_def)
  moreover have "\<forall>j \<in> H. bufs (put_buf k u s) ! j = bufs s ! j"
    using gh(1) by (metis nth_list_update_neq put_buf_simps(4))
  ultimately show "\<exists>k s'. bread me 1 b s = Ret (k, s') \<and> k \<notin> H \<and> holds me (insert k H) s' \<and> blk s' = blk s \<and>
      pblocks s' = pblocks s \<and> bio_frame s s' \<and> bno s' k = b \<and> bdata k s' = blk s b \<and> saved s' k \<and>
      (\<forall>j \<in> H. bufs s' ! j = bufs s ! j)"
    using r gh by (intro exI [of _ k] exI [of _ "put_buf k u s"]) simp
next
  fix H and s :: "'a bio_scheme" and k
  assume "holds me H s" "k \<in> H" "saved s k"
  from brelse_holds [OF this] show "\<exists>s'. brelse me k s = Ret s' \<and> holds me (H - {k}) s' \<and> blk s' = blk s \<and>
      pblocks s' = pblocks s \<and> bio_frame s s' \<and> (\<forall>j \<in> H - {k}. bufs s' ! j = bufs s ! j)"
    by (metis DiffD2 singletonI)
qed (auto intro: bio_frame_trans)

text \<open>A block that is neither held nor pinned has its contents on the disk.\<close>

lemma blk_on_disk:
  assumes h: "holds me {} s" and b: "b \<notin> pblocks s"
  shows "blk s b = memdisk s ! unat b"
proof (cases "\<exists>k < NBUF. b_valid (bufs s ! k) \<and> b_blockno (bufs s ! k) = b")
  case True
  then obtain k where k: "k < NBUF" "b_valid (bufs s ! k)" "b_blockno (bufs s ! k) = b" by blast
  have "\<not> b_dirty (bufs s ! k)" using b k by (auto simp: pblocks_def pinned_def bno_def)
  then show ?thesis
    using k blk_cached [OF holdsD(1) [OF h] k(1,2)] cache_ok_nth [OF holdsD(1) [OF h] k(1)] holdsD(5) [OF h k(1)]
    by (simp add: buf_ok_def)
next
  case False
  then show ?thesis using holdsD(3) [OF h] by (intro blk_uncached) auto
qed

text \<open>Two blocks read at the same time, one copied over the other and written through: the step of
  both loops of the log.\<close>

lemma two_reads:
  assumes h: "holds me {} s" and r: "unat x < length (memdisk s)" "unat y < length (memdisk s)" "x \<noteq> y"
    and room: "card (pblocks s) < NBUF \<or> x \<in> pblocks s" "1 + card (pblocks s) < NBUF \<or> y \<in> pblocks s"
  obtains k1 s1 k2 s2 where "bread me 1 x s = Ret (k1, s1)" "bread me 1 y s1 = Ret (k2, s2)"
    "holds me {k1, k2} s2" "k1 \<noteq> k2" "bdata k1 s2 = blk s x" "bdata k2 s2 = blk s y" "bno s2 k1 = x" "bno s2 k2 = y"
    "saved s2 k1" "saved s2 k2" "blk s2 = blk s" "pblocks s2 = pblocks s" "bio_frame s s1" "bio_frame s s2"
proof -
  from cache.rd_ok [OF h r(1)] room(1) obtain k1 s1 where
    a: "bread me 1 x s = Ret (k1, s1)" "holds me {k1} s1" "blk s1 = blk s" "pblocks s1 = pblocks s" "bio_frame s s1"
      "bno s1 k1 = x" "bdata k1 s1 = blk s x" "saved s1 k1" by auto
  note d1 = bio_frame_simps(1) [OF a(5)]
  from cache.rd_ok [OF a(2), of y] r d1 a(4,6) room(2) obtain k2 s2 where
    b: "bread me 1 y s1 = Ret (k2, s2)" "k2 \<noteq> k1" "holds me {k2, k1} s2" "blk s2 = blk s1" "pblocks s2 = pblocks s1"
      "bio_frame s1 s2" "bno s2 k2 = y" "bdata k2 s2 = blk s1 y" "saved s2 k2" "bufs s2 ! k1 = bufs s1 ! k1" by auto
  have "bdata k1 s2 = blk s x" "bno s2 k1 = x" "saved s2 k1"
    using a b(10) bio_frame_simps(1) [OF b(6)] by (simp_all add: bdata_def bno_def saved_def)
  then show thesis
    using that [OF a(1) b(1)] a b bio_frame_trans [OF a(5) b(6)] by (simp add: insert_commute)
qed

lemma copy_back:
  assumes h: "holds me {d, c} s" and dc: "d \<noteq> c" and sv: "saved s c" and rel: "{p, q} = {d, c}"
  obtains s1 s2 s3 where "bwrite me d (set_bdata d (bdata c s) s) = Ret s1" "brelse me p s1 = Ret s2" "brelse me q s2 = Ret s3"
    "holds me {} s3" "blk s3 = (blk s)(bno s d := bdata c s)" "pblocks s3 = pblocks s - {bno s d}"
    "memdisk s3 = (memdisk s)[unat (bno s d) := bdata c s]"
    "disk_writes s3 = disk_writes s @ [(unat (bno s d), bdata c s)]" "bio.more s3 = bio.more s"
    "bio.more s1 = bio.more s" "bio.more s2 = bio.more s" "length (procs s3) = length (procs s)"
proof -
  have lc: "length (bdata c s) = BSIZE"
    using holdsD(1,2) [OF h] cache_ok_nth [of s c] by (simp add: bdata_def buf_ok_def)
  note w = set_bdata_holds [OF h insertI1 lc]
  note wf = bio_frame_simps [OF w(4)]
  have cn: "bdata c (set_bdata d (bdata c s) s) = bdata c s" using w(7) [of c] dc by (simp add: bdata_def)
  obtain s1 where b: "bwrite me d (set_bdata d (bdata c s) s) = Ret s1" "holds me {d, c} s1"
    "blk s1 = blk (set_bdata d (bdata c s) s)" "pblocks s1 = pblocks (set_bdata d (bdata c s) s) - {bno s d}"
    "bno s1 = bno s" "saved s1 d" "\<And>j. j \<noteq> d \<Longrightarrow> bufs s1 ! j = bufs s ! j"
    "memdisk s1 = (memdisk s)[unat (bno s d) := bdata c s]"
    "disk_writes s1 = disk_writes s @ [(unat (bno s d), bdata c s)]" "bio.more s1 = bio.more s" "procs s1 = procs (set_bdata d (bdata c s) s)"
    by (rule bwrite_holds [OF w(1) insertI1]) (use w wf in auto)
  have "bno s c \<noteq> bno s d"
  proof
    assume eq: "bno s c = bno s d"
    have "c < NBUF" "d < NBUF" using holdsD(2) [OF h] by auto
    then have "c = d"
      using eq holdsD(1,3) [OF h] holdsD(6) [OF h, of c] holdsD(6) [OF h, of d] one_copyD [of "bufs s" c d]
        cache_ok_nth [of s c] cache_ok_nth [of s d]
      by (auto simp: bno_def buf_ok_def cache_ok_def)
    then show False using dc by simp
  qed
  then have svc: "saved s1 c"
    using sv b(5,7,8) dc by (auto simp: saved_def nth_list_update word_unat_eq_iff)
  have sp: "saved s1 p" "p \<in> {d, c}" "q \<in> {d, c}" "p \<noteq> q" using rel dc svc b(6) by auto
  obtain s2 where l: "brelse me p s1 = Ret s2" "holds me ({d, c} - {p}) s2" "blk s2 = blk s1" "pblocks s2 = pblocks s1"
    "bio_frame s1 s2" "bno s2 = bno s1" "bufs s2 ! q = bufs s1 ! q"
    by (rule brelse_holds [OF b(2) sp(2,1)]) (use sp in auto)
  have "saved s2 q" using sp rel svc b(6) l(6,7) bio_frame_simps(1) [OF l(5)] by (auto simp: saved_def)
  moreover have "q \<in> {d, c} - {p}" "({d, c} - {p}) - {q} = {}" using sp rel by auto
  ultimately obtain s3 where m: "brelse me q s2 = Ret s3" "holds me {} s3" "blk s3 = blk s2" "pblocks s3 = pblocks s2"
    "bio_frame s2 s3" using brelse_holds [OF l(2), of q] by metis
  show thesis
    using that [OF b(1) l(1) m(1,2)] m b w wf l bio_frame_simps [OF m(5)] bio_frame_simps [OF l(5)] by simp
qed

section \<open>Properties\<close>

text \<open>C10: The cache is transparent: on a cache that satisfies its invariant, with no buffer locked and
  at least one that is not pinned by the log, \<open>bread\<close> of a block of the disk returns a buffer
  locked by the caller with the current contents of the block, keeps the invariant (at most one
  buffer for each block among the rest), and changes the contents of no block.\<close>

theorem bread_contents:
  assumes "holds me {} s" and "unat b < length (memdisk s)" and "card (pblocks s) < NBUF"
  shows "\<exists>k s'. bread me 1 b s = Ret (k, s') \<and> bno s' k = b \<and> bdata k s' = blk s b \<and>
    holdingsleep (mypid me s') (b_lock (bufs s' ! k)) \<and> cache_ok s' \<and> (\<forall>x. blk s' x = blk s x)"
proof -
  from cache.rd_ok [OF assms(1,2)] assms(3) obtain k s' where
    r: "bread me 1 b s = Ret (k, s')" "holds me (insert k {}) s'" "blk s' = blk s" "bno s' k = b" "bdata k s' = blk s b"
    by auto
  have "k < NBUF" using holdsD(2) [OF r(2)] by simp
  then have "holdingsleep (mypid me s') (b_lock (bufs s' ! k))"
    using holdsD(5) [OF r(2), of k] holdsD(7) [OF r(2), of k] by (simp add: holdingsleep_def)
  then show ?thesis using r holdsD(1) [OF r(2)] by (intro exI [of _ k] exI [of _ s']) simp
qed

text \<open>A machine after \<open>binit\<close>, with one process and a disk of two blocks.\<close>

definition boot_bio :: bio where
  "boot_bio =
     binit \<lparr>mem = \<lambda>_. 0, freelist = 0, use_lock = True, kend = 0, kdata = 0,
        procs = [zero_proc\<lparr>p_state := RUNNING, p_pid := 1\<rparr>], nextpid = 2, initproc = Some 0, ticks = 0,
        cpu_proc = (\<lambda>_. None)(0 := Some 0), memdisk = [replicate BSIZE 7, replicate BSIZE 9],
        disk_writes = [], bufs = replicate NBUF zero_buf, lru = []\<rparr>"

lemma binit_holds:
  assumes "bufs s = replicate NBUF zero_buf" "\<forall>d \<in> set (memdisk s). length d = BSIZE" "me < length (procs s)"
  shows "holds me {} (binit s)" "pinned (binit s) = {}"
  using assms
  by (auto simp: holds_def cache_ok_def binit_def one_copy_def buf_ok_def zero_buf_def initsleeplock_def pinned_def)

lemma boot_bio_holds: "holds 0 {} boot_bio" "pinned boot_bio = {}" "length (memdisk boot_bio) = 2"
  unfolding boot_bio_def by (simp add: binit_holds, simp add: binit_holds, simp add: binit_def)

theorem bread_contents_witness:
  "\<exists>k s'. bread 0 1 1 boot_bio = Ret (k, s') \<and> bno s' k = 1 \<and> bdata k s' = blk boot_bio 1 \<and>
     holdingsleep (mypid 0 s') (b_lock (bufs s' ! k)) \<and> cache_ok s' \<and> (\<forall>x. blk s' x = blk boot_bio x)"
  by (rule bread_contents) (simp_all add: boot_bio_holds pblocks_def NBUF_def)

text \<open>C11: A write through the cache is durable.  On a cache that satisfies its invariant, with no buffer locked and at
  least one that is not pinned by the log, for a block of the disk and new data of the size of a block: reading the
  block, storing the data in the buffer, \<open>bwrite\<close> and \<open>brelse\<close> return normally, put the data on the disk with a single
  disk write, leave the current contents of every other block as they were, and give back a cache that satisfies
  its invariant with no buffer locked.\<close>

theorem bwrite_durable:
  assumes "holds me {} s" and "unat b < length (memdisk s)" and "card (pblocks s) < NBUF"
    and "length d = BSIZE"
  shows "\<exists>s'. bnd (bread me 1 b s) (\<lambda>(k, s). bnd (bwrite me k (set_bdata k d s)) (brelse me k)) = Ret s' \<and>
    holds me {} s' \<and> memdisk s' = (memdisk s)[unat b := d] \<and> disk_writes s' = disk_writes s @ [(unat b, d)] \<and>
    (\<forall>x. blk s' x = (if x = b then d else blk s x))"
proof -
  from cache.rd_ok [OF assms(1,2)] assms(3) obtain k s1 where
    r: "bread me 1 b s = Ret (k, s1)" "holds me {k} s1" "blk s1 = blk s" "bno s1 k = b" "bio_frame s s1"
    by auto
  note w = set_bdata_holds [OF r(2) singletonI assms(4)]
  obtain s3 where b: "bwrite me k (set_bdata k d s1) = Ret s3" "holds me {k} s3" "blk s3 = blk (set_bdata k d s1)"
    "saved s3 k" "memdisk s3 = (memdisk (set_bdata k d s1))[unat (bno (set_bdata k d s1) k) := bdata k (set_bdata k d s1)]"
    "disk_writes s3 = disk_writes (set_bdata k d s1) @ [(unat (bno (set_bdata k d s1) k), bdata k (set_bdata k d s1))]"
    by (rule bwrite_holds [OF w(1) singletonI]) blast
  obtain s4 where l: "brelse me k s3 = Ret s4" "holds me ({k} - {k}) s4" "blk s4 = blk s3" "bio_frame s3 s4"
    by (rule brelse_holds [OF b(2) singletonI b(4)]) blast
  have "memdisk s4 = (memdisk s)[unat b := d]" "disk_writes s4 = disk_writes s @ [(unat b, d)]"
    using b(5,6) w(5,6) r(4) bio_frame_simps(1,2) [OF l(4)] bio_frame_simps(1,2) [OF w(4)] bio_frame_simps(1,2) [OF r(5)]
    by simp_all
  then show ?thesis using r b(1,3) l w by (intro exI [of _ s4]) simp
qed

theorem bwrite_durable_witness:
  "\<exists>s'. bnd (bread 0 1 1 boot_bio) (\<lambda>(k, s). bnd (bwrite 0 k (set_bdata k (replicate BSIZE 3) s)) (brelse 0 k)) = Ret s' \<and>
     holds 0 {} s' \<and> memdisk s' = (memdisk boot_bio)[unat (1 :: u32) := replicate BSIZE 3] \<and>
     disk_writes s' = disk_writes boot_bio @ [(unat (1 :: u32), replicate BSIZE 3)] \<and>
     (\<forall>x. blk s' x = (if x = 1 then replicate BSIZE 3 else blk boot_bio x))"
  by (rule bwrite_durable) (simp_all add: boot_bio_holds pblocks_def NBUF_def)

end
