(* ===== verification/Log.thy ===== *)
theory Log
  imports Bio
begin

text \<open>
  The write-ahead log (\<^verbatim>\<open>src/xv6/log.c\<close>).  The in-memory header \<open>struct logheader\<close> is the list
  \<open>log_lh\<close> of its first \<open>n\<close> entries.  A routine that has to wait on the log (\<open>sleep(&log, ...)\<close>)
  has the outcome \<open>Blocked\<close>.  The theorems say what a crash at any point of a commit leaves on the
  disk and what recovery makes of it, and what the reservations of \<open>begin_op\<close> guarantee.
\<close>

section \<open>Definitions\<close>

definition MAXOPBLOCKS :: int where "MAXOPBLOCKS = 10"
definition LOGSIZE :: int where "LOGSIZE = MAXOPBLOCKS * 3"

record superblock =
  sb_size :: u32
  sb_nblocks :: u32
  sb_ninodes :: u32
  sb_nlog :: u32
  sb_logstart :: u32
  sb_inodestart :: u32
  sb_bmapstart :: u32

definition decode_sb :: "bytes \<Rightarrow> superblock" where
  "decode_sb d =
     \<lparr>sb_size = get32 d 0, sb_nblocks = get32 d 4, sb_ninodes = get32 d 8, sb_nlog = get32 d 12,
      sb_logstart = get32 d 16, sb_inodestart = get32 d 20, sb_bmapstart = get32 d 24\<rparr>"

record logst = bio +
  log_start :: u32
  log_size :: int
  log_outstanding :: int
  log_committing :: bool
  log_dev :: u32
  log_lh :: "u32 list"

definition readsb :: "nat \<Rightarrow> u32 \<Rightarrow> 'a bio_scheme \<Rightarrow> (superblock \<times> 'a bio_scheme) outcome" where
  "readsb me dev s =
     bnd (bread me dev 1 s) (\<lambda>(bp, s).
       let sb = decode_sb (bdata bp s)
       in bnd (brelse me bp s) (\<lambda>s. Ret (sb, s)))"

fun install_trans_loop :: "nat \<Rightarrow> nat \<Rightarrow> u32 list \<Rightarrow> 'a logst_scheme \<Rightarrow> 'a logst_scheme outcome" where
  "install_trans_loop me tail [] s = Ret s"
| "install_trans_loop me tail (b # bs) s =
     bnd (bread me (log_dev s) (log_start s + of_nat tail + 1) s) (\<lambda>(lbuf, s).
     bnd (bread me (log_dev s) b s) (\<lambda>(dbuf, s).
     bnd (bwrite me dbuf (set_bdata dbuf (bdata lbuf s) s)) (\<lambda>s.
     bnd (brelse me lbuf s) (\<lambda>s.
     bnd (brelse me dbuf s) (\<lambda>s.
       install_trans_loop me (Suc tail) bs s)))))"

definition install_trans :: "nat \<Rightarrow> 'a logst_scheme \<Rightarrow> 'a logst_scheme outcome" where
  "install_trans me s = install_trans_loop me 0 (log_lh s) s"

definition header_list :: "bytes \<Rightarrow> u32 list" where
  "header_list d = map (\<lambda>i. get32 d (4 + 4 * i)) [0..<nat (sint (get32 d 0))]"

definition read_head :: "nat \<Rightarrow> 'a logst_scheme \<Rightarrow> 'a logst_scheme outcome" where
  "read_head me s =
     bnd (bread me (log_dev s) (log_start s) s) (\<lambda>(buf, s).
       brelse me buf (s\<lparr>log_lh := header_list (bdata buf s)\<rparr>))"

fun put_list :: "nat \<Rightarrow> u32 list \<Rightarrow> bytes \<Rightarrow> bytes" where
  "put_list off [] d = d"
| "put_list off (b # bs) d = put_list (off + 4) bs (put32 d off b)"

definition header_bytes :: "u32 list \<Rightarrow> bytes \<Rightarrow> bytes" where
  "header_bytes bs d = put_list 4 bs (put32 d 0 (of_nat (length bs)))"

definition write_head :: "nat \<Rightarrow> 'a logst_scheme \<Rightarrow> 'a logst_scheme outcome" where
  "write_head me s =
     bnd (bread me (log_dev s) (log_start s) s) (\<lambda>(buf, s).
     bnd (bwrite me buf (set_bdata buf (header_bytes (log_lh s) (bdata buf s)) s)) (\<lambda>s.
       brelse me buf s))"

definition recover_from_log :: "nat \<Rightarrow> 'a logst_scheme \<Rightarrow> 'a logst_scheme outcome" where
  "recover_from_log me s =
     bnd (read_head me s) (\<lambda>s.
     bnd (install_trans me s) (\<lambda>s.
       write_head me (s\<lparr>log_lh := []\<rparr>)))"

definition initlog :: "nat \<Rightarrow> u32 \<Rightarrow> 'a logst_scheme \<Rightarrow> 'a logst_scheme outcome" where
  "initlog me dev s =
     (if 4 + 4 * LOGSIZE \<ge> int BSIZE then Panic ''initlog: too big logheader''
      else
        bnd (readsb me dev s) (\<lambda>(sb, s).
          recover_from_log me (s\<lparr>log_start := sb_logstart sb, log_size := sint (sb_nlog sb), log_dev := dev\<rparr>)))"

text \<open>An operation is admitted only while \<open>(outstanding + 1) * MAXOPBLOCKS\<close> is at most \<open>LOGSIZE\<close>, so the count stays below
  \<open>LOGSIZE\<close> and is kept without wrap-around.\<close>

definition begin_op :: "'a logst_scheme \<Rightarrow> 'a logst_scheme outcome" where
  "begin_op s =
     (if log_committing s then Blocked
      else if int (length (log_lh s)) + (log_outstanding s + 1) * MAXOPBLOCKS > LOGSIZE then Blocked
      else Ret (s\<lparr>log_outstanding := log_outstanding s + 1\<rparr>))"

fun write_log_loop :: "nat \<Rightarrow> nat \<Rightarrow> u32 list \<Rightarrow> 'a logst_scheme \<Rightarrow> 'a logst_scheme outcome" where
  "write_log_loop me tail [] s = Ret s"
| "write_log_loop me tail (b # bs) s =
     bnd (bread me (log_dev s) (log_start s + of_nat tail + 1) s) (\<lambda>(to, s).
     bnd (bread me (log_dev s) b s) (\<lambda>(from, s).
     bnd (bwrite me to (set_bdata to (bdata from s) s)) (\<lambda>s.
     bnd (brelse me from s) (\<lambda>s.
     bnd (brelse me to s) (\<lambda>s.
       write_log_loop me (Suc tail) bs s)))))"

definition write_log :: "nat \<Rightarrow> 'a logst_scheme \<Rightarrow> 'a logst_scheme outcome" where
  "write_log me s = write_log_loop me 0 (log_lh s) s"

definition commit :: "nat \<Rightarrow> 'a logst_scheme \<Rightarrow> 'a logst_scheme outcome" where
  "commit me s =
     (if log_lh s \<noteq> [] then
        bnd (write_log me s) (\<lambda>s.
        bnd (write_head me s) (\<lambda>s.
        bnd (install_trans me s) (\<lambda>s.
          write_head me (s\<lparr>log_lh := []\<rparr>))))
      else Ret s)"

definition end_op :: "nat \<Rightarrow> 'a logst_scheme \<Rightarrow> 'a logst_scheme outcome" where
  "end_op me s =
     (let s = s\<lparr>log_outstanding := log_outstanding s - 1\<rparr>
      in if log_committing s then Panic ''log.committing''
         else if log_outstanding s = 0 then
           bnd (commit me (s\<lparr>log_committing := True\<rparr>)) (\<lambda>s.
             Ret (wakeup LogChan (s\<lparr>log_committing := False\<rparr>)))
         else Ret (wakeup LogChan s))"

definition log_write :: "nat \<Rightarrow> 'a logst_scheme \<Rightarrow> 'a logst_scheme outcome" where
  "log_write k s =
     (if int (length (log_lh s)) \<ge> LOGSIZE \<or> int (length (log_lh s)) \<ge> log_size s - 1 then
        Panic ''too big a transaction''
      else if log_outstanding s < 1 then Panic ''log_write outside of trans''
      else
        (let bn = b_blockno (bufs s ! k);
             lh = (case scan (\<lambda>x. x = bn) (log_lh s) of
                     Some i \<Rightarrow> (log_lh s)[i := bn]
                   | None \<Rightarrow> log_lh s @ [bn])
         in Ret (upd_buf k (\<lambda>b. b\<lparr>b_dirty := True\<rparr>) (s\<lparr>log_lh := lh\<rparr>))))"

section \<open>The header on disk\<close>

lemma length_put_list [simp]: "length (put_list off bs d) = length d"
  by (induction off bs d rule: put_list.induct) simp_all

lemma get32_put_list_before: "j + 4 \<le> off \<Longrightarrow> get32 (put_list off bs d) j = get32 d j"
  by (induction off bs d rule: put_list.induct) (simp_all add: get32_put32_other)

lemma get32_put_list:
  "i < length bs \<Longrightarrow> off + 4 * length bs \<le> length d \<Longrightarrow> get32 (put_list off bs d) (off + 4 * i) = bs ! i"
proof (induction off bs d arbitrary: i rule: put_list.induct)
  case (1 off d)
  then show ?case by simp
next
  case (2 off b bs d)
  show ?case
  proof (cases i)
    case 0
    then show ?thesis using 2 by (simp add: get32_put_list_before get32_put32_same)
  next
    case (Suc k)
    then show ?thesis using 2 by (simp add: algebra_simps)
  qed
qed

lemma length_header_bytes [simp]: "length (header_bytes bs d) = length d"
  by (simp add: header_bytes_def)

lemma sint_of_nat_small: "n < 2 ^ 31 \<Longrightarrow> sint (of_nat n :: u32) = int n"
  by (simp add: signed_of_nat signed_take_bit_int_eq_self)

lemma header_roundtrip:
  assumes "length d = BSIZE" "4 + 4 * length bs \<le> BSIZE"
  shows "header_list (header_bytes bs d) = bs"
proof -
  have "get32 (header_bytes bs d) 0 = of_nat (length bs)"
    using assms by (simp add: header_bytes_def get32_put_list_before get32_put32_same BSIZE_def)
  then have n: "nat (sint (get32 (header_bytes bs d) 0)) = length bs"
    using assms by (simp add: sint_of_nat_small BSIZE_def)
  have "get32 (header_bytes bs d) (4 + 4 * i) = bs ! i" if "i < length bs" for i
    using that assms by (simp add: header_bytes_def get32_put_list)
  then show ?thesis unfolding header_list_def n by (auto intro: nth_equalityI)
qed

section \<open>Copying to and from the log\<close>

text \<open>The disk after a sequence of block writes.\<close>

fun apply_writes :: "bytes list \<Rightarrow> (nat \<times> bytes) list \<Rightarrow> bytes list" where
  "apply_writes d [] = d"
| "apply_writes d ((b, x) # ws) = apply_writes (d[b := x]) ws"

lemma apply_writes_append: "apply_writes d (ws @ vs) = apply_writes (apply_writes d ws) vs"
  by (induction d ws rule: apply_writes.induct) simp_all

lemma length_apply_writes [simp]: "length (apply_writes d ws) = length d"
  by (induction d ws rule: apply_writes.induct) simp_all

lemma apply_writes_other: "b \<notin> fst ` set ws \<Longrightarrow> apply_writes d ws ! b = d ! b"
  by (induction d ws rule: apply_writes.induct) auto

definition logpos :: "u32 \<Rightarrow> nat \<Rightarrow> u32" where
  "logpos st t = st + of_nat t + 1"

lemma log_more:
  assumes "bio.more s' = bio.more (s :: 'a logst_scheme)"
  shows "log_start s' = log_start s" "log_size s' = log_size s" "log_outstanding s' = log_outstanding s"
    "log_committing s' = log_committing s" "log_dev s' = log_dev s" "log_lh s' = log_lh s"
    "logst.more s' = logst.more s"
  using assms by (cases s; cases s'; simp)+

lemma write_log_step:
  assumes h: "holds me {} s" and dev: "log_dev s = 1" and l: "l = logpos (log_start s) t"
    and r: "unat l < length (memdisk s)" "unat b < length (memdisk s)" "l \<noteq> b"
    and p: "card (pblocks s) < NBUF" "b \<in> pblocks s" "l \<notin> pblocks s"
  obtains s' where "write_log_loop me t (b # bs) s = write_log_loop me (Suc t) bs s'"
    "holds me {} s'" "blk s' = (blk s)(l := blk s b)" "pblocks s' = pblocks s"
    "memdisk s' = (memdisk s)[unat l := blk s b]" "disk_writes s' = disk_writes s @ [(unat l, blk s b)]"
    "bio.more s' = bio.more s"
proof -
  obtain k1 s1 k2 s2 where a: "bread me 1 l s = Ret (k1, s1)" "bread me 1 b s1 = Ret (k2, s2)"
    "holds me {k1, k2} s2" "k1 \<noteq> k2" "bdata k1 s2 = blk s l" "bdata k2 s2 = blk s b" "bno s2 k1 = l" "bno s2 k2 = b"
    "saved s2 k1" "saved s2 k2" "blk s2 = blk s" "pblocks s2 = pblocks s" "bio_frame s s1" "bio_frame s s2"
    by (rule two_reads [OF h r]) (use p in auto)
  obtain s3 s4 s5 where c: "bwrite me k1 (set_bdata k1 (bdata k2 s2) s2) = Ret s3" "brelse me k2 s3 = Ret s4"
    "brelse me k1 s4 = Ret s5" "holds me {} s5" "blk s5 = (blk s2)(bno s2 k1 := bdata k2 s2)"
    "pblocks s5 = pblocks s2 - {bno s2 k1}" "memdisk s5 = (memdisk s2)[unat (bno s2 k1) := bdata k2 s2]"
    "disk_writes s5 = disk_writes s2 @ [(unat (bno s2 k1), bdata k2 s2)]" "bio.more s5 = bio.more s2"
    by (rule copy_back [OF a(3,4,10), of k2 k1]) auto
  note f1 = bio_frame_simps [OF a(13)] and f2 = bio_frame_simps [OF a(14)]
  have "log_dev s1 = 1" using log_more(5) [of s1 s] f1(3) dev by simp
  then have "write_log_loop me t (b # bs) s = write_log_loop me (Suc t) bs s5"
    using a(1,2) c(1-3) dev by (simp add: l logpos_def add.commute)
  then show thesis using that a c p(3) f2 by simp
qed

lemma install_step:
  assumes h: "holds me {} s" and dev: "log_dev s = 1" and l: "l = logpos (log_start s) t"
    and r: "unat l < length (memdisk s)" "unat b < length (memdisk s)" "l \<noteq> b"
    and p: "card (pblocks s) < NBUF" "1 + card (pblocks s) < NBUF \<or> b \<in> pblocks s"
  obtains s' where "install_trans_loop me t (b # bs) s = install_trans_loop me (Suc t) bs s'"
    "holds me {} s'" "blk s' = (blk s)(b := blk s l)" "pblocks s' = pblocks s - {b}"
    "memdisk s' = (memdisk s)[unat b := blk s l]" "disk_writes s' = disk_writes s @ [(unat b, blk s l)]"
    "bio.more s' = bio.more s"
proof -
  obtain k1 s1 k2 s2 where a: "bread me 1 l s = Ret (k1, s1)" "bread me 1 b s1 = Ret (k2, s2)"
    "holds me {k1, k2} s2" "k1 \<noteq> k2" "bdata k1 s2 = blk s l" "bdata k2 s2 = blk s b" "bno s2 k1 = l" "bno s2 k2 = b"
    "saved s2 k1" "saved s2 k2" "blk s2 = blk s" "pblocks s2 = pblocks s" "bio_frame s s1" "bio_frame s s2"
    by (rule two_reads [OF h r]) (use p in auto)
  have h': "holds me {k2, k1} s2" using a(3) by (simp add: insert_commute)
  obtain s3 s4 s5 where c: "bwrite me k2 (set_bdata k2 (bdata k1 s2) s2) = Ret s3" "brelse me k1 s3 = Ret s4"
    "brelse me k2 s4 = Ret s5" "holds me {} s5" "blk s5 = (blk s2)(bno s2 k2 := bdata k1 s2)"
    "pblocks s5 = pblocks s2 - {bno s2 k2}" "memdisk s5 = (memdisk s2)[unat (bno s2 k2) := bdata k1 s2]"
    "disk_writes s5 = disk_writes s2 @ [(unat (bno s2 k2), bdata k1 s2)]" "bio.more s5 = bio.more s2"
    by (rule copy_back [OF h' a(4) [symmetric] a(9), of k1 k2]) auto
  note f1 = bio_frame_simps [OF a(13)] and f2 = bio_frame_simps [OF a(14)]
  have "log_dev s1 = 1" using log_more(5) [of s1 s] f1(3) dev by simp
  then have "install_trans_loop me t (b # bs) s = install_trans_loop me (Suc t) bs s5"
    using a(1,2) c(1-3) dev by (simp add: l logpos_def add.commute)
  then show thesis using that a c f2 by simp
qed

text \<open>The disk writes of the two loops for the entries \<open>bs\<close> from position \<open>t\<close> on, with \<open>f\<close> the
  contents of the blocks.\<close>

fun log_writes :: "u32 \<Rightarrow> nat \<Rightarrow> u32 list \<Rightarrow> (u32 \<Rightarrow> bytes) \<Rightarrow> (nat \<times> bytes) list" where
  "log_writes st t [] f = []"
| "log_writes st t (b # bs) f = (unat (logpos st t), f b) # log_writes st (Suc t) bs f"

fun install_writes :: "u32 \<Rightarrow> nat \<Rightarrow> u32 list \<Rightarrow> (u32 \<Rightarrow> bytes) \<Rightarrow> (nat \<times> bytes) list" where
  "install_writes st t [] f = []"
| "install_writes st t (b # bs) f = (unat b, f (logpos st t)) # install_writes st (Suc t) bs f"

lemma log_writes_cong: "(\<And>b. b \<in> set bs \<Longrightarrow> f b = g b) \<Longrightarrow> log_writes st t bs f = log_writes st t bs g"
  by (induction bs arbitrary: t) auto

lemma install_writes_cong:
  "(\<And>i. i \<in> {t..<t + length bs} \<Longrightarrow> f (logpos st i) = g (logpos st i)) \<Longrightarrow> install_writes st t bs f = install_writes st t bs g"
  by (induction bs arbitrary: t) auto

lemma length_log_writes [simp]: "length (log_writes st t bs f) = length bs"
  by (induction bs arbitrary: t) auto

lemma length_install_writes [simp]: "length (install_writes st t bs f) = length bs"
  by (induction bs arbitrary: t) auto

lemma range_Suc: "{t..<t + length (b # bs)} = insert t {Suc t..<Suc t + length bs}"
  by auto

lemma write_log_loop_ok:
  assumes "holds me {} s" "log_dev s = 1" "card (pblocks s) < NBUF" "set bs \<subseteq> pblocks s"
    and "logpos (log_start s) ` {t..<t + length bs} \<inter> pblocks s = {}" "inj_on (logpos (log_start s)) {t..<t + length bs}"
    and "\<forall>i \<in> {t..<t + length bs}. unat (logpos (log_start s) i) < length (memdisk s)"
    and "\<forall>b \<in> set bs. unat b < length (memdisk s)"
  shows "\<exists>s'. write_log_loop me t bs s = Ret s' \<and> holds me {} s' \<and> pblocks s' = pblocks s \<and>
    bio.more s' = bio.more s \<and>
    (\<forall>x. x \<notin> logpos (log_start s) ` {t..<t + length bs} \<longrightarrow> blk s' x = blk s x) \<and>
    (\<forall>i < length bs. blk s' (logpos (log_start s) (t + i)) = blk s (bs ! i)) \<and>
    memdisk s' = apply_writes (memdisk s) (log_writes (log_start s) t bs (blk s)) \<and>
    disk_writes s' = disk_writes s @ log_writes (log_start s) t bs (blk s)"
  using assms
proof (induction bs arbitrary: t s)
  case Nil
  then show ?case by simp
next
  case (Cons b bs)
  let ?P = "logpos (log_start s)" let ?l = "?P t"
  note pr = Cons.prems [unfolded range_Suc]
  have lb: "?l \<noteq> b" "b \<in> pblocks s" "?l \<notin> pblocks s" using pr(4,5) by auto
  obtain s1 where s1: "write_log_loop me t (b # bs) s = write_log_loop me (Suc t) bs s1"
    "holds me {} s1" "blk s1 = (blk s)(?l := blk s b)" "pblocks s1 = pblocks s"
    "memdisk s1 = (memdisk s)[unat ?l := blk s b]" "disk_writes s1 = disk_writes s @ [(unat ?l, blk s b)]"
    "bio.more s1 = bio.more s"
    by (rule write_log_step [OF pr(1,2) refl]) (use pr lb in auto)
  note m = log_more [OF s1(7)]
  have "\<exists>s'. write_log_loop me (Suc t) bs s1 = Ret s' \<and> holds me {} s' \<and> pblocks s' = pblocks s1 \<and>
    bio.more s' = bio.more s1 \<and>
    (\<forall>x. x \<notin> logpos (log_start s1) ` {Suc t..<Suc t + length bs} \<longrightarrow> blk s' x = blk s1 x) \<and>
    (\<forall>i < length bs. blk s' (logpos (log_start s1) (Suc t + i)) = blk s1 (bs ! i)) \<and>
    memdisk s' = apply_writes (memdisk s1) (log_writes (log_start s1) (Suc t) bs (blk s1)) \<and>
    disk_writes s' = disk_writes s1 @ log_writes (log_start s1) (Suc t) bs (blk s1)"
    by (rule Cons.IH) (use pr s1 m in auto)
  then obtain s' where s': "write_log_loop me (Suc t) bs s1 = Ret s'" "holds me {} s'" "pblocks s' = pblocks s"
    "bio.more s' = bio.more s" "\<And>x. x \<notin> ?P ` {Suc t..<Suc t + length bs} \<Longrightarrow> blk s' x = blk s1 x"
    "\<And>i. i < length bs \<Longrightarrow> blk s' (?P (Suc t + i)) = blk s1 (bs ! i)"
    "memdisk s' = apply_writes (memdisk s1) (log_writes (log_start s) (Suc t) bs (blk s1))"
    "disk_writes s' = disk_writes s1 @ log_writes (log_start s) (Suc t) bs (blk s1)"
    using s1(4,7) m(1) by auto
  have agree: "blk s1 x = blk s x" if "x \<in> set bs" for x using that pr(4) lb(3) s1(3) by auto
  have cong: "log_writes (log_start s) (Suc t) bs (blk s1) = log_writes (log_start s) (Suc t) bs (blk s)"
    by (rule log_writes_cong) (rule agree)
  have "?l \<notin> ?P ` {Suc t..<Suc t + length bs}" using pr(6) by (auto simp: inj_on_def)
  then have z: "blk s' ?l = blk s b" using s'(5) s1(3) by simp
  have "blk s' (?P (t + i)) = blk s ((b # bs) ! i)" if "i < length (b # bs)" for i
    using that z s'(6) agree by (cases i) auto
  moreover have "blk s' x = blk s x" if "x \<notin> ?P ` {t..<t + length (b # bs)}" for x
    using that s'(5) s1(3) unfolding range_Suc by auto
  ultimately show ?case using s1 s' cong by (intro exI [of _ s']) simp
qed

lemma install_loop_ok:
  assumes "holds me {} s" "log_dev s = 1" "card (pblocks s) < NBUF"
    and "1 + card (pblocks s) < NBUF \<or> set bs \<subseteq> pblocks s" "distinct bs"
    and "logpos (log_start s) ` {t..<t + length bs} \<inter> set bs = {}"
    and "\<forall>i \<in> {t..<t + length bs}. unat (logpos (log_start s) i) < length (memdisk s)"
    and "\<forall>b \<in> set bs. unat b < length (memdisk s)"
  shows "\<exists>s'. install_trans_loop me t bs s = Ret s' \<and> holds me {} s' \<and> pblocks s' = pblocks s - set bs \<and>
    bio.more s' = bio.more s \<and> (\<forall>x. x \<notin> set bs \<longrightarrow> blk s' x = blk s x) \<and>
    (\<forall>i < length bs. blk s' (bs ! i) = blk s (logpos (log_start s) (t + i))) \<and>
    memdisk s' = apply_writes (memdisk s) (install_writes (log_start s) t bs (blk s)) \<and>
    disk_writes s' = disk_writes s @ install_writes (log_start s) t bs (blk s)"
  using assms
proof (induction bs arbitrary: t s)
  case Nil
  then show ?case by simp
next
  case (Cons b bs)
  let ?P = "logpos (log_start s)" let ?l = "?P t"
  note pr = Cons.prems [unfolded range_Suc]
  have lb: "?l \<noteq> b" "?l \<notin> set bs" "b \<notin> set bs" "b \<notin> ?P ` {Suc t..<Suc t + length bs}" using pr(5,6) by auto
  obtain s1 where s1: "install_trans_loop me t (b # bs) s = install_trans_loop me (Suc t) bs s1"
    "holds me {} s1" "blk s1 = (blk s)(b := blk s ?l)" "pblocks s1 = pblocks s - {b}"
    "memdisk s1 = (memdisk s)[unat b := blk s ?l]" "disk_writes s1 = disk_writes s @ [(unat b, blk s ?l)]"
    "bio.more s1 = bio.more s"
    by (rule install_step [OF pr(1,2) refl]) (use pr lb in auto)
  note m = log_more [OF s1(7)]
  have c: "card (pblocks s1) \<le> card (pblocks s)" unfolding s1(4) by (rule card_mono) (auto simp: pblocks_def pinned_def)
  have "\<exists>s'. install_trans_loop me (Suc t) bs s1 = Ret s' \<and> holds me {} s' \<and> pblocks s' = pblocks s1 - set bs \<and>
    bio.more s' = bio.more s1 \<and> (\<forall>x. x \<notin> set bs \<longrightarrow> blk s' x = blk s1 x) \<and>
    (\<forall>i < length bs. blk s' (bs ! i) = blk s1 (logpos (log_start s1) (Suc t + i))) \<and>
    memdisk s' = apply_writes (memdisk s1) (install_writes (log_start s1) (Suc t) bs (blk s1)) \<and>
    disk_writes s' = disk_writes s1 @ install_writes (log_start s1) (Suc t) bs (blk s1)"
  proof (rule Cons.IH)
    have "set bs \<subseteq> pblocks s1" if "set (b # bs) \<subseteq> pblocks s" using that s1(4) lb(3) by auto
    then show "1 + card (pblocks s1) < NBUF \<or> set bs \<subseteq> pblocks s1" using pr(4) c by linarith
    show "distinct bs" "logpos (log_start s1) ` {Suc t..<Suc t + length bs} \<inter> set bs = {}"
      using pr(5,6) m(1) by auto
  qed (use pr(2,3,7,8) s1(2,5) m c in \<open>simp_all\<close>)
  then obtain s' where s': "install_trans_loop me (Suc t) bs s1 = Ret s'" "holds me {} s'"
    "pblocks s' = pblocks s - {b} - set bs" "bio.more s' = bio.more s" "\<And>x. x \<notin> set bs \<Longrightarrow> blk s' x = blk s1 x"
    "\<And>i. i < length bs \<Longrightarrow> blk s' (bs ! i) = blk s1 (?P (Suc t + i))"
    "memdisk s' = apply_writes (memdisk s1) (install_writes (log_start s) (Suc t) bs (blk s1))"
    "disk_writes s' = disk_writes s1 @ install_writes (log_start s) (Suc t) bs (blk s1)"
    using s1(4,7) m(1) by auto
  have agree: "blk s1 (?P i) = blk s (?P i)" if "i \<in> {Suc t..<Suc t + length bs}" for i
    using that lb(4) s1(3) by auto
  have cong: "install_writes (log_start s) (Suc t) bs (blk s1) = install_writes (log_start s) (Suc t) bs (blk s)"
    by (rule install_writes_cong) (rule agree)
  have "blk s' ((b # bs) ! i) = blk s (?P (t + i))" if "i < length (b # bs)" for i
    using that s'(5) [OF lb(3)] s'(6) agree s1(3) by (cases i) auto
  moreover have "blk s' x = blk s x" if "x \<notin> set (b # bs)" for x
    using that s'(5) s1(3) by auto
  moreover have "pblocks s' = pblocks s - set (b # bs)" using s'(3) by auto
  ultimately show ?case using s1(1,5,6) s'(1,2,4,7,8) cong by (intro exI [of _ s']) simp
qed

lemma log_writes_nth: "i < length bs \<Longrightarrow> log_writes st t bs f ! i = (unat (logpos st (t + i)), f (bs ! i))"
proof (induction bs arbitrary: t i)
  case (Cons b bs)
  then show ?case by (cases i) auto
qed simp

lemma install_writes_nth: "i < length bs \<Longrightarrow> install_writes st t bs f ! i = (unat (bs ! i), f (logpos st (t + i)))"
proof (induction bs arbitrary: t i)
  case (Cons b bs)
  then show ?case by (cases i) auto
qed simp

lemma fst_install_writes: "map fst (install_writes st t bs f) = map unat bs"
  by (rule nth_equalityI) (simp_all add: install_writes_nth)

lemma apply_writes_distinct:
  "distinct (map fst ws) \<Longrightarrow> (b, x) \<in> set ws \<Longrightarrow> b < length d \<Longrightarrow> apply_writes d ws ! b = x"
proof (induction d ws rule: apply_writes.induct)
  case (2 d c y ws)
  show ?case
  proof (cases "b = c \<and> x = y")
    case True
    then have "b \<notin> fst ` set ws" using 2 by auto
    then show ?thesis using True 2 by (simp add: apply_writes_other)
  next
    case False
    then show ?thesis using 2 by auto
  qed
qed simp

section \<open>Reading and writing the header\<close>

lemma log_lh_irrelevant [simp]:
  "holds me H (s\<lparr>log_lh := x\<rparr>) = holds me H s" "blk (s\<lparr>log_lh := x\<rparr>) = blk s"
  "pblocks (s\<lparr>log_lh := x\<rparr>) = pblocks s" "saved (s\<lparr>log_lh := x\<rparr>) k = saved s k"
  "bno (s\<lparr>log_lh := x\<rparr>) = bno s" "bdata k (s\<lparr>log_lh := x\<rparr>) = bdata k s"
  by (auto simp: holds_def cache_ok_def mypid_def blk_def pblocks_def pinned_def saved_def bno_def bdata_def fun_eq_iff
      split: option.split)

lemma write_head_ok:
  assumes h: "holds me {} s" and dev: "log_dev s = 1" and r: "unat (log_start s) < length (memdisk s)"
    and p: "card (pblocks s) < NBUF" "log_start s \<notin> pblocks s"
  defines "hb \<equiv> header_bytes (log_lh s) (blk s (log_start s))"
  obtains s' where "write_head me s = Ret s'" "holds me {} s'" "pblocks s' = pblocks s" "bio.more s' = bio.more s"
    "blk s' = (blk s)(log_start s := hb)" "memdisk s' = (memdisk s)[unat (log_start s) := hb]"
    "disk_writes s' = disk_writes s @ [(unat (log_start s), hb)]"
proof -
  from cache.rd_ok [OF h r] p(1) obtain k s1 where
    a: "bread me 1 (log_start s) s = Ret (k, s1)" "holds me {k} s1" "blk s1 = blk s" "pblocks s1 = pblocks s"
      "bno s1 k = log_start s" "bio_frame s s1" "bdata k s1 = blk s (log_start s)" by auto
  note f1 = bio_frame_simps [OF a(6)] and m1 = log_more [OF bio_frame_simps(3) [OF a(6)]]
  have len: "length hb = BSIZE" using length_blk [OF holdsD(1) [OF h] r] by (simp add: hb_def)
  note w = set_bdata_holds [OF a(2) singletonI len]
  note wf = bio_frame_simps [OF w(4)]
  obtain s3 where b: "bwrite me k (set_bdata k hb s1) = Ret s3" "holds me {k} s3" "blk s3 = blk (set_bdata k hb s1)"
    "pblocks s3 = pblocks (set_bdata k hb s1) - {bno (set_bdata k hb s1) k}" "saved s3 k"
    "memdisk s3 = (memdisk (set_bdata k hb s1))[unat (bno (set_bdata k hb s1) k) := bdata k (set_bdata k hb s1)]"
    "disk_writes s3 = disk_writes (set_bdata k hb s1) @ [(unat (bno (set_bdata k hb s1) k), bdata k (set_bdata k hb s1))]"
    "bio.more s3 = bio.more (set_bdata k hb s1)"
    by (rule bwrite_holds [OF w(1) singletonI]) blast
  obtain s4 where l: "brelse me k s3 = Ret s4" "holds me ({k} - {k}) s4" "blk s4 = blk s3" "pblocks s4 = pblocks s3"
    "bio_frame s3 s4"
    by (rule brelse_holds [OF b(2) singletonI b(5)]) blast
  note lf = bio_frame_simps [OF l(5)]
  have "write_head me s = Ret s4"
    using a(1,7) b(1) l(1) dev m1(6) by (simp add: write_head_def hb_def)
  then show thesis using that [of s4] l b w wf f1 a(3,4,5) lf p(2) by simp
qed

lemma read_head_ok:
  assumes h: "holds me {} s" and dev: "log_dev s = 1" and r: "unat (log_start s) < length (memdisk s)"
    and p: "card (pblocks s) < NBUF"
  obtains s' where "read_head me s = Ret s'" "holds me {} s'" "pblocks s' = pblocks s" "blk s' = blk s"
    "memdisk s' = memdisk s" "disk_writes s' = disk_writes s" "log_lh s' = header_list (blk s (log_start s))"
    "log_dev s' = log_dev s" "log_start s' = log_start s" "log_size s' = log_size s"
    "log_outstanding s' = log_outstanding s" "log_committing s' = log_committing s" "logst.more s' = logst.more s"
proof -
  from cache.rd_ok [OF h r] p(1) obtain k s1 where
    a: "bread me 1 (log_start s) s = Ret (k, s1)" "holds me {k} s1" "blk s1 = blk s" "pblocks s1 = pblocks s"
      "bio_frame s s1" "bdata k s1 = blk s (log_start s)" "saved s1 k" by auto
  note f1 = bio_frame_simps [OF a(5)] and m1 = log_more [OF bio_frame_simps(3) [OF a(5)]]
  let ?t = "s1\<lparr>log_lh := header_list (bdata k s1)\<rparr>"
  have "holds me {k} ?t" "saved ?t k" using a by simp_all
  then obtain s2 where l: "brelse me k ?t = Ret s2" "holds me ({k} - {k}) s2" "blk s2 = blk ?t" "pblocks s2 = pblocks ?t"
    "bio_frame ?t s2"
    by (rule brelse_holds [OF _ singletonI]) blast
  note lf = bio_frame_simps [OF l(5)] and lm = log_more [OF bio_frame_simps(3) [OF l(5)]]
  have "read_head me s = Ret s2" using a(1) l(1) dev by (simp add: read_head_def)
  then show thesis using that [of s2] l a f1 m1 lf lm by simp
qed

section \<open>Recovery\<close>

text \<open>What recovery does to a disk: copy the logged blocks home and clear the header.\<close>

definition recovered :: "u32 \<Rightarrow> bytes list \<Rightarrow> bytes list" where
  "recovered st d =
     (let hs = header_list (d ! unat st);
          d1 = apply_writes d (install_writes st 0 hs (\<lambda>x. d ! unat x))
      in d1[unat st := header_bytes [] (d1 ! unat st)])"

definition in_log :: "u32 \<Rightarrow> int \<Rightarrow> nat \<Rightarrow> bool" where
  "in_log st sz b \<longleftrightarrow> unat st \<le> b \<and> int b < int (unat st) + sz"

text \<open>A list of block numbers that fits the log of \<open>sz\<close> blocks at \<open>st\<close> of a disk of \<open>n\<close> blocks.\<close>

definition entries_ok :: "u32 \<Rightarrow> int \<Rightarrow> nat \<Rightarrow> u32 list \<Rightarrow> bool" where
  "entries_ok st sz n bs \<longleftrightarrow>
     distinct bs \<and> int (length bs) < sz \<and> length bs < NBUF \<and> int (unat st) + sz \<le> int n \<and> n \<le> 2 ^ 32 \<and>
     (\<forall>b \<in> set bs. unat b < n \<and> \<not> in_log st sz (unat b))"

lemma entries_ok_pos:
  assumes "entries_ok st sz n bs" "i < length bs"
  shows "unat (logpos st i) = Suc (unat st + i)" "unat (logpos st i) < n" "in_log st sz (unat (logpos st i))"
    "logpos st i \<notin> set bs"
proof -
  have lt: "int (Suc (unat st + i)) < int (unat st) + sz" "int (unat st) + sz \<le> int n" "n \<le> 2 ^ 32"
    using assms by (auto simp: entries_ok_def)
  then have w: "Suc (unat st + i) < 2 ^ 32" by linarith
  have "unat (of_nat i :: u32) = i" using w by (simp add: unat_of_nat)
  moreover from this have "unat (st + of_nat i) = unat st + i" using w by (subst unat_add_no_wrap) simp_all
  ultimately show u: "unat (logpos st i) = Suc (unat st + i)"
    unfolding logpos_def using w by (subst unat_add_no_wrap) simp_all
  show "unat (logpos st i) < n" unfolding u using lt by linarith
  show "in_log st sz (unat (logpos st i))" unfolding u using lt(1) by (simp add: in_log_def)
  then show "logpos st i \<notin> set bs" using assms(1) by (auto simp: entries_ok_def)
qed

lemma entries_ok_inj:
  assumes "entries_ok st sz n bs" shows "inj_on (logpos st) {0..<0 + length bs}"
proof (rule inj_onI)
  fix i j assume ij: "i \<in> {0..<0 + length bs}" "j \<in> {0..<0 + length bs}" and eq: "logpos st i = logpos st j"
  have "Suc (unat st + i) = Suc (unat st + j)"
    using arg_cong [OF eq, of unat] entries_ok_pos(1) [OF assms, of i] entries_ok_pos(1) [OF assms, of j] ij
    by (metis add.left_neutral atLeastLessThan_iff)
  then show "i = j" by simp
qed

lemma entries_ok_start:
  assumes "entries_ok st sz n bs"
  shows "unat st < n" "st \<notin> set bs" "unat st \<notin> unat ` set bs"
proof -
  have "0 < sz" "int (unat st) + sz \<le> int n" using assms by (auto simp: entries_ok_def)
  then show "unat st < n" by linarith
  have "in_log st sz (unat st)" using \<open>0 < sz\<close> by (simp add: in_log_def)
  then show "st \<notin> set bs" "unat st \<notin> unat ` set bs" using assms by (auto simp: entries_ok_def)
qed

lemma data_not_start: "entries_ok st sz n bs \<Longrightarrow> \<not> in_log st sz b \<Longrightarrow> b \<noteq> unat st"
  by (auto simp: in_log_def entries_ok_def)

lemma recovered_data:
  assumes e: "entries_ok st sz (length d) (header_list (d ! unat st))" and b: "b < length d" "b \<noteq> unat st"
  shows "recovered st d ! b =
    (case scan (\<lambda>x. unat x = b) (header_list (d ! unat st)) of
       Some i \<Rightarrow> d ! unat (logpos st i) | None \<Rightarrow> d ! b)"
proof -
  let ?hs = "header_list (d ! unat st)" let ?ws = "install_writes st 0 ?hs (\<lambda>x. d ! unat x)"
  have r: "recovered st d ! b = apply_writes d ?ws ! b" using b by (simp add: recovered_def Let_def)
  show ?thesis
  proof (cases "scan (\<lambda>x. unat x = b) ?hs")
    case None
    then have "b \<notin> fst ` set ?ws"
      using arg_cong [OF fst_install_writes [of st 0 ?hs "\<lambda>x. d ! unat x"], of set] by (auto simp: scan_None_iff)
    then show ?thesis using None r by (simp add: apply_writes_other)
  next
    case (Some i)
    then have i: "i < length ?hs" "unat (?hs ! i) = b" by (auto simp: scan_Some_iff)
    have "distinct (map fst ?ws)"
      using e by (simp add: fst_install_writes distinct_map entries_ok_def inj_on_def word_unat_eq_iff)
    moreover have "(b, d ! unat (logpos st i)) \<in> set ?ws"
      using i install_writes_nth [OF i(1), of st 0 "\<lambda>x. d ! unat x"] by (auto simp: in_set_conv_nth intro!: exI [of _ i])
    ultimately show ?thesis using Some r b by (simp add: apply_writes_distinct)
  qed
qed

lemma recover_ok:
  assumes h: "holds me {} r" and p: "pblocks r = {}" and dev: "log_dev r = 1"
    and e: "entries_ok (log_start r) sz (length (memdisk r)) (header_list (memdisk r ! unat (log_start r)))"
  obtains r' where "recover_from_log me r = Ret r'" "memdisk r' = recovered (log_start r) (memdisk r)"
    "holds me {} r'" "pblocks r' = {}" "log_lh r' = []" "log_start r' = log_start r" "log_dev r' = log_dev r"
    "disk_writes r' = disk_writes r @ install_writes (log_start r) 0 (header_list (memdisk r ! unat (log_start r)))
        (\<lambda>x. memdisk r ! unat x) @ [(unat (log_start r), header_bytes [] (memdisk r ! unat (log_start r)))]"
proof -
  let ?st = "log_start r" let ?hs = "header_list (memdisk r ! unat ?st)"
  have st: "unat ?st < length (memdisk r)" and sth: "?st \<notin> set ?hs" by (rule entries_ok_start [OF e])+
  have disk: "blk r = (\<lambda>x. memdisk r ! unat x)" using blk_on_disk [OF h] p by auto
  obtain r1 where a: "read_head me r = Ret r1" "holds me {} r1" "pblocks r1 = pblocks r" "blk r1 = blk r"
    "memdisk r1 = memdisk r" "disk_writes r1 = disk_writes r" "log_lh r1 = ?hs" "log_dev r1 = 1" "log_start r1 = ?st"
    by (rule read_head_ok [OF h dev st]) (use p disk dev in \<open>auto simp: NBUF_def\<close>)
  have "\<exists>s'. install_trans_loop me 0 ?hs r1 = Ret s' \<and> holds me {} s' \<and> pblocks s' = pblocks r1 - set ?hs \<and>
    bio.more s' = bio.more r1 \<and> (\<forall>x. x \<notin> set ?hs \<longrightarrow> blk s' x = blk r1 x) \<and>
    (\<forall>i < length ?hs. blk s' (?hs ! i) = blk r1 (logpos (log_start r1) (0 + i))) \<and>
    memdisk s' = apply_writes (memdisk r1) (install_writes (log_start r1) 0 ?hs (blk r1)) \<and>
    disk_writes s' = disk_writes r1 @ install_writes (log_start r1) 0 ?hs (blk r1)"
    by (rule install_loop_ok [OF a(2)])
      (use a p e entries_ok_pos [OF e] in \<open>auto simp: NBUF_def entries_ok_def\<close>)
  then obtain r2 where b: "install_trans me r1 = Ret r2" "holds me {} r2" "pblocks r2 = {}"
    "bio.more r2 = bio.more r1" "blk r2 ?st = memdisk r ! unat ?st"
    "memdisk r2 = apply_writes (memdisk r) (install_writes ?st 0 ?hs (\<lambda>x. memdisk r ! unat x))"
    "disk_writes r2 = disk_writes r @ install_writes ?st 0 ?hs (\<lambda>x. memdisk r ! unat x)"
    using a p sth disk by (auto simp: install_trans_def)
  note m = log_more [OF b(4)]
  let ?t = "r2\<lparr>log_lh := []\<rparr>"
  have d1: "memdisk r2 ! unat ?st = memdisk r ! unat ?st" using blk_on_disk [OF b(2)] b(3,5) by simp
  obtain r3 where c: "write_head me ?t = Ret r3" "holds me {} r3" "pblocks r3 = {}" "bio.more r3 = bio.more ?t"
    "memdisk r3 = (memdisk r2)[unat ?st := header_bytes [] (memdisk r ! unat ?st)]"
    "disk_writes r3 = disk_writes r2 @ [(unat ?st, header_bytes [] (memdisk r ! unat ?st))]"
    by (rule write_head_ok [of me ?t]) (use b m a st in \<open>auto simp: NBUF_def\<close>)
  note m3 = log_more [OF c(4)]
  show thesis
  proof (rule that)
    show "recover_from_log me r = Ret r3" using a(1) b(1) c(1) by (simp add: recover_from_log_def)
    show "memdisk r3 = recovered ?st (memdisk r)" using c(5) b(6) d1 by (simp add: recovered_def Let_def)
  qed (use c b m3 m a dev in \<open>simp_all\<close>)
qed

section \<open>Commit\<close>

text \<open>The state between transactions: nothing locked, exactly the logged blocks pinned, the header on
  disk clear.\<close>

definition log_ready :: "nat \<Rightarrow> 'a logst_scheme \<Rightarrow> bool" where
  "log_ready me s \<longleftrightarrow>
     holds me {} s \<and> log_dev s = 1 \<and> pblocks s = set (log_lh s) \<and>
     entries_ok (log_start s) (log_size s) (length (memdisk s)) (log_lh s) \<and>
     header_list (memdisk s ! unat (log_start s)) = []"

definition commit_writes :: "u32 \<Rightarrow> u32 list \<Rightarrow> (u32 \<Rightarrow> bytes) \<Rightarrow> (nat \<times> bytes) list" where
  "commit_writes st bs f =
     log_writes st 0 bs f @ [(unat st, header_bytes bs (f st))] @
     map (\<lambda>b. (unat b, f b)) bs @ [(unat st, header_bytes [] (header_bytes bs (f st)))]"

lemma install_writes_map:
  "(\<And>i. i < length bs \<Longrightarrow> g (logpos st i) = f (bs ! i)) \<Longrightarrow> install_writes st 0 bs g = map (\<lambda>b. (unat b, f b)) bs"
  by (rule nth_equalityI) (simp_all add: install_writes_nth)

lemma log_readyD:
  assumes "log_ready me s"
  shows "holds me {} s" "log_dev s = 1" "pblocks s = set (log_lh s)"
    "entries_ok (log_start s) (log_size s) (length (memdisk s)) (log_lh s)" "card (pblocks s) < NBUF"
    "header_list (memdisk s ! unat (log_start s)) = []" "log_start s \<notin> pblocks s"
    "unat (log_start s) < length (memdisk s)"
  using assms entries_ok_start [of "log_start s" "log_size s" "length (memdisk s)" "log_lh s"]
  by (auto simp: log_ready_def entries_ok_def distinct_card)

lemma write_log_ready:
  assumes r: "log_ready me s"
  obtains s1 where "write_log me s = Ret s1" "holds me {} s1" "pblocks s1 = pblocks s" "bio.more s1 = bio.more s"
    "\<And>x. \<not> in_log (log_start s) (log_size s) (unat x) \<Longrightarrow> blk s1 x = blk s x" "blk s1 (log_start s) = blk s (log_start s)"
    "\<And>i. i < length (log_lh s) \<Longrightarrow> blk s1 (logpos (log_start s) i) = blk s (log_lh s ! i)"
    "memdisk s1 = apply_writes (memdisk s) (log_writes (log_start s) 0 (log_lh s) (blk s))"
    "disk_writes s1 = disk_writes s @ log_writes (log_start s) 0 (log_lh s) (blk s)"
proof -
  let ?st = "log_start s" let ?bs = "log_lh s"
  note d = log_readyD [OF r] and pos = entries_ok_pos [OF log_readyD(4) [OF r]]
  have "\<exists>s'. write_log_loop me 0 ?bs s = Ret s' \<and> holds me {} s' \<and> pblocks s' = pblocks s \<and>
    bio.more s' = bio.more s \<and> (\<forall>x. x \<notin> logpos ?st ` {0..<0 + length ?bs} \<longrightarrow> blk s' x = blk s x) \<and>
    (\<forall>i < length ?bs. blk s' (logpos ?st (0 + i)) = blk s (?bs ! i)) \<and>
    memdisk s' = apply_writes (memdisk s) (log_writes ?st 0 ?bs (blk s)) \<and>
    disk_writes s' = disk_writes s @ log_writes ?st 0 ?bs (blk s)"
    by (rule write_log_loop_ok [OF d(1,2,5)])
      (use d(3,4) pos entries_ok_inj [OF d(4)] in \<open>auto simp: entries_ok_def\<close>)
  then obtain s1 where s1: "write_log me s = Ret s1" "holds me {} s1" "pblocks s1 = pblocks s" "bio.more s1 = bio.more s"
    "\<And>x. x \<notin> logpos ?st ` {0..<length ?bs} \<Longrightarrow> blk s1 x = blk s x"
    "\<And>i. i < length ?bs \<Longrightarrow> blk s1 (logpos ?st i) = blk s (?bs ! i)"
    "memdisk s1 = apply_writes (memdisk s) (log_writes ?st 0 ?bs (blk s))"
    "disk_writes s1 = disk_writes s @ log_writes ?st 0 ?bs (blk s)"
    by (auto simp: write_log_def)
  have "?st \<notin> logpos ?st ` {0..<length ?bs}" using pos(1) by force
  moreover have "x \<notin> logpos ?st ` {0..<length ?bs}" if "\<not> in_log ?st (log_size s) (unat x)" for x
    using that pos(3) by auto
  ultimately show thesis using that [OF s1(1-4)] s1(5-8) by blast
qed

lemma commit_ok:
  assumes r: "log_ready me s" and ne: "log_lh s \<noteq> []"
  defines "W \<equiv> commit_writes (log_start s) (log_lh s) (blk s)"
  obtains s' where "commit me s = Ret s'" "memdisk s' = apply_writes (memdisk s) W"
    "disk_writes s' = disk_writes s @ W" "log_ready me s'" "log_lh s' = []" "log_start s' = log_start s"
    "log_size s' = log_size s" "log_outstanding s' = log_outstanding s" "log_committing s' = log_committing s"
    "logst.more s' = logst.more s" "\<And>x. \<not> in_log (log_start s) (log_size s) (unat x) \<Longrightarrow> blk s' x = blk s x"
proof -
  let ?st = "log_start s" let ?bs = "log_lh s" let ?hb = "header_bytes ?bs (blk s ?st)"
  note d = log_readyD [OF r] and pos = entries_ok_pos [OF log_readyD(4) [OF r]]
  obtain s1 where a: "write_log me s = Ret s1" "holds me {} s1" "pblocks s1 = pblocks s" "bio.more s1 = bio.more s"
    "\<And>x. \<not> in_log ?st (log_size s) (unat x) \<Longrightarrow> blk s1 x = blk s x" "blk s1 ?st = blk s ?st"
    "\<And>i. i < length ?bs \<Longrightarrow> blk s1 (logpos ?st i) = blk s (?bs ! i)"
    "memdisk s1 = apply_writes (memdisk s) (log_writes ?st 0 ?bs (blk s))"
    "disk_writes s1 = disk_writes s @ log_writes ?st 0 ?bs (blk s)"
    by (rule write_log_ready [OF r]) blast
  note m1 = log_more [OF a(4)]
  obtain s2 where b: "write_head me s1 = Ret s2" "holds me {} s2" "pblocks s2 = set ?bs" "bio.more s2 = bio.more s"
    "blk s2 = (blk s1)(?st := ?hb)" "memdisk s2 = (memdisk s1)[unat ?st := ?hb]"
    "disk_writes s2 = disk_writes s1 @ [(unat ?st, ?hb)]"
    by (rule write_head_ok [OF a(2)]) (use a d m1 in auto)
  note m2 = log_more [OF b(4)]
  have ne_st: "logpos ?st i \<noteq> ?st" if "i < length ?bs" for i using pos(1) [OF that] by auto
  have "\<exists>s'. install_trans_loop me 0 ?bs s2 = Ret s' \<and> holds me {} s' \<and> pblocks s' = pblocks s2 - set ?bs \<and>
    bio.more s' = bio.more s2 \<and> (\<forall>x. x \<notin> set ?bs \<longrightarrow> blk s' x = blk s2 x) \<and>
    (\<forall>i < length ?bs. blk s' (?bs ! i) = blk s2 (logpos (log_start s2) (0 + i))) \<and>
    memdisk s' = apply_writes (memdisk s2) (install_writes (log_start s2) 0 ?bs (blk s2)) \<and>
    disk_writes s' = disk_writes s2 @ install_writes (log_start s2) 0 ?bs (blk s2)"
    by (rule install_loop_ok [OF b(2)])
      (use b a m2 d pos in \<open>auto simp: entries_ok_def\<close>)
  moreover have "install_writes ?st 0 ?bs (blk s2) = map (\<lambda>b. (unat b, blk s b)) ?bs"
    by (rule install_writes_map) (use b(5) a(7) ne_st in simp)
  ultimately obtain s3 where c: "install_trans me s2 = Ret s3" "holds me {} s3" "pblocks s3 = {}" "bio.more s3 = bio.more s"
    "\<And>x. x \<notin> set ?bs \<Longrightarrow> blk s3 x = blk s2 x" "\<And>i. i < length ?bs \<Longrightarrow> blk s3 (?bs ! i) = blk s (?bs ! i)"
    "memdisk s3 = apply_writes (memdisk s2) (map (\<lambda>b. (unat b, blk s b)) ?bs)"
    "disk_writes s3 = disk_writes s2 @ map (\<lambda>b. (unat b, blk s b)) ?bs"
    using b(3,4,5) m2 a(7) ne_st by (auto simp: install_trans_def)
  note m3 = log_more [OF c(4)]
  let ?t = "s3\<lparr>log_lh := []\<rparr>"
  have st3: "blk s3 ?st = ?hb" using c(5) b(5) d(3,7) by simp
  have len3: "length (memdisk s3) = length (memdisk s)" using c(7) b(6) a(8) by simp
  obtain s4 where e: "write_head me ?t = Ret s4" "holds me {} s4" "pblocks s4 = {}" "bio.more s4 = bio.more ?t"
    "blk s4 = (blk s3)(?st := header_bytes [] ?hb)" "memdisk s4 = (memdisk s3)[unat ?st := header_bytes [] ?hb]"
    "disk_writes s4 = disk_writes s3 @ [(unat ?st, header_bytes [] ?hb)]"
    by (rule write_head_ok [of me ?t]) (use c m3 d st3 len3 in \<open>auto simp: NBUF_def\<close>)
  note m4 = log_more [OF e(4)]
  have all: "commit me s = Ret s4" "memdisk s4 = apply_writes (memdisk s) W" "disk_writes s4 = disk_writes s @ W"
    using ne a b c e by (simp_all add: commit_def W_def commit_writes_def apply_writes_append)
  have "length ?hb = BSIZE" using length_blk [OF holdsD(1) [OF d(1)] d(8)] by simp
  then have hd0: "header_list (header_bytes [] ?hb) = []" by (intro header_roundtrip) (simp_all add: BSIZE_def)
  have "log_ready me s4"
    unfolding log_ready_def using e m4 m3 d(2,4,8) hd0 len3 by (simp add: entries_ok_def)
  moreover have "blk s4 x = blk s x" if "\<not> in_log ?st (log_size s) (unat x)" for x
  proof -
    have x: "x \<noteq> ?st" using that entries_ok_pos d(4) by (auto simp: in_log_def entries_ok_def)
    show ?thesis
    proof (cases "x \<in> set ?bs")
      case True
      then show ?thesis using c(6) e(5) x by (auto simp: in_set_conv_nth)
    next
      case False
      then show ?thesis using c(5) e(5) b(5) a(5) [OF that] x by simp
    qed
  qed
  ultimately show thesis using that [OF all] e m4 m3 by simp
qed

section \<open>Crashes\<close>

lemma take_log_writes_other:
  assumes "entries_ok st sz n bs" "\<not> in_log st sz b \<or> b = unat st"
  shows "apply_writes d (take m (log_writes st 0 bs f)) ! b = d ! b"
proof (rule apply_writes_other)
  have "\<forall>i < length bs. b \<noteq> unat (logpos st i)"
    using entries_ok_pos [OF assms(1)] assms(2) by auto
  then show "b \<notin> fst ` set (take m (log_writes st 0 bs f))"
    by (fastforce simp: in_set_conv_nth log_writes_nth)
qed

lemma log_writes_disk:
  assumes e: "entries_ok st sz (length d) bs" and i: "i < length bs"
  shows "apply_writes d (log_writes st 0 bs f) ! unat (logpos st i) = f (bs ! i)"
proof (rule apply_writes_distinct)
  have "map fst (log_writes st 0 bs f) = map (\<lambda>i. Suc (unat st + i)) [0..<length bs]"
    by (rule nth_equalityI) (simp_all add: log_writes_nth entries_ok_pos(1) [OF e])
  then show "distinct (map fst (log_writes st 0 bs f))" by (simp add: distinct_map inj_on_def)
  show "(unat (logpos st i), f (bs ! i)) \<in> set (log_writes st 0 bs f)"
    using i log_writes_nth [OF i, of st 0 f] by (auto simp: in_set_conv_nth intro!: exI [of _ i])
  show "unat (logpos st i) < length d" by (rule entries_ok_pos(2) [OF e i])
qed

text \<open>The disk from the write of the header on: the header lists the transaction and the log holds
  its blocks, whatever part of it has been installed.\<close>

lemma installing_disk:
  assumes e: "entries_ok st sz (length d) bs" and h: "length h = BSIZE"
  and D_def: "D = apply_writes d (log_writes st 0 bs f @ [(unat st, header_bytes bs h)] @ take m (map (\<lambda>b. (unat b, f b)) bs))"
  shows "header_list (D ! unat st) = bs" "i < length bs \<Longrightarrow> D ! unat (logpos st i) = f (bs ! i)"
    "\<not> in_log st sz b \<Longrightarrow> b \<notin> unat ` set bs \<Longrightarrow> D ! b = d ! b" "length D = length d"
proof -
  let ?D0 = "(apply_writes d (log_writes st 0 bs f))[unat st := header_bytes bs h]"
  have D: "D = apply_writes ?D0 (take m (map (\<lambda>b. (unat b, f b)) bs))" by (simp add: D_def apply_writes_append)
  note st = entries_ok_start [OF e]
  have oth: "D ! b = ?D0 ! b" if "b \<notin> unat ` set bs" for b
    unfolding D by (rule apply_writes_other) (use that in \<open>auto simp: take_map dest: in_set_takeD\<close>)
  have "4 + 4 * length bs \<le> BSIZE" using e by (simp add: entries_ok_def NBUF_def BSIZE_def)
  then show "header_list (D ! unat st) = bs"
    using oth [OF st(3)] st(1) header_roundtrip [OF h] by simp
  show "D ! unat (logpos st i) = f (bs ! i)" if i: "i < length bs"
  proof -
    have "unat (logpos st i) \<noteq> unat st" "unat (logpos st i) \<notin> unat ` set bs"
      using entries_ok_pos(1,4) [OF e i] by (auto simp del: entries_ok_pos(1) dest!: word_unat_eq_iff [THEN iffD2])
    then show ?thesis using oth log_writes_disk [OF e i] by simp
  qed
  show "D ! b = d ! b" if b: "\<not> in_log st sz b" "b \<notin> unat ` set bs"
  proof -
    have "b \<noteq> unat st" by (rule data_not_start [OF e b(1)])
    then show ?thesis
      using oth [OF b(2)] take_log_writes_other [OF e, of b d "length bs" f] b(1) by simp
  qed
  show "length D = length d" by (simp add: D_def)
qed

lemma crash_old:
  assumes e: "entries_ok st sz (length d) bs" and h: "header_list (d ! unat st) = []"
    and D_def: "D = apply_writes d (take m (log_writes st 0 bs f))"
  shows "entries_ok st sz (length D) (header_list (D ! unat st))"
    "b < length d \<Longrightarrow> \<not> in_log st sz b \<Longrightarrow> recovered st D ! b = d ! b"
proof -
  have D: "D ! unat st = d ! unat st" "length D = length d"
    using take_log_writes_other [OF e] by (auto simp: D_def)
  show e': "entries_ok st sz (length D) (header_list (D ! unat st))" using e D h by (auto simp: entries_ok_def)
  assume b: "b < length d" "\<not> in_log st sz b"
  have "b \<noteq> unat st" by (rule data_not_start [OF e b(2)])
  moreover have "D ! b = d ! b" using take_log_writes_other [OF e] b(2) by (auto simp: D_def)
  ultimately show "recovered st D ! b = d ! b" using recovered_data [OF e', of b] D h b(1) by simp
qed

lemma crash_new:
  assumes e: "entries_ok st sz (length d) bs" and h: "length h = BSIZE"
    and D_def: "D = apply_writes d (log_writes st 0 bs f @ [(unat st, header_bytes bs h)] @ take m (map (\<lambda>b. (unat b, f b)) bs))"
  shows "entries_ok st sz (length D) (header_list (D ! unat st))"
    "b < length d \<Longrightarrow> \<not> in_log st sz b \<Longrightarrow> recovered st D ! b = (if b \<in> unat ` set bs then f (of_nat b) else d ! b)"
proof -
  note D = installing_disk [OF e h D_def]
  show e': "entries_ok st sz (length D) (header_list (D ! unat st))" using e D by simp
  assume b: "b < length d" "\<not> in_log st sz b"
  have nb: "b \<noteq> unat st" by (rule data_not_start [OF e b(2)])
  show "recovered st D ! b = (if b \<in> unat ` set bs then f (of_nat b) else d ! b)"
  proof (cases "scan (\<lambda>x. unat x = b) bs")
    case None
    then have "b \<notin> unat ` set bs" by (auto simp: scan_None_iff)
    then show ?thesis using recovered_data [OF e', of b] D None nb b by simp
  next
    case (Some i)
    then have i: "i < length bs" "unat (bs ! i) = b" by (auto simp: scan_Some_iff)
    then have "of_nat b = bs ! i" "b \<in> unat ` set bs" by auto
    then show ?thesis using recovered_data [OF e', of b] D(1,4) D(2) [OF i(1)] Some nb b by simp
  qed
qed

lemma crash_done:
  assumes e: "entries_ok st sz (length d) bs" and h: "length h = BSIZE"
    and D_def: "D = apply_writes d (log_writes st 0 bs f @ [(unat st, header_bytes bs h)] @ map (\<lambda>b. (unat b, f b)) bs @
    [(unat st, header_bytes [] (header_bytes bs h))])"
  shows "entries_ok st sz (length D) (header_list (D ! unat st))"
    "b < length d \<Longrightarrow> \<not> in_log st sz b \<Longrightarrow> recovered st D ! b = (if b \<in> unat ` set bs then f (of_nat b) else d ! b)"
proof -
  let ?ws = "map (\<lambda>b. (unat b, f b)) bs"
  let ?E = "(apply_writes d (log_writes st 0 bs f))[unat st := header_bytes bs h]"
  have D: "D = (apply_writes ?E ?ws)[unat st := header_bytes [] (header_bytes bs h)]"
    by (simp add: D_def apply_writes_append)
  have hd0: "header_list (D ! unat st) = []"
    using D entries_ok_start(1) [OF e] header_roundtrip [of "header_bytes bs h" "[]"] h by (simp add: BSIZE_def)
  then show e': "entries_ok st sz (length D) (header_list (D ! unat st))"
    using e by (simp add: entries_ok_def D_def)
  assume b: "b < length d" "\<not> in_log st sz b"
  have nb: "b \<noteq> unat st" by (rule data_not_start [OF e b(2)])
  have Db: "D ! b = (if b \<in> unat ` set bs then f (of_nat b) else d ! b)"
  proof (cases "b \<in> unat ` set bs")
    case True
    then obtain x where x: "x \<in> set bs" "b = unat x" by auto
    have "distinct (map fst ?ws)" using e by (simp add: entries_ok_def distinct_map inj_on_def word_unat_eq_iff)
    moreover have "(unat x, f x) \<in> set ?ws" using x by auto
    ultimately have "apply_writes ?E ?ws ! unat x = f x" using x b(1) by (intro apply_writes_distinct) simp_all
    then show ?thesis using True x nb by (simp add: D)
  next
    case False
    then have "apply_writes ?E ?ws ! b = ?E ! b" by (intro apply_writes_other) auto
    then show ?thesis using False nb take_log_writes_other [OF e, of b d "length bs" f] b(2) by (simp add: D)
  qed
  then show "recovered st D ! b = (if b \<in> unat ` set bs then f (of_nat b) else d ! b)"
    using recovered_data [OF e', of b] hd0 nb b(1) by (simp add: D_def)
qed

lemma crash_cases:
  assumes e: "entries_ok st sz (length d) bs" and hd0: "header_list (d ! unat st) = []" and h: "length (f st) = BSIZE"
    and ws: "ws = (if bs = [] then [] else commit_writes st bs f)" and D: "D = apply_writes d (take n ws)"
  shows "entries_ok st sz (length D) (header_list (D ! unat st))"
    "b < length d \<Longrightarrow> \<not> in_log st sz b \<Longrightarrow>
       recovered st D ! b = (if length bs < n \<and> b \<in> unat ` set bs then f (of_nat b) else d ! b)"
proof -
  have "entries_ok st sz (length D) (header_list (D ! unat st)) \<and>
    (b < length d \<longrightarrow> \<not> in_log st sz b \<longrightarrow>
       recovered st D ! b = (if length bs < n \<and> b \<in> unat ` set bs then f (of_nat b) else d ! b))"
  proof (cases "bs = [] \<or> n \<le> length bs")
    case True
    then have "D = apply_writes d (take n (log_writes st 0 bs f))" by (auto simp: D ws commit_writes_def)
    from crash_old [OF e hd0 this] True show ?thesis by auto
  next
    case False
    then have W: "ws = commit_writes st bs f" and n: "length bs < n" using ws by auto
    show ?thesis
    proof (cases "n \<le> Suc (2 * length bs)")
      case True
      then have "take n ws = log_writes st 0 bs f @ [(unat st, header_bytes bs (f st))] @
          take (n - Suc (length bs)) (map (\<lambda>b. (unat b, f b)) bs)"
        using n by (simp add: W commit_writes_def take_Cons')
      from crash_new [OF e h D [unfolded this]] n show ?thesis by auto
    next
      case False
      then have "D = apply_writes d (log_writes st 0 bs f @ [(unat st, header_bytes bs (f st))] @
          map (\<lambda>b. (unat b, f b)) bs @ [(unat st, header_bytes [] (header_bytes bs (f st)))])"
        by (simp add: D W commit_writes_def)
      from crash_done [OF e h this] n show ?thesis by auto
    qed
  qed
  then show "entries_ok st sz (length D) (header_list (D ! unat st))"
    "b < length d \<Longrightarrow> \<not> in_log st sz b \<Longrightarrow>
       recovered st D ! b = (if length bs < n \<and> b \<in> unat ` set bs then f (of_nat b) else d ! b)" by blast+
qed

lemma recovery_crash:
  assumes e: "entries_ok st sz (length d) (header_list (d ! unat st))" and l: "length (d ! unat st) = BSIZE"
    and ws: "ws = install_writes st 0 (header_list (d ! unat st)) (\<lambda>x. d ! unat x) @ [(unat st, header_bytes [] (d ! unat st))]"
    and D: "D = apply_writes d (take n ws)"
  shows "entries_ok st sz (length D) (header_list (D ! unat st))"
    "b < length d \<Longrightarrow> \<not> in_log st sz b \<Longrightarrow> recovered st D ! b = recovered st d ! b"
proof -
  let ?hs = "header_list (d ! unat st)" let ?I = "install_writes st 0 ?hs (\<lambda>x. d ! unat x)"
  have fI: "fst ` set (take m ?I) \<subseteq> unat ` set ?hs" for m
  proof -
    have "fst ` set ?I = unat ` set ?hs"
      using arg_cong [OF fst_install_writes [of st 0 ?hs "\<lambda>x. d ! unat x"], of set] by simp
    then show ?thesis using image_mono [OF set_take_subset [of m ?I], of fst] by simp
  qed
  have "entries_ok st sz (length D) (header_list (D ! unat st)) \<and>
    (b < length d \<longrightarrow> \<not> in_log st sz b \<longrightarrow> recovered st D ! b = recovered st d ! b)"
  proof (cases "n \<le> length ?hs")
    case True
    then have D: "D = apply_writes d (take n ?I)" by (simp add: D ws)
    have lD: "length D = length d" by (simp add: D)
    have keep: "D ! c = d ! c" if "c \<notin> unat ` set ?hs" for c
      unfolding D by (rule apply_writes_other) (use that fI in blast)
    have st: "D ! unat st = d ! unat st" by (rule keep [OF entries_ok_start(3) [OF e]])
    then have e': "entries_ok st sz (length D) (header_list (D ! unat st))" using e by (simp add: D)
    have "recovered st D ! b = recovered st d ! b" if b: "b < length d" "\<not> in_log st sz b"
    proof -
      have "b \<noteq> unat st" by (rule data_not_start [OF e b(2)])
      moreover have "D ! unat (logpos st i) = d ! unat (logpos st i)" if "i < length ?hs" for i
        by (rule keep) (use entries_ok_pos(4) [OF e that] in \<open>auto dest!: word_unat_eq_iff [THEN iffD2]\<close>)
      moreover have "D ! b = d ! b" if "scan (\<lambda>x. unat x = b) ?hs = None"
        by (rule keep) (use that in \<open>auto simp: scan_None_iff\<close>)
      ultimately show ?thesis
        using recovered_data [OF e, of b] recovered_data [OF e', of b] st b(1) lD
        by (cases "scan (\<lambda>x. unat x = b) ?hs") (simp_all add: scan_SomeD(1))
    qed
    then show ?thesis using e' by blast
  next
    case False
    then have D: "D = (apply_writes d ?I)[unat st := header_bytes [] (d ! unat st)]"
      by (simp add: D ws apply_writes_append)
    have "apply_writes d ?I ! unat st = d ! unat st"
      by (rule apply_writes_other) (use fI [of "length ?I"] entries_ok_start(3) [OF e] in auto)
    then have "D = recovered st d" by (simp add: D recovered_def Let_def)
    moreover have hd0: "header_list (D ! unat st) = []"
      using entries_ok_start(1) [OF e] header_roundtrip [OF l, of "[]"] by (simp add: D BSIZE_def)
    then have e': "entries_ok st sz (length D) (header_list (D ! unat st))" using e by (simp add: entries_ok_def D)
    moreover have "recovered st D ! b = D ! b" if "b < length d" "\<not> in_log st sz b"
      using recovered_data [OF e', of b] that hd0 data_not_start [OF e that(2)] by (simp add: D)
    ultimately show ?thesis by simp
  qed
  then show "entries_ok st sz (length D) (header_list (D ! unat st))"
    "b < length d \<Longrightarrow> \<not> in_log st sz b \<Longrightarrow> recovered st D ! b = recovered st d ! b" by blast+
qed

section \<open>Properties\<close>

text \<open>C8: A commit installs the transaction: from a state in which exactly the logged blocks are pinned
  and the header on disk is clear, \<open>commit\<close> returns, every block outside the log has on disk the
  contents it had in the cache, nothing is pinned any more and the log is ready for the next
  transaction.\<close>

theorem commit_installs:
  assumes "log_ready me s"
  shows "\<exists>s'. commit me s = Ret s' \<and> log_ready me s' \<and> log_lh s' = [] \<and>
    (\<forall>b. unat b < length (memdisk s) \<longrightarrow> \<not> in_log (log_start s) (log_size s) (unat b) \<longrightarrow>
       memdisk s' ! unat b = blk s b \<and> blk s' b = blk s b)"
proof (cases "log_lh s = []")
  case True
  note d = log_readyD [OF assms]
  show ?thesis using True assms blk_on_disk [OF d(1)] d(3) by (intro exI [of _ s]) (simp add: commit_def)
next
  case False
  obtain s' where s': "commit me s = Ret s'" "log_ready me s'" "log_lh s' = []" "log_start s' = log_start s" "log_size s' = log_size s"
    "\<And>x. \<not> in_log (log_start s) (log_size s) (unat x) \<Longrightarrow> blk s' x = blk s x"
    by (rule commit_ok [OF assms False]) blast
  note d = log_readyD [OF s'(2)]
  show ?thesis using s' blk_on_disk [OF d(1)] d(3) by (intro exI [of _ s']) simp
qed

text \<open>The machine after a crash: a fresh cache over the surviving disk.\<close>

definition rebooted :: "nat \<Rightarrow> 'a logst_scheme \<Rightarrow> bytes list \<Rightarrow> 'b logst_scheme \<Rightarrow> bool" where
  "rebooted me s d r \<longleftrightarrow>
     holds me {} r \<and> pblocks r = {} \<and> memdisk r = d \<and> log_dev r = 1 \<and> log_start r = log_start s"

text \<open>C1: Transactions are atomic across crashes.  Suppose \<open>commit\<close> makes the disk writes \<open>ws\<close> and the
  machine stops after any number \<open>n\<close> of them.  After a reboot on the surviving disk, recovery
  returns, and every block outside the log has its contents from before the transaction if the
  header had not been written yet, and its new contents otherwise.\<close>

theorem commit_crash_atomic:
  assumes "log_ready me s" and "commit me s = Ret s'" and "disk_writes s' = disk_writes s @ ws"
    and "rebooted me s (apply_writes (memdisk s) (take n ws)) r"
  shows "\<exists>r'. recover_from_log me r = Ret r' \<and>
    (\<forall>b < length (memdisk s). \<not> in_log (log_start s) (log_size s) b \<longrightarrow>
       memdisk r' ! b = (if n \<le> length (log_lh s) then memdisk s ! b else blk s (of_nat b)))"
proof -
  let ?st = "log_start s" let ?sz = "log_size s" let ?d = "memdisk s" let ?bs = "log_lh s" let ?h = "blk s ?st"
  let ?D = "apply_writes ?d (take n ws)"
  note d = log_readyD [OF assms(1)]
  note rb = assms(4) [unfolded rebooted_def]
  have h: "length ?h = BSIZE" by (rule length_blk [OF holdsD(1) [OF d(1)] d(8)])
  have new: "blk s (of_nat b) = ?d ! b" if "b < length ?d" "b \<notin> unat ` set ?bs" for b
  proof -
    have "unat (of_nat b :: u32) = b" using that(1) d(4) by (simp add: unat_of_nat entries_ok_def)
    then show ?thesis using that(2) blk_on_disk [OF d(1), of "of_nat b"] d(3) by force
  qed
  have ws: "ws = (if ?bs = [] then [] else commit_writes ?st ?bs (blk s))"
  proof (cases "?bs = []")
    case True
    then show ?thesis using assms(2,3) by (simp add: commit_def)
  next
    case False
    then show ?thesis using assms(2,3) commit_ok [OF assms(1) False] by (metis outcome.inject(1) same_append_eq)
  qed
  note cr = crash_cases [OF d(4,6) h ws refl, where n = n]
  have e: "entries_ok (log_start r) ?sz (length (memdisk r)) (header_list (memdisk r ! unat (log_start r)))"
    using cr(1) rb by simp
  obtain r' where r': "recover_from_log me r = Ret r'" "memdisk r' = recovered ?st ?D"
    by (rule recover_ok [OF _ _ _ e]) (use rb in auto)
  have "memdisk r' ! b = (if n \<le> length ?bs then ?d ! b else blk s (of_nat b))"
    if "b < length ?d" "\<not> in_log ?st ?sz b" for b
    using cr(2) [OF that] new [OF that(1)] r'(2) by auto
  then show ?thesis using r'(1) by blast
qed

text \<open>A disk of eight blocks whose log occupies blocks 2 to 5, with one logged block.\<close>

definition one_logged :: logst where
  "one_logged =
     \<lparr>mem = \<lambda>_. 0, freelist = 0, use_lock = True, kend = 0, kdata = 0,
      procs = [zero_proc\<lparr>p_state := RUNNING, p_pid := 1\<rparr>], nextpid = 2, initproc = Some 0, ticks = 0,
      cpu_proc = (\<lambda>_. None)(0 := Some 0), memdisk = replicate 8 (replicate BSIZE 0), disk_writes = [],
      bufs = zero_buf\<lparr>b_valid := True, b_dirty := True, b_dev := 1, b_blockno := 6, b_data := replicate BSIZE 5\<rparr>
               # replicate 29 zero_buf,
      lru = [0..<NBUF], log_start = 2, log_size = 4, log_outstanding = 0, log_committing = True, log_dev = 1,
      log_lh = [6]\<rparr>"

definition fresh_boot :: "bytes list \<Rightarrow> logst" where
  "fresh_boot d = one_logged\<lparr>memdisk := d, bufs := replicate NBUF zero_buf, log_lh := []\<rparr>"

lemma header_list_zero [simp]: "header_list (replicate BSIZE 0) = []"
  by (simp add: header_list_def get32_def le32_def BSIZE_def)

lemma one_logged_ready: "log_ready 0 one_logged"
proof -
  have p: "pinned one_logged = {0}"
    by (auto simp: pinned_def one_logged_def nth_Cons' zero_buf_def NBUF_def)
  have "one_copy (bufs one_logged)"
    by (auto simp: one_copy_def one_logged_def nth_Cons' zero_buf_def)
  then have "holds 0 {} one_logged"
    by (auto simp: holds_def cache_ok_def buf_ok_def one_logged_def zero_buf_def initsleeplock_def nth_Cons' NBUF_def)
  moreover have "pblocks one_logged = {6}" unfolding pblocks_def p by (simp add: bno_def one_logged_def)
  ultimately show ?thesis
    by (simp add: log_ready_def one_logged_def entries_ok_def in_log_def NBUF_def del: replicate.simps)
qed

lemma fresh_boot_rebooted:
  assumes "\<forall>b \<in> set d. length b = BSIZE"
  shows "rebooted 0 one_logged d (fresh_boot d)"
  using assms
  by (auto simp: rebooted_def holds_def cache_ok_def one_copy_def buf_ok_def zero_buf_def initsleeplock_def
      pinned_def pblocks_def fresh_boot_def one_logged_def NBUF_def)

theorem commit_installs_witness:
  "\<exists>s'. commit 0 one_logged = Ret s' \<and> log_ready 0 s' \<and> log_lh s' = [] \<and>
     (\<forall>b. unat b < length (memdisk one_logged) \<longrightarrow> \<not> in_log (log_start one_logged) (log_size one_logged) (unat b) \<longrightarrow>
        memdisk s' ! unat b = blk one_logged b \<and> blk s' b = blk one_logged b)"
  by (rule commit_installs [OF one_logged_ready])

lemma apply_writes_lengths:
  "\<forall>b \<in> set d. length b = n \<Longrightarrow> \<forall>w \<in> set ws. length (snd w) = n \<Longrightarrow> \<forall>b \<in> set (apply_writes d ws). length b = n"
proof (induction d ws rule: apply_writes.induct)
  case (2 d b x ws)
  have "\<forall>c \<in> set (d[b := x]). length c = n" using 2 set_update_subset_insert [of d b x] by auto
  then show ?case using 2 by simp
qed simp

theorem commit_crash_atomic_witness:
  "\<exists>s' ws r'. commit 0 one_logged = Ret s' \<and> disk_writes s' = disk_writes one_logged @ ws \<and>
     recover_from_log 0 (fresh_boot (apply_writes (memdisk one_logged) (take 2 ws))) = Ret r' \<and>
     memdisk r' ! 6 = replicate BSIZE 5"
proof -
  have ne: "log_lh one_logged \<noteq> []" by (simp add: one_logged_def)
  let ?W = "commit_writes (log_start one_logged) (log_lh one_logged) (blk one_logged)"
  obtain s' where s': "commit 0 one_logged = Ret s'" "disk_writes s' = disk_writes one_logged @ ?W"
    by (rule commit_ok [OF one_logged_ready ne]) blast
  have b6: "blk one_logged 6 = replicate BSIZE 5" by (simp add: blk_def one_logged_def zero_buf_def)
  have b2: "length (blk one_logged 2) = BSIZE"
    by (rule length_blk [OF holdsD(1) [OF log_readyD(1) [OF one_logged_ready]]]) (simp add: one_logged_def)
  have l: "\<forall>b \<in> set (apply_writes (memdisk one_logged) (take 2 ?W)). length b = BSIZE"
    by (rule apply_writes_lengths)
      (use b2 b6 in \<open>auto simp: one_logged_def commit_writes_def dest!: in_set_takeD\<close>)
  note c = commit_crash_atomic [OF one_logged_ready s' fresh_boot_rebooted [OF l]]
  have "length (memdisk one_logged) = 8" "\<not> in_log (log_start one_logged) (log_size one_logged) 6"
    "length (log_lh one_logged) = 1" by (simp_all add: one_logged_def in_log_def)
  moreover obtain r' where "recover_from_log 0 (fresh_boot (apply_writes (memdisk one_logged) (take 2 ?W))) = Ret r'"
    "\<forall>b < length (memdisk one_logged). \<not> in_log (log_start one_logged) (log_size one_logged) b \<longrightarrow>
       memdisk r' ! b = (if 2 \<le> length (log_lh one_logged) then memdisk one_logged ! b else blk one_logged (of_nat b))"
    using c by blast
  ultimately have "recover_from_log 0 (fresh_boot (apply_writes (memdisk one_logged) (take 2 ?W))) = Ret r'"
    "memdisk r' ! 6 = replicate BSIZE 5" using b6 by simp_all
  then show ?thesis using s' by blast
qed

text \<open>C2: Recovery itself may crash: if recovery makes the disk writes \<open>ws\<close> and the machine stops after
  any number of them, running recovery again on the surviving disk returns and gives every block
  outside the log the contents that the uninterrupted recovery gives it.\<close>

theorem recovery_crash_idempotent:
  assumes "rebooted me r d r" and "entries_ok (log_start r) sz (length d) (header_list (d ! unat (log_start r)))"
    and "recover_from_log me r = Ret r'" and "disk_writes r' = disk_writes r @ ws"
    and "rebooted me r (apply_writes d (take n ws)) q"
  shows "\<exists>q'. recover_from_log me q = Ret q' \<and>
    (\<forall>b < length d. \<not> in_log (log_start r) sz b \<longrightarrow> memdisk q' ! b = memdisk r' ! b)"
proof -
  let ?st = "log_start r"
  note rb = assms(1) [unfolded rebooted_def] and qb = assms(5) [unfolded rebooted_def]
  have l: "length (d ! unat ?st) = BSIZE"
    using rb entries_ok_start(1) [OF assms(2)] holdsD(1) [of me "{}" r] by (auto simp: cache_ok_def)
  obtain r1 where r1: "recover_from_log me r = Ret r1" "memdisk r1 = recovered ?st d"
    "disk_writes r1 = disk_writes r @ install_writes ?st 0 (header_list (d ! unat ?st)) (\<lambda>x. d ! unat x) @
       [(unat ?st, header_bytes [] (d ! unat ?st))]"
    by (rule recover_ok [of me r sz]) (use rb assms(2) in auto)
  then have ws: "ws = install_writes ?st 0 (header_list (d ! unat ?st)) (\<lambda>x. d ! unat x) @
      [(unat ?st, header_bytes [] (d ! unat ?st))]" using assms(3,4) by simp
  note cr = recovery_crash [OF assms(2) l ws refl, where n = n]
  obtain q1 where "recover_from_log me q = Ret q1" "memdisk q1 = recovered ?st (apply_writes d (take n ws))"
    by (rule recover_ok [of me q sz]) (use qb cr(1) in auto)
  then show ?thesis using cr(2) r1 assms(3) by (intro exI [of _ q1]) auto
qed

theorem recovery_crash_idempotent_witness:
  "\<exists>r' ws q'. recover_from_log 0 (fresh_boot (replicate 8 (replicate BSIZE 0))) = Ret r' \<and>
     recover_from_log 0 (fresh_boot (apply_writes (replicate 8 (replicate BSIZE 0)) (take 1 ws))) = Ret q' \<and>
     memdisk q' ! 7 = memdisk r' ! 7"
proof -
  let ?d = "replicate 8 (replicate BSIZE 0)" let ?r = "fresh_boot ?d"
  have st: "log_start ?r = 2" by (simp add: fresh_boot_def one_logged_def)
  have rb: "rebooted 0 ?r ?d ?r"
    using fresh_boot_rebooted [of ?d] by (simp add: rebooted_def fresh_boot_def)
  have e: "entries_ok (log_start ?r) 4 (length ?d) (header_list (?d ! unat (log_start ?r)))"
    by (simp add: st entries_ok_def NBUF_def)
  let ?ws = "[(2, header_bytes [] (replicate BSIZE 0))]"
  obtain r' where r': "recover_from_log 0 ?r = Ret r'" "disk_writes r' = disk_writes ?r @ ?ws"
    by (rule recover_ok [of 0 ?r 4])
      (use rb e st in \<open>auto simp: rebooted_def fresh_boot_def nth_Cons'\<close>)
  have l: "\<forall>b \<in> set (apply_writes ?d (take 1 ?ws)). length b = BSIZE"
    by (rule apply_writes_lengths) auto
  have q: "rebooted 0 ?r (apply_writes ?d (take 1 ?ws)) (fresh_boot (apply_writes ?d (take 1 ?ws)))"
    using fresh_boot_rebooted [OF l] by (simp add: rebooted_def fresh_boot_def)
  from recovery_crash_idempotent [OF rb e r' q] obtain q' where
    "recover_from_log 0 (fresh_boot (apply_writes ?d (take 1 ?ws))) = Ret q'" "memdisk q' ! 7 = memdisk r' ! 7"
    by (auto simp: st in_log_def)
  then show ?thesis using r'(1) by blast
qed

end
