(* ===== verification/Transaction.thy ===== *)
theory Transaction
  imports Log
begin

text \<open>
  What a file system operation relies on between \<open>begin_op\<close> and \<open>end_op\<close>: with room left in the
  log and in the cache, reading a block, changing it with \<open>log_write\<close> and releasing it return
  normally and change the contents of exactly that block.  The second part shows that the
  reservations of \<open>begin_op\<close> (\<^verbatim>\<open>src/xv6/log.c\<close>) keep the log from overflowing.
\<close>

section \<open>Inside a transaction\<close>

text \<open>The caller is inside a transaction, holds the buffers \<open>H\<close>, and may log \<open>m\<close> more blocks and hold
  three buffers at a time.\<close>

definition txn :: "nat \<Rightarrow> nat set \<Rightarrow> nat \<Rightarrow> 'a logst_scheme \<Rightarrow> bool" where
  "txn me H m s \<longleftrightarrow>
     holds me H s \<and> log_dev s = 1 \<and> pblocks s = set (log_lh s) \<and> 1 \<le> log_outstanding s \<and>
     length (log_lh s) + m + 3 \<le> NBUF \<and> int (length (log_lh s) + m) < log_size s \<and>
     entries_ok (log_start s) (log_size s) (length (memdisk s)) (log_lh s) \<and>
     header_list (memdisk s ! unat (log_start s)) = []"

text \<open>A block of the file system: on the disk and outside the log.\<close>

definition fs_block :: "'a logst_scheme \<Rightarrow> u32 \<Rightarrow> bool" where
  "fs_block s b \<longleftrightarrow> unat b < length (memdisk s) \<and> \<not> in_log (log_start s) (log_size s) (unat b)"

text \<open>What the operations inside a transaction leave alone.\<close>

definition txn_frame :: "'a logst_scheme \<Rightarrow> 'a logst_scheme \<Rightarrow> bool" where
  "txn_frame s s' \<longleftrightarrow>
     (\<exists>ps bs l lh. s' = s\<lparr>procs := ps, bufs := bs, lru := l, log_lh := lh\<rparr> \<and> map p_pid ps = map p_pid (procs s))"

lemma txn_frameI:
  "s' = s\<lparr>procs := ps, bufs := bs, lru := l, log_lh := lh\<rparr> \<Longrightarrow> map p_pid ps = map p_pid (procs s) \<Longrightarrow> txn_frame s s'"
  by (auto simp: txn_frame_def)

lemma txn_frame_refl [simp]: "txn_frame s s"
  by (rule txn_frameI [where ps = "procs s" and bs = "bufs s" and l = "lru s" and lh = "log_lh s"]) simp_all

lemma txn_frame_trans [trans]:
  assumes "txn_frame s t" "txn_frame t u" shows "txn_frame s u"
proof -
  from assms(1) obtain ps bs l lh where
    t: "t = s\<lparr>procs := ps, bufs := bs, lru := l, log_lh := lh\<rparr>" "map p_pid ps = map p_pid (procs s)"
    by (auto simp: txn_frame_def)
  from assms(2) obtain ps' bs' l' lh' where
    u: "u = t\<lparr>procs := ps', bufs := bs', lru := l', log_lh := lh'\<rparr>" "map p_pid ps' = map p_pid (procs t)"
    by (auto simp: txn_frame_def)
  show ?thesis using t u by (intro txn_frameI [where ps = ps' and bs = bs' and l = l' and lh = lh']) simp_all
qed

lemma bio_frame_txn: "bio_frame s s' \<Longrightarrow> txn_frame s (s' :: 'a logst_scheme)"
  unfolding bio_frame_def
proof (elim exE conjE)
  fix ps bs l assume "s' = s\<lparr>procs := ps, bufs := bs, lru := l\<rparr>" "map p_pid ps = map p_pid (procs s)"
  then show "txn_frame s s'" by (intro txn_frameI [where ps = ps and bs = bs and l = l and lh = "log_lh s"]) simp_all
qed

lemma txn_frame_simps:
  assumes "txn_frame s s'"
  shows "memdisk s' = memdisk s" "disk_writes s' = disk_writes s" "log_start s' = log_start s" "log_size s' = log_size s"
    "log_dev s' = log_dev s" "log_outstanding s' = log_outstanding s" "log_committing s' = log_committing s"
    "logst.more s' = logst.more s" "length (procs s') = length (procs s)" "fs_block s' = fs_block s"
  using assms by (auto simp: txn_frame_def fs_block_def fun_eq_iff dest: map_eq_imp_length_eq)

lemma txn_bio_frame:
  assumes "txn me H m s" "holds me H' s'" "pblocks s' = pblocks s" "bio_frame s s'"
  shows "txn me H' m s'"
  using assms log_more [OF bio_frame_simps(3) [OF assms(4)]] bio_frame_simps(1) [OF assms(4)]
  by (simp add: txn_def)

lemma txn_bread:
  assumes t: "txn me H m s" and b: "unat b < length (memdisk s)" "b \<notin> bno s ` H" "card H < 3"
  obtains k s' where "bread me 1 b s = Ret (k, s')" "k \<notin> H" "txn me (insert k H) m s'" "blk s' = blk s"
    "txn_frame s s'" "bno s' k = b" "bdata k s' = blk s b" "saved s' k" "\<And>j. j \<in> H \<Longrightarrow> bufs s' ! j = bufs s ! j"
    "log_lh s' = log_lh s"
proof -
  have h: "holds me H s" and p: "card H + card (pblocks s) < NBUF"
    using t b(3) by (auto simp: txn_def entries_ok_def distinct_card)
  from cache.rd_ok [OF h b(1,2)] p obtain k s' where
    r: "bread me 1 b s = Ret (k, s')" "k \<notin> H" "holds me (insert k H) s'" "blk s' = blk s" "pblocks s' = pblocks s"
      "bio_frame s s'" "bno s' k = b" "bdata k s' = blk s b" "saved s' k" "\<forall>j \<in> H. bufs s' ! j = bufs s ! j" by blast
  show thesis
    using that [OF r(1,2) txn_bio_frame [OF t r(3,5,6)] r(4) bio_frame_txn [OF r(6)] r(7-9)] r(10)
      log_more(6) [OF bio_frame_simps(3) [OF r(6)]] by blast
qed

lemma txn_set:
  assumes t: "txn me H m s" and k: "k \<in> H" "length d = BSIZE"
  shows "txn me H m (set_bdata k d s)" "blk (set_bdata k d s) = (blk s)(bno s k := d)" "txn_frame s (set_bdata k d s)"
    "bno (set_bdata k d s) = bno s" "\<And>j. j \<noteq> k \<Longrightarrow> bufs (set_bdata k d s) ! j = bufs s ! j"
    "bdata k (set_bdata k d s) = d" "log_lh (set_bdata k d s) = log_lh s"
proof -
  have h: "holds me H s" using t by (simp add: txn_def)
  note w = set_bdata_holds [OF h k]
  show "txn me H m (set_bdata k d s)" by (rule txn_bio_frame [OF t w(1,3,4)])
  show "txn_frame s (set_bdata k d s)" by (rule bio_frame_txn [OF w(4)])
  show "log_lh (set_bdata k d s) = log_lh s" by (rule log_more(6) [OF bio_frame_simps(3) [OF w(4)]])
qed (use set_bdata_holds [OF _ k, of me s] t in \<open>auto simp: txn_def\<close>)

lemma txn_brelse:
  assumes t: "txn me H m s" and k: "k \<in> H" "saved s k"
  obtains s' where "brelse me k s = Ret s'" "txn me (H - {k}) m s'" "blk s' = blk s" "txn_frame s s'"
    "bno s' = bno s" "\<And>j. j \<noteq> k \<Longrightarrow> bufs s' ! j = bufs s ! j" "log_lh s' = log_lh s"
proof -
  have h: "holds me H s" using t by (simp add: txn_def)
  obtain s' where l: "brelse me k s = Ret s'" "holds me (H - {k}) s'" "blk s' = blk s" "pblocks s' = pblocks s"
    "bio_frame s s'" "bno s' = bno s" "\<And>j. j \<noteq> k \<Longrightarrow> bufs s' ! j = bufs s ! j"
    by (rule brelse_holds [OF h k]) blast
  show thesis
    using that [OF l(1) txn_bio_frame [OF t l(2,4,5)] l(3) bio_frame_txn [OF l(5)] l(6)] l(7)
      log_more(6) [OF bio_frame_simps(3) [OF l(5)]] by blast
qed

text \<open>Log absorption.\<close>

definition absorb :: "u32 \<Rightarrow> u32 list \<Rightarrow> u32 list" where
  "absorb b lh = (if b \<in> set lh then lh else lh @ [b])"

lemma log_write_absorb:
  "log_write k s =
     (if int (length (log_lh s)) \<ge> LOGSIZE \<or> int (length (log_lh s)) \<ge> log_size s - 1 then Panic ''too big a transaction''
      else if log_outstanding s < 1 then Panic ''log_write outside of trans''
      else Ret (upd_buf k (\<lambda>b. b\<lparr>b_dirty := True\<rparr>) (s\<lparr>log_lh := absorb (bno s k) (log_lh s)\<rparr>)))"
proof -
  have "(case scan (\<lambda>x. x = bno s k) (log_lh s) of Some i \<Rightarrow> (log_lh s)[i := bno s k] | None \<Rightarrow> log_lh s @ [bno s k]) =
      absorb (bno s k) (log_lh s)"
  proof (cases "scan (\<lambda>x. x = bno s k) (log_lh s)")
    case None
    then have "bno s k \<notin> set (log_lh s)" by (auto simp: scan_None_iff)
    then show ?thesis using None by (simp add: absorb_def)
  next
    case (Some i)
    then have i: "i < length (log_lh s)" "log_lh s ! i = bno s k" using scan_SomeD [OF Some] by auto
    then have "bno s k \<in> set (log_lh s)" "(log_lh s)[i := bno s k] = log_lh s"
      using nth_mem [OF i(1)] list_update_id [of "log_lh s" i] by auto
    then show ?thesis using Some by (simp add: absorb_def)
  qed
  from this [unfolded bno_def] show ?thesis by (simp add: log_write_def Let_def bno_def)
qed

lemma txn_log_write:
  assumes t: "txn me H (Suc m) s" and k: "k \<in> H" "fs_block s (bno s k)"
  obtains s' where "log_write k s = Ret s'" "txn me H m s'" "blk s' = blk s" "txn_frame s s'" "saved s' k"
    "bno s' = bno s" "bdata k s' = bdata k s" "\<And>j. j \<noteq> k \<Longrightarrow> bufs s' ! j = bufs s ! j"
    "log_lh s' = absorb (bno s k) (log_lh s)"
proof -
  let ?lh = "absorb (bno s k) (log_lh s)" let ?s = "s\<lparr>log_lh := absorb (bno s k) (log_lh s)\<rparr>"
  have h: "holds me H ?s" using t by (simp add: txn_def)
  note p = pin_holds [OF h k(1)]
  let ?t = "upd_buf k (\<lambda>b. b\<lparr>b_dirty := True\<rparr>) ?s"
  have lw: "log_write k s = Ret ?t"
    using t by (simp add: log_write_absorb txn_def LOGSIZE_def MAXOPBLOCKS_def NBUF_def)
  have lh: "log_lh ?t = ?lh" by (simp add: upd_buf_def)
  have a: "distinct ?lh" "set ?lh = insert (bno s k) (set (log_lh s))" "length ?lh \<le> Suc (length (log_lh s))"
    using t by (auto simp: absorb_def txn_def entries_ok_def)
  have e: "entries_ok (log_start s) (log_size s) (length (memdisk s)) ?lh"
    using a t k(2) by (auto simp: entries_ok_def txn_def fs_block_def)
  have "pblocks ?t = set ?lh" using p(3) t a(2) by (simp add: txn_def)
  moreover have "memdisk ?t = memdisk s" "log_start ?t = log_start s" "log_size ?t = log_size s" "log_dev ?t = log_dev s"
    "log_outstanding ?t = log_outstanding s"
    by (simp_all add: upd_buf_def)
  ultimately have "txn me H m ?t"
    using t p(1) a(3) e lh by (simp add: txn_def)
  moreover have "txn_frame s ?t"
    by (rule txn_frameI [where ps = "procs s" and bs = "bufs ?t" and l = "lru s" and lh = ?lh]) (simp_all add: upd_buf_def)
  moreover have "saved ?t k" "bdata k ?t = bdata k s" "blk ?t = blk s" "bno ?t = bno s" using p by simp_all
  moreover have "\<And>j. j \<noteq> k \<Longrightarrow> bufs ?t ! j = bufs s ! j" by (simp add: upd_buf_def)
  ultimately show thesis using that [OF lw] lh by blast
qed

section \<open>The interface of the log\<close>

text \<open>
  The contract between the log and the file system, and its two standard clients: looking at a
  block, and the sequence \<open>bread\<close>, change the data, \<open>log_write\<close>, \<open>brelse\<close> that \<^verbatim>\<open>log.c\<close> documents.
\<close>

locale logged_store =
  fixes inv :: "nat set \<Rightarrow> nat \<Rightarrow> 's \<Rightarrow> bool" and contents :: "'s \<Rightarrow> u32 \<Rightarrow> bytes" and blocks :: "'s \<Rightarrow> nat"
    and usable :: "'s \<Rightarrow> u32 \<Rightarrow> bool" and frame :: "'s \<Rightarrow> 's \<Rightarrow> bool"
    and peek :: "nat \<Rightarrow> 's \<Rightarrow> 'b" and get :: "nat \<Rightarrow> 's \<Rightarrow> bytes" and blockof :: "'s \<Rightarrow> nat \<Rightarrow> u32"
    and clean :: "'s \<Rightarrow> nat \<Rightarrow> bool"
    and rd :: "u32 \<Rightarrow> 's \<Rightarrow> (nat \<times> 's) outcome" and wr :: "nat \<Rightarrow> bytes \<Rightarrow> 's \<Rightarrow> 's"
    and lg :: "nat \<Rightarrow> 's \<Rightarrow> 's outcome" and rel :: "nat \<Rightarrow> 's \<Rightarrow> 's outcome"
  assumes frame_trans: "frame s t \<Longrightarrow> frame t u \<Longrightarrow> frame s u"
    and frame_usable: "frame s t \<Longrightarrow> usable t = usable s" and usable_block: "usable s b \<Longrightarrow> unat b < blocks s"
    and rd_law: "inv H m s \<Longrightarrow> unat b < blocks s \<Longrightarrow> b \<notin> blockof s ` H \<Longrightarrow> card H < 3 \<Longrightarrow>
      \<exists>k s'. rd b s = Ret (k, s') \<and> k \<notin> H \<and> inv (insert k H) m s' \<and> contents s' = contents s \<and> frame s s' \<and>
        blockof s' k = b \<and> get k s' = contents s b \<and> clean s' k \<and> (\<forall>j \<in> H. peek j s' = peek j s)"
    and wr_law: "inv H m s \<Longrightarrow> k \<in> H \<Longrightarrow> length d = BSIZE \<Longrightarrow>
      inv H m (wr k d s) \<and> contents (wr k d s) = (contents s)(blockof s k := d) \<and> frame s (wr k d s) \<and>
        blockof (wr k d s) k = blockof s k \<and> (\<forall>j. j \<noteq> k \<longrightarrow> peek j (wr k d s) = peek j s)"
    and lg_law: "inv H (Suc m) s \<Longrightarrow> k \<in> H \<Longrightarrow> usable s (blockof s k) \<Longrightarrow>
      \<exists>s'. lg k s = Ret s' \<and> inv H m s' \<and> contents s' = contents s \<and> frame s s' \<and> clean s' k \<and>
        (\<forall>j. j \<noteq> k \<longrightarrow> peek j s' = peek j s)"
    and rel_law: "inv H m s \<Longrightarrow> k \<in> H \<Longrightarrow> clean s k \<Longrightarrow>
      \<exists>s'. rel k s = Ret s' \<and> inv (H - {k}) m s' \<and> contents s' = contents s \<and> frame s s' \<and>
        (\<forall>j. j \<noteq> k \<longrightarrow> peek j s' = peek j s)"
begin

lemma look:
  assumes "inv H m s" "unat b < blocks s" "b \<notin> blockof s ` H" "card H < 3"
  obtains k s1 s2 where "rd b s = Ret (k, s1)" "get k s1 = contents s b" "rel k s1 = Ret s2" "inv H m s2"
    "contents s2 = contents s" "frame s s1" "frame s s2" "\<And>j. j \<in> H \<Longrightarrow> peek j s2 = peek j s" "contents s1 = contents s"
proof -
  from rd_law [OF assms] obtain k s1 where r: "rd b s = Ret (k, s1)" "k \<notin> H" "inv (insert k H) m s1"
    "contents s1 = contents s" "frame s s1" "get k s1 = contents s b" "clean s1 k" "\<forall>j \<in> H. peek j s1 = peek j s" by blast
  from rel_law [OF r(3) insertI1 r(7)] obtain s2 where l: "rel k s1 = Ret s2" "inv (insert k H - {k}) m s2"
    "contents s2 = contents s1" "frame s1 s2" "\<forall>j. j \<noteq> k \<longrightarrow> peek j s2 = peek j s1" by blast
  have "insert k H - {k} = H" using r(2) by blast
  then show thesis using that [OF r(1,6) l(1)] l r frame_trans by metis
qed

lemma finish:
  assumes i: "inv (insert k H) (Suc m) s" and k: "k \<notin> H" "usable s (blockof s k)" and d: "length d = BSIZE"
  obtains s1 s2 where "lg k (wr k d s) = Ret s1" "rel k s1 = Ret s2" "inv H m s2"
    "contents s2 = (contents s)(blockof s k := d)" "frame s s1" "frame s s2" "\<And>j. j \<noteq> k \<Longrightarrow> peek j s2 = peek j s"
    "contents s1 = (contents s)(blockof s k := d)"
proof -
  note w = wr_law [OF i insertI1 d]
  have u: "usable (wr k d s) (blockof (wr k d s) k)" using w k(2) frame_usable by metis
  from lg_law [OF conjunct1 [OF w] insertI1 u] obtain s1 where g: "lg k (wr k d s) = Ret s1" "inv (insert k H) m s1"
    "contents s1 = contents (wr k d s)" "frame (wr k d s) s1" "clean s1 k" "\<forall>j. j \<noteq> k \<longrightarrow> peek j s1 = peek j (wr k d s)" by blast
  from rel_law [OF g(2) insertI1 g(5)] obtain s2 where l: "rel k s1 = Ret s2" "inv (insert k H - {k}) m s2"
    "contents s2 = contents s1" "frame s1 s2" "\<forall>j. j \<noteq> k \<longrightarrow> peek j s2 = peek j s1" by blast
  have "insert k H - {k} = H" using k(1) by blast
  then show thesis using that [OF g(1) l(1)] l g w frame_trans by metis
qed

lemma modify:
  assumes "inv H (Suc m) s" "usable s b" "b \<notin> blockof s ` H" "card H < 3" "length d = BSIZE"
  obtains k s1 s2 s3 where "rd b s = Ret (k, s1)" "get k s1 = contents s b" "lg k (wr k d s1) = Ret s2" "rel k s2 = Ret s3"
    "inv H m s3" "contents s3 = (contents s)(b := d)" "frame s s1" "frame s s2" "frame s s3"
    "\<And>j. j \<in> H \<Longrightarrow> peek j s3 = peek j s" "contents s1 = contents s"
proof -
  from rd_law [OF assms(1) usable_block [OF assms(2)] assms(3,4)] obtain k s1 where r: "rd b s = Ret (k, s1)" "k \<notin> H"
    "inv (insert k H) (Suc m) s1" "contents s1 = contents s" "frame s s1" "blockof s1 k = b" "get k s1 = contents s b"
    "\<forall>j \<in> H. peek j s1 = peek j s" by blast
  have u: "usable s1 (blockof s1 k)" using r(5,6) frame_usable assms(2) by metis
  from finish [OF r(3,2) u assms(5)] obtain s2 s3 where f: "lg k (wr k d s1) = Ret s2" "rel k s2 = Ret s3" "inv H m s3"
    "contents s3 = (contents s1)(blockof s1 k := d)" "frame s1 s2" "frame s1 s3" "\<And>j. j \<noteq> k \<Longrightarrow> peek j s3 = peek j s1" by blast
  have "peek j s3 = peek j s" if "j \<in> H" for j using that f(7) [of j] r(2,8) by auto
  then show thesis using that [OF r(1,7) f(1,2,3)] f r frame_trans by metis
qed

end

interpretation store: logged_store "txn me" blk "\<lambda>s. length (memdisk s)" fs_block txn_frame "\<lambda>k s. bufs s ! k"
  bdata bno saved "bread me 1" set_bdata log_write "brelse me"
proof unfold_locales
  show "txn_frame s t \<Longrightarrow> txn_frame t u \<Longrightarrow> txn_frame s u" for s t u :: "'a logst_scheme" by (rule txn_frame_trans)
  show "txn_frame s t \<Longrightarrow> fs_block t = fs_block s" for s t :: "'a logst_scheme" by (rule txn_frame_simps(10))
  show "fs_block s b \<Longrightarrow> unat b < length (memdisk s)" for s :: "'a logst_scheme" and b by (simp add: fs_block_def)
next
  fix H m and s :: "'a logst_scheme" and b
  assume a: "txn me H m s" "unat b < length (memdisk s)" "b \<notin> bno s ` H" "card H < 3"
  show "\<exists>k s'. bread me 1 b s = Ret (k, s') \<and> k \<notin> H \<and> txn me (insert k H) m s' \<and> blk s' = blk s \<and> txn_frame s s' \<and>
      bno s' k = b \<and> bdata k s' = blk s b \<and> saved s' k \<and> (\<forall>j \<in> H. bufs s' ! j = bufs s ! j)"
    by (rule txn_bread [OF a]) blast
next
  fix H m and s :: "'a logst_scheme" and k and d :: bytes
  assume a: "txn me H m s" "k \<in> H" "length d = BSIZE"
  show "txn me H m (set_bdata k d s) \<and> blk (set_bdata k d s) = (blk s)(bno s k := d) \<and> txn_frame s (set_bdata k d s) \<and>
      bno (set_bdata k d s) k = bno s k \<and> (\<forall>j. j \<noteq> k \<longrightarrow> bufs (set_bdata k d s) ! j = bufs s ! j)"
    using txn_set [OF a] by simp
next
  fix H m and s :: "'a logst_scheme" and k
  assume a: "txn me H (Suc m) s" "k \<in> H" "fs_block s (bno s k)"
  show "\<exists>s'. log_write k s = Ret s' \<and> txn me H m s' \<and> blk s' = blk s \<and> txn_frame s s' \<and> saved s' k \<and>
      (\<forall>j. j \<noteq> k \<longrightarrow> bufs s' ! j = bufs s ! j)"
    by (rule txn_log_write [OF a]) blast
next
  fix H m and s :: "'a logst_scheme" and k
  assume a: "txn me H m s" "k \<in> H" "saved s k"
  show "\<exists>s'. brelse me k s = Ret s' \<and> txn me (H - {k}) m s' \<and> blk s' = blk s \<and> txn_frame s s' \<and>
      (\<forall>j. j \<noteq> k \<longrightarrow> bufs s' ! j = bufs s ! j)"
    by (rule txn_brelse [OF a]) blast
qed

section \<open>Reservations\<close>

text \<open>
  Runs of the log in which every operation logs at most \<open>MAXOPBLOCKS\<close> blocks: \<open>rs\<close> lists, for the
  operations between \<open>begin_op\<close> and \<open>end_op\<close>, how many blocks each may still log.
\<close>

inductive log_run :: "nat list \<Rightarrow> 'a logst_scheme \<Rightarrow> bool" where
  idle: "log_lh s = [] \<Longrightarrow> log_outstanding s = 0 \<Longrightarrow> log_run [] s"
| start: "log_run rs s \<Longrightarrow> begin_op s = Ret s' \<Longrightarrow> log_run (nat MAXOPBLOCKS # rs) s'"
| logged: "log_run rs s \<Longrightarrow> i < length rs \<Longrightarrow> 0 < rs ! i \<Longrightarrow> log_write k s = Ret s' \<Longrightarrow>
    log_run (rs[i := rs ! i - 1]) s'"
| stop: "log_run rs s \<Longrightarrow> i < length rs \<Longrightarrow> end_op me s = Ret s' \<Longrightarrow> log_run (take i rs @ drop (Suc i) rs) s'"

text \<open>The cache never touches the state of the log.\<close>

lemma bio_keeps_log:
  "iderw me k s = Ret s' \<Longrightarrow> bio.more s' = bio.more s"
  "bwrite me k s = Ret s' \<Longrightarrow> bio.more s' = bio.more s"
  "brelse me k s = Ret s' \<Longrightarrow> bio.more s' = bio.more s"
  "bget me d b s = Ret (k, s') \<Longrightarrow> bio.more s' = bio.more s"
  "bread me d b s = Ret (k, s') \<Longrightarrow> bio.more s' = bio.more s"
proof -
  show i: "bio.more s' = bio.more s" if "iderw me k s = Ret s'" for k s s'
    using that by (auto simp: iderw_def Let_def upd_buf_def split: if_splits)
  show "bio.more s' = bio.more s" if "bwrite me k s = Ret s'"
    using that by (auto simp: bwrite_def upd_buf_def split: if_splits dest!: i)
  show "bio.more s' = bio.more s" if "brelse me k s = Ret s'"
    using that by (auto simp: brelse_def releasesleep_def upd_buf_def Let_def wakeup_def wakeup1_def split: if_splits)
  show g: "bio.more s' = bio.more s" if "bget me d b s = Ret (k, s')" for k s'
    using that by (auto simp: bget_def lock_buf_def upd_buf_def split: option.splits)
  show "bio.more s' = bio.more s" if "bread me d b s = Ret (k, s')"
    using that by (auto simp: bread_def split: if_splits dest!: i g)
qed

lemma loops_keep_log:
  "write_log_loop me t bs s = Ret s' \<Longrightarrow> bio.more s' = bio.more s"
  "install_trans_loop me t bs s = Ret s' \<Longrightarrow> bio.more s' = bio.more s"
  by (induction bs arbitrary: t s) (auto dest!: bio_keeps_log simp: set_bdata_def upd_buf_def)

lemma write_head_keeps_log: "write_head me s = Ret s' \<Longrightarrow> bio.more s' = bio.more s"
  by (auto simp: write_head_def set_bdata_def upd_buf_def dest!: bio_keeps_log)

lemma commit_keeps_log:
  assumes "commit me s = Ret s'"
  shows "log_lh s' = [] \<and> log_outstanding s' = log_outstanding s \<and> log_size s' = log_size s"
proof (cases "log_lh s = []")
  case True
  then show ?thesis using assms by (simp add: commit_def)
next
  case False
  then obtain a b c where w: "write_log_loop me 0 (log_lh s) s = Ret a" "write_head me a = Ret b"
    "install_trans_loop me 0 (log_lh b) b = Ret c" "write_head me (c\<lparr>log_lh := []\<rparr>) = Ret s'"
    using assms by (auto simp: commit_def write_log_def install_trans_def)
  show ?thesis
    using log_more [OF loops_keep_log(1) [OF w(1)]] log_more [OF write_head_keeps_log [OF w(2)]]
      log_more [OF loops_keep_log(2) [OF w(3)]] log_more [OF write_head_keeps_log [OF w(4)]] by simp
qed

lemma end_op_log:
  assumes "end_op me s = Ret s'"
  shows "log_outstanding s' = log_outstanding s - 1"
    "log_lh s' = (if log_outstanding s = 1 then [] else log_lh s)"
  using assms
  by (auto simp: end_op_def Let_def wakeup_def wakeup1_def split: if_splits dest!: commit_keeps_log)

lemma sum_list_remove:
  "i < length rs \<Longrightarrow> sum_list (take i rs @ drop (Suc i) rs) \<le> sum_list (rs :: nat list)"
  by (subst (3) id_take_nth_drop [of i rs]) simp_all

lemma log_run_room:
  assumes "log_run rs s"
  shows "log_outstanding s = int (length rs)" "int (length (log_lh s) + sum_list rs) \<le> LOGSIZE"
    "\<forall>r \<in> set rs. r \<le> nat MAXOPBLOCKS"
proof -
  have "log_outstanding s = int (length rs) \<and> int (length (log_lh s) + sum_list rs) \<le> LOGSIZE \<and>
    (\<forall>r \<in> set rs. r \<le> nat MAXOPBLOCKS)"
    using assms
  proof (induction rule: log_run.induct)
    case (idle s)
    then show ?case by (simp add: LOGSIZE_def MAXOPBLOCKS_def)
  next
    case (start rs s s')
    have "sum_list rs \<le> length rs * nat MAXOPBLOCKS"
      using start.IH sum_list_mono [of rs "\<lambda>r. r" "\<lambda>_. nat MAXOPBLOCKS"] by (simp add: sum_list_triv)
    then show ?case using start by (auto simp: begin_op_def LOGSIZE_def MAXOPBLOCKS_def split: if_splits)
  next
    case (logged rs s i k s')
    have "length (absorb (bno s k) (log_lh s)) \<le> Suc (length (log_lh s))" by (simp add: absorb_def)
    moreover have "Suc (sum_list (rs[i := rs ! i - 1])) = sum_list rs"
      using logged.hyps elem_le_sum_list [OF logged.hyps(2)] by (simp add: sum_list_update)
    moreover have "\<forall>r \<in> set (rs[i := rs ! i - 1]). r \<le> nat MAXOPBLOCKS"
    proof -
      have "rs ! i - 1 \<le> nat MAXOPBLOCKS" using logged.IH nth_mem [OF logged.hyps(2)] by fastforce
      then show ?thesis using logged.IH set_update_subset_insert [of rs i "rs ! i - 1"] by auto
    qed
    ultimately show ?case
      using logged by (auto simp: log_write_absorb upd_buf_def split: if_splits)
  next
    case (stop rs s i me s')
    have "\<forall>r \<in> set (take i rs @ drop (Suc i) rs). r \<le> nat MAXOPBLOCKS"
      using stop.IH by (auto dest: in_set_takeD in_set_dropD)
    then show ?case
      using stop end_op_log [OF stop.hyps(3)] sum_list_remove [OF stop.hyps(2)]
      by (auto simp: LOGSIZE_def MAXOPBLOCKS_def)
  qed
  then show "log_outstanding s = int (length rs)" "int (length (log_lh s) + sum_list rs) \<le> LOGSIZE"
    "\<forall>r \<in> set rs. r \<le> nat MAXOPBLOCKS" by blast+
qed

section \<open>Properties\<close>

text \<open>C9: The reservations of \<open>begin_op\<close> are enough when the log has more than \<open>LOGSIZE\<close> blocks: in every
  run in which each operation logs at most \<open>MAXOPBLOCKS\<close> blocks, a \<open>log_write\<close> by an operation with
  blocks left returns and does not panic.\<close>

theorem reservation_suffices:
  assumes "log_run rs s" and "i < length rs" and "0 < rs ! i" and "LOGSIZE < log_size s"
  shows "\<exists>s'. log_write k s = Ret s'"
proof -
  note r = log_run_room [OF assms(1)]
  have "rs ! i \<le> sum_list rs" using assms(2) by (simp add: elem_le_sum_list)
  then have "int (length (log_lh s)) < LOGSIZE" using r(2) assms(3) by linarith
  then show ?thesis using r(1) assms(2,4) by (auto simp: log_write_absorb)
qed

text \<open>An idle machine with thirty cached blocks, and the same machine when three operations are under
  way and have logged the first \<open>n\<close> of them.\<close>

definition idle_log :: "int \<Rightarrow> logst" where
  "idle_log sz = one_logged\<lparr>log_lh := [], log_outstanding := 0, log_committing := False, log_size := sz,
     bufs := map (\<lambda>k. zero_buf\<lparr>b_valid := True, b_dev := 1, b_blockno := of_nat (100 + k)\<rparr>) [0..<NBUF]\<rparr>"

definition filled :: "int \<Rightarrow> nat \<Rightarrow> logst" where
  "filled sz n = (idle_log sz)\<lparr>log_outstanding := 3, log_lh := map (\<lambda>k. of_nat (100 + k)) [0..<n],
     bufs := map (\<lambda>k. zero_buf\<lparr>b_valid := True, b_dev := 1, b_blockno := of_nat (100 + k), b_dirty := k < n\<rparr>) [0..<NBUF]\<rparr>"

theorem reservation_suffices_witness:
  "\<exists>(s :: logst) s'. log_run [10] s \<and> LOGSIZE < log_size s \<and> log_write 0 s = Ret s'"
proof -
  let ?s = "(idle_log 31)\<lparr>log_outstanding := 1\<rparr>"
  have "log_run [] (idle_log 31)" by (rule log_run.idle) (simp_all add: idle_log_def)
  moreover have "begin_op (idle_log 31) = Ret ?s" by (simp add: begin_op_def idle_log_def LOGSIZE_def MAXOPBLOCKS_def)
  ultimately have r: "log_run [10] ?s" using log_run.start [of "[]" "idle_log 31" ?s] by (simp add: MAXOPBLOCKS_def)
  have sz: "LOGSIZE < log_size ?s" by (simp add: idle_log_def LOGSIZE_def MAXOPBLOCKS_def)
  moreover have "\<exists>s'. log_write 0 ?s = Ret s'" by (rule reservation_suffices [OF r, of 0]) (use sz in simp_all)
  ultimately show ?thesis using r by blast
qed

lemma filled_write:
  assumes "n < 29"
  shows "log_write n (filled 30 n) = Ret (filled 30 (Suc n))"
proof -
  let ?f = "\<lambda>m k. zero_buf\<lparr>b_valid := True, b_dev := 1, b_blockno := of_nat (100 + k) :: u32, b_dirty := k < m\<rparr>"
  have n: "n < NBUF" using assms by (simp add: NBUF_def)
  have bn: "bno (filled 30 n) n = of_nat (100 + n)" using n by (simp add: bno_def filled_def)
  have inj: "of_nat (100 + n) \<noteq> (of_nat (100 + k) :: u32)" if "k < n" for k
  proof
    assume "of_nat (100 + n) = (of_nat (100 + k) :: u32)"
    then have "unat (of_nat (100 + n) :: u32) = unat (of_nat (100 + k) :: u32)" by (rule arg_cong)
    then show False using that assms by (simp add: unat_of_nat del: of_nat_add)
  qed
  have "of_nat (100 + n) \<notin> set (log_lh (filled 30 n))" using inj by (simp add: filled_def image_iff del: of_nat_add)
  then have "absorb (of_nat (100 + n)) (log_lh (filled 30 n)) = log_lh (filled 30 (Suc n))"
    by (simp add: absorb_def filled_def del: of_nat_add)
  moreover have "(map (?f n) [0..<NBUF])[n := (?f n n)\<lparr>b_dirty := True\<rparr>] = map (?f (Suc n)) [0..<NBUF]"
  proof (rule nth_equalityI)
    fix i assume "i < length ((map (?f n) [0..<NBUF])[n := (?f n n)\<lparr>b_dirty := True\<rparr>])"
    then show "(map (?f n) [0..<NBUF])[n := (?f n n)\<lparr>b_dirty := True\<rparr>] ! i = map (?f (Suc n)) [0..<NBUF] ! i"
      using n by (cases "i = n") (simp_all add: less_Suc_eq)
  qed simp
  ultimately show ?thesis
    using assms n bn by (simp add: log_write_absorb upd_buf_def LOGSIZE_def MAXOPBLOCKS_def del: of_nat_add)
      (simp add: filled_def idle_log_def)
qed

lemma filled_run: "n \<le> 29 \<Longrightarrow> log_run [10 - n, 20 - max 10 n, 30 - max 20 n] (filled 30 n)"
proof (induction n)
  case 0
  let ?s = "\<lambda>i. (idle_log 30)\<lparr>log_outstanding := i\<rparr>"
  have step: "begin_op (?s i) = Ret (?s (i + 1))" if "i < 3" for i
    using that by (simp add: begin_op_def idle_log_def LOGSIZE_def MAXOPBLOCKS_def)
  have "log_run [] (?s 0)" by (rule log_run.idle) (simp_all add: idle_log_def)
  from log_run.start [OF log_run.start [OF log_run.start [OF this step] step] step]
  have "log_run [10, 10, 10] (?s 3)" by (simp add: MAXOPBLOCKS_def)
  moreover have "?s 3 = filled 30 0" by (simp add: filled_def idle_log_def zero_buf_def)
  ultimately show ?case by simp
next
  case (Suc n)
  let ?rs = "[10 - n, 20 - max 10 n, 30 - max 20 n]"
  have r: "log_run ?rs (filled 30 n)" using Suc by simp
  have w: "log_write n (filled 30 n) = Ret (filled 30 (Suc n))" using Suc by (intro filled_write) simp
  consider "n < 10" | "10 \<le> n \<and> n < 20" | "20 \<le> n" by linarith
  then show ?case
  proof cases
    case 1
    then have "20 - max 10 (Suc n) = 20 - max 10 n" "30 - max 20 (Suc n) = 30 - max 20 n" by (auto simp: max_def)
    then show ?thesis using 1 log_run.logged [OF r _ _ w, of 0] by simp
  next
    case 2
    then have "20 - max 10 n - 1 = 20 - max 10 (Suc n)" "30 - max 20 n = 30 - max 20 (Suc n)" "10 - Suc n = 10 - n"
      by (auto simp: max_def)
    then show ?thesis using 2 log_run.logged [OF r _ _ w, of 1] by simp
  next
    case 3
    then have "30 - max 20 n - 1 = 30 - max 20 (Suc n)" "20 - max 10 (Suc n) = 20 - max 10 n" "10 - Suc n = 10 - n"
      by (auto simp: max_def)
    then show ?thesis using 3 Suc.prems log_run.logged [OF r _ _ w, of 2] by simp
  qed
qed

text \<open>With a log of exactly \<open>LOGSIZE\<close> blocks, which is what \<^verbatim>\<open>mkfs.c\<close> makes, three admitted operations
  can panic within their reservation: the header takes a block of the log.\<close>

lemma reservation_short_by_one:
  "log_run [0, 0, 1] (filled LOGSIZE 29) \<and> log_size (filled LOGSIZE 29) = LOGSIZE \<and>
   log_write 29 (filled LOGSIZE 29) = Panic ''too big a transaction''"
  using filled_run [of 29]
  by (simp add: LOGSIZE_def MAXOPBLOCKS_def log_write_absorb) (simp add: filled_def idle_log_def)

end
