(* ===== verification/Inode.thy ===== *)
theory Inode
  imports Transaction C_Strings
begin

text \<open>
  Blocks and inodes of the file system (\<^verbatim>\<open>src/xv6/fs.c\<close>): the free-block bitmap, the inodes on disk
  and in the inode cache, and the map from file blocks to disk blocks.  An inode pointer is an index
  into \<open>icache\<close>.  The structures of \<^verbatim>\<open>src/xv6/fs.h\<close> are read and written as bytes of a block.
\<close>

section \<open>Definitions\<close>

definition NINODE :: nat where "NINODE = 50"
definition NDIRECT :: nat where "NDIRECT = 12"
definition NINDIRECT :: nat where "NINDIRECT = 128"
definition MAXFILE :: nat where "MAXFILE = NDIRECT + NINDIRECT"
definition IPB :: nat where "IPB = 8"
definition BPB :: nat where "BPB = 4096"
definition T_DIR :: u16 where "T_DIR = 1"
definition T_FILE :: u16 where "T_FILE = 2"
definition T_DEV :: u16 where "T_DEV = 3"

record dinode =
  d_type :: u16
  d_major :: u16
  d_minor :: u16
  d_nlink :: u16
  d_size :: u32
  d_addrs :: "u32 list"

record inode =
  i_dev :: u32
  i_inum :: u32
  i_ref :: int
  i_lock :: sleeplock
  i_valid :: bool
  i_type :: u16
  i_major :: u16
  i_minor :: u16
  i_nlink :: u16
  i_size :: u32
  i_addrs :: "u32 list"

definition zero_inode :: inode where
  "zero_inode =
     \<lparr>i_dev = 0, i_inum = 0, i_ref = 0, i_lock = initsleeplock, i_valid = False, i_type = 0, i_major = 0,
      i_minor = 0, i_nlink = 0, i_size = 0, i_addrs = replicate (NDIRECT + 1) 0\<rparr>"

record fsst = logst +
  sb :: superblock
  icache :: "inode list"

definition upd_inode :: "nat \<Rightarrow> (inode \<Rightarrow> inode) \<Rightarrow> 'a fsst_scheme \<Rightarrow> 'a fsst_scheme" where
  "upd_inode i f s = s\<lparr>icache := (icache s)[i := f (icache s ! i)]\<rparr>"

text \<open>\<open>IBLOCK\<close> and \<open>BBLOCK\<close> of \<^verbatim>\<open>fs.h\<close>, and \<open>(struct dinode*)bp->data + inum%IPB\<close>.\<close>

definition IBLOCK :: "u32 \<Rightarrow> superblock \<Rightarrow> u32" where
  "IBLOCK i b = i div of_nat IPB + sb_inodestart b"

definition BBLOCK :: "u32 \<Rightarrow> superblock \<Rightarrow> u32" where
  "BBLOCK b sp = b div of_nat BPB + sb_bmapstart sp"

definition dinode_off :: "u32 \<Rightarrow> nat" where
  "dinode_off inum = (unat inum mod IPB) * 64"

definition get_dinode :: "bytes \<Rightarrow> nat \<Rightarrow> dinode" where
  "get_dinode d o' =
     \<lparr>d_type = get16 d o', d_major = get16 d (o' + 2), d_minor = get16 d (o' + 4), d_nlink = get16 d (o' + 6),
      d_size = get32 d (o' + 8), d_addrs = map (\<lambda>j. get32 d (o' + 12 + 4 * j)) [0..<NDIRECT + 1]\<rparr>"

definition put_dinode :: "bytes \<Rightarrow> nat \<Rightarrow> dinode \<Rightarrow> bytes" where
  "put_dinode d o' v =
     put_list (o' + 12) (d_addrs v)
       (put32 (put16 (put16 (put16 (put16 d o' (d_type v)) (o' + 2) (d_major v)) (o' + 4) (d_minor v))
          (o' + 6) (d_nlink v)) (o' + 8) (d_size v))"

subsection \<open>Blocks\<close>

definition bzero :: "nat \<Rightarrow> u32 \<Rightarrow> u32 \<Rightarrow> 'a logst_scheme \<Rightarrow> 'a logst_scheme outcome" where
  "bzero me dev b s =
     bnd (bread me dev b s) (\<lambda>(bp, s).
     bnd (log_write bp (set_bdata bp (replicate BSIZE 0) s)) (\<lambda>s.
       brelse me bp s))"

definition bit_mask :: "nat \<Rightarrow> u8" where
  "bit_mask bi = push_bit (bi mod 8) 1"

definition bit_set :: "bytes \<Rightarrow> nat \<Rightarrow> bool" where
  "bit_set d bi \<longleftrightarrow> d ! (bi div 8) AND bit_mask bi \<noteq> 0"

text \<open>The inner loop of \<open>balloc\<close>: the first clear bit \<open>bi\<close> of the bitmap block for the blocks from \<open>b\<close>
  on that belongs to a block of the disk.\<close>

function balloc_bit :: "nat \<Rightarrow> bytes \<Rightarrow> nat \<Rightarrow> nat \<Rightarrow> nat option" where
  "balloc_bit sz d b bi =
     (if bi < BPB \<and> b + bi < sz then
        if \<not> bit_set d bi then Some bi else balloc_bit sz d b (Suc bi)
      else None)"
  by pat_completeness auto
termination by (relation "measure (\<lambda>(sz, d, b, bi). BPB - bi)") auto

fun balloc_loop :: "nat \<Rightarrow> u32 \<Rightarrow> nat list \<Rightarrow> 'a fsst_scheme \<Rightarrow> (u32 \<times> 'a fsst_scheme) outcome" where
  "balloc_loop me dev [] s = Panic ''balloc: out of blocks''"
| "balloc_loop me dev (b # bs) s =
     bnd (bread me dev (BBLOCK (of_nat b) (sb s)) s) (\<lambda>(bp, s).
       case balloc_bit (unat (sb_size (sb s))) (bdata bp s) b 0 of
         Some bi \<Rightarrow>
           (let d = bdata bp s
            in bnd (log_write bp (set_bdata bp (d[bi div 8 := d ! (bi div 8) OR bit_mask bi]) s)) (\<lambda>s.
               bnd (brelse me bp s) (\<lambda>s.
               bnd (bzero me dev (of_nat (b + bi)) s) (\<lambda>s.
                 Ret (of_nat (b + bi), s)))))
       | None \<Rightarrow> bnd (brelse me bp s) (\<lambda>s. balloc_loop me dev bs s))"

text \<open>The values of \<open>b\<close> in \<open>for(b = 0; b < sb.size; b += BPB)\<close>.\<close>

definition bitmap_starts :: "nat \<Rightarrow> nat list" where
  "bitmap_starts sz = map (\<lambda>i. i * BPB) [0..<(sz + BPB - 1) div BPB]"

definition balloc :: "nat \<Rightarrow> u32 \<Rightarrow> 'a fsst_scheme \<Rightarrow> (u32 \<times> 'a fsst_scheme) outcome" where
  "balloc me dev s = balloc_loop me dev (bitmap_starts (unat (sb_size (sb s)))) s"

definition bfree :: "nat \<Rightarrow> u32 \<Rightarrow> u32 \<Rightarrow> 'a fsst_scheme \<Rightarrow> 'a fsst_scheme outcome" where
  "bfree me dev b s =
     bnd (bread me dev (BBLOCK b (sb s)) s) (\<lambda>(bp, s).
       let bi = unat b mod BPB; d = bdata bp s
       in if \<not> bit_set d bi then Panic ''freeing free block''
          else
            bnd (log_write bp (set_bdata bp (d[bi div 8 := d ! (bi div 8) AND NOT (bit_mask bi)]) s)) (\<lambda>s.
              brelse me bp s))"

subsection \<open>Inodes\<close>

text \<open>\<open>iinit\<close> without the line it prints: this state has no console, and \<open>forkret\<close>, which calls it, prints the line.\<close>

definition iinit :: "nat \<Rightarrow> u32 \<Rightarrow> 'a fsst_scheme \<Rightarrow> 'a fsst_scheme outcome" where
  "iinit me dev s =
     bnd (readsb me dev (s\<lparr>icache := map (\<lambda>ip. ip\<lparr>i_lock := initsleeplock\<rparr>) (icache s)\<rparr>)) (\<lambda>(b, s).
       Ret (s\<lparr>sb := b\<rparr>))"

definition iget :: "u32 \<Rightarrow> u32 \<Rightarrow> 'a fsst_scheme \<Rightarrow> (nat \<times> 'a fsst_scheme) outcome" where
  "iget dev inum s =
     (case scan (\<lambda>ip. i_ref ip > 0 \<and> i_dev ip = dev \<and> i_inum ip = inum) (icache s) of
        Some i \<Rightarrow> Ret (i, upd_inode i (\<lambda>ip. ip\<lparr>i_ref := i_ref ip + 1\<rparr>) s)
      | None \<Rightarrow>
          (case scan (\<lambda>ip. i_ref ip = 0) (icache s) of
             None \<Rightarrow> Panic ''iget: no inodes''
           | Some i \<Rightarrow>
               Ret (i, upd_inode i (\<lambda>ip. ip\<lparr>i_dev := dev, i_inum := inum, i_ref := 1, i_valid := False\<rparr>) s)))"

text \<open>\<open>memset(dip, 0, sizeof(*dip)); dip->type = type\<close>.\<close>

definition zero_dinode :: "u16 \<Rightarrow> dinode" where
  "zero_dinode ty =
     \<lparr>d_type = ty, d_major = 0, d_minor = 0, d_nlink = 0, d_size = 0, d_addrs = replicate (NDIRECT + 1) 0\<rparr>"

fun ialloc_loop :: "nat \<Rightarrow> u32 \<Rightarrow> u16 \<Rightarrow> nat list \<Rightarrow> 'a fsst_scheme \<Rightarrow> (nat \<times> 'a fsst_scheme) outcome" where
  "ialloc_loop me dev ty [] s = Panic ''ialloc: no inodes''"
| "ialloc_loop me dev ty (inum # inums) s =
     bnd (bread me dev (IBLOCK (of_nat inum) (sb s)) s) (\<lambda>(bp, s).
       let o' = dinode_off (of_nat inum); d = bdata bp s
       in if get16 d o' = 0 then
            bnd (log_write bp (set_bdata bp (put_dinode d o' (zero_dinode ty)) s)) (\<lambda>s.
            bnd (brelse me bp s) (\<lambda>s.
              iget dev (of_nat inum) s))
          else bnd (brelse me bp s) (\<lambda>s. ialloc_loop me dev ty inums s))"

definition ialloc :: "nat \<Rightarrow> u32 \<Rightarrow> u16 \<Rightarrow> 'a fsst_scheme \<Rightarrow> (nat \<times> 'a fsst_scheme) outcome" where
  "ialloc me dev ty s = ialloc_loop me dev ty [1..<unat (sb_ninodes (sb s))] s"

definition inode_dinode :: "inode \<Rightarrow> dinode" where
  "inode_dinode ip =
     \<lparr>d_type = i_type ip, d_major = i_major ip, d_minor = i_minor ip, d_nlink = i_nlink ip, d_size = i_size ip,
      d_addrs = i_addrs ip\<rparr>"

definition iupdate :: "nat \<Rightarrow> nat \<Rightarrow> 'a fsst_scheme \<Rightarrow> 'a fsst_scheme outcome" where
  "iupdate me i s =
     (let ip = icache s ! i
      in bnd (bread me (i_dev ip) (IBLOCK (i_inum ip) (sb s)) s) (\<lambda>(bp, s).
         bnd (log_write bp
               (set_bdata bp (put_dinode (bdata bp s) (dinode_off (i_inum ip)) (inode_dinode ip)) s)) (\<lambda>s.
           brelse me bp s)))"

definition idup :: "nat \<Rightarrow> 'a fsst_scheme \<Rightarrow> nat \<times> 'a fsst_scheme" where
  "idup i s = (i, upd_inode i (\<lambda>ip. ip\<lparr>i_ref := i_ref ip + 1\<rparr>) s)"

definition load_dinode :: "dinode \<Rightarrow> inode \<Rightarrow> inode" where
  "load_dinode v ip =
     ip\<lparr>i_type := d_type v, i_major := d_major v, i_minor := d_minor v, i_nlink := d_nlink v,
        i_size := d_size v, i_addrs := d_addrs v, i_valid := True\<rparr>"

definition ilock :: "nat \<Rightarrow> nat \<Rightarrow> 'a fsst_scheme \<Rightarrow> 'a fsst_scheme outcome" where
  "ilock me i s =
     (if i_ref (icache s ! i) < 1 then Panic ''ilock''
      else
        bnd (acquiresleep (mypid me s) (i_lock (icache s ! i))) (\<lambda>lk.
          let s = upd_inode i (\<lambda>ip. ip\<lparr>i_lock := lk\<rparr>) s; ip = icache s ! i
          in if \<not> i_valid ip then
               bnd (bread me (i_dev ip) (IBLOCK (i_inum ip) (sb s)) s) (\<lambda>(bp, s).
                 let s = upd_inode i (load_dinode (get_dinode (bdata bp s) (dinode_off (i_inum ip)))) s
                 in bnd (brelse me bp s) (\<lambda>s.
                      if i_type (icache s ! i) = 0 then Panic ''ilock: no type'' else Ret s))
             else Ret s))"

definition iunlock :: "nat \<Rightarrow> nat \<Rightarrow> 'a fsst_scheme \<Rightarrow> 'a fsst_scheme outcome" where
  "iunlock me i s =
     (if \<not> holdingsleep (mypid me s) (i_lock (icache s ! i)) \<or> i_ref (icache s ! i) < 1 then Panic ''iunlock''
      else
        (let (lk, s) = releasesleep (InodeLock i) (i_lock (icache s ! i)) s
         in Ret (upd_inode i (\<lambda>ip. ip\<lparr>i_lock := lk\<rparr>) s)))"

subsection \<open>Inode content\<close>

definition bmap :: "nat \<Rightarrow> nat \<Rightarrow> u32 \<Rightarrow> 'a fsst_scheme \<Rightarrow> (u32 \<times> 'a fsst_scheme) outcome" where
  "bmap me i bn s =
     (let n = unat bn; dev = i_dev (icache s ! i)
      in if n < NDIRECT then
           (let addr = i_addrs (icache s ! i) ! n
            in if addr = 0 then
                 bnd (balloc me dev s) (\<lambda>(addr, s).
                   Ret (addr, upd_inode i (\<lambda>ip. ip\<lparr>i_addrs := (i_addrs ip)[n := addr]\<rparr>) s))
               else Ret (addr, s))
         else if n - NDIRECT < NINDIRECT then
           bnd (if i_addrs (icache s ! i) ! NDIRECT = 0 then
                  bnd (balloc me dev s) (\<lambda>(addr, s).
                    Ret (addr, upd_inode i (\<lambda>ip. ip\<lparr>i_addrs := (i_addrs ip)[NDIRECT := addr]\<rparr>) s))
                else Ret (i_addrs (icache s ! i) ! NDIRECT, s)) (\<lambda>(ind, s).
           bnd (bread me dev ind s) (\<lambda>(bp, s).
             let addr = get32 (bdata bp s) (4 * (n - NDIRECT))
             in if addr = 0 then
                  bnd (balloc me dev s) (\<lambda>(addr, s).
                  bnd (log_write bp (set_bdata bp (put32 (bdata bp s) (4 * (n - NDIRECT)) addr) s)) (\<lambda>s.
                  bnd (brelse me bp s) (\<lambda>s.
                    Ret (addr, s))))
                else bnd (brelse me bp s) (\<lambda>s. Ret (addr, s))))
         else Panic ''bmap: out of range'')"

fun itrunc_direct :: "nat \<Rightarrow> nat \<Rightarrow> nat list \<Rightarrow> 'a fsst_scheme \<Rightarrow> 'a fsst_scheme outcome" where
  "itrunc_direct me i [] s = Ret s"
| "itrunc_direct me i (j # js) s =
     (let ip = icache s ! i
      in if i_addrs ip ! j \<noteq> 0 then
           bnd (bfree me (i_dev ip) (i_addrs ip ! j) s) (\<lambda>s.
             itrunc_direct me i js (upd_inode i (\<lambda>ip. ip\<lparr>i_addrs := (i_addrs ip)[j := 0]\<rparr>) s))
         else itrunc_direct me i js s)"

fun itrunc_indirect :: "nat \<Rightarrow> u32 \<Rightarrow> nat \<Rightarrow> nat list \<Rightarrow> 'a fsst_scheme \<Rightarrow> 'a fsst_scheme outcome" where
  "itrunc_indirect me dev bp [] s = Ret s"
| "itrunc_indirect me dev bp (j # js) s =
     (let a = get32 (bdata bp s) (4 * j)
      in if a \<noteq> 0 then bnd (bfree me dev a s) (\<lambda>s. itrunc_indirect me dev bp js s)
         else itrunc_indirect me dev bp js s)"

definition itrunc :: "nat \<Rightarrow> nat \<Rightarrow> 'a fsst_scheme \<Rightarrow> 'a fsst_scheme outcome" where
  "itrunc me i s =
     bnd (itrunc_direct me i [0..<NDIRECT] s) (\<lambda>s.
     bnd (let dev = i_dev (icache s ! i); ind = i_addrs (icache s ! i) ! NDIRECT
          in if ind \<noteq> 0 then
               bnd (bread me dev ind s) (\<lambda>(bp, s).
               bnd (itrunc_indirect me dev bp [0..<NINDIRECT] s) (\<lambda>s.
               bnd (brelse me bp s) (\<lambda>s.
               bnd (bfree me dev ind s) (\<lambda>s.
                 Ret (upd_inode i (\<lambda>ip. ip\<lparr>i_addrs := (i_addrs ip)[NDIRECT := 0]\<rparr>) s)))))
             else Ret s) (\<lambda>s.
       iupdate me i (upd_inode i (\<lambda>ip. ip\<lparr>i_size := 0\<rparr>) s)))"

definition iput :: "nat \<Rightarrow> nat \<Rightarrow> 'a fsst_scheme \<Rightarrow> 'a fsst_scheme outcome" where
  "iput me i s =
     bnd (acquiresleep (mypid me s) (i_lock (icache s ! i))) (\<lambda>lk.
       let s = upd_inode i (\<lambda>ip. ip\<lparr>i_lock := lk\<rparr>) s; ip = icache s ! i
       in bnd (if i_valid ip \<and> i_nlink ip = 0 \<and> i_ref ip = 1 then
                 bnd (itrunc me i s) (\<lambda>s.
                 bnd (iupdate me i (upd_inode i (\<lambda>ip. ip\<lparr>i_type := 0\<rparr>) s)) (\<lambda>s.
                   Ret (upd_inode i (\<lambda>ip. ip\<lparr>i_valid := False\<rparr>) s)))
               else Ret s) (\<lambda>s.
            let (lk, s) = releasesleep (InodeLock i) (i_lock (icache s ! i)) s
            in Ret (upd_inode i (\<lambda>ip. ip\<lparr>i_lock := lk, i_ref := i_ref ip - 1\<rparr>) s)))"

definition iunlockput :: "nat \<Rightarrow> nat \<Rightarrow> 'a fsst_scheme \<Rightarrow> 'a fsst_scheme outcome" where
  "iunlockput me i s = bnd (iunlock me i s) (\<lambda>s. iput me i s)"

record stat =
  st_type :: u16
  st_dev :: int
  st_ino :: u32
  st_nlink :: u16
  st_size :: u32

definition stati :: "nat \<Rightarrow> 'a fsst_scheme \<Rightarrow> stat" where
  "stati i s =
     (let ip = icache s ! i
      in \<lparr>st_type = i_type ip, st_dev = sint (i_dev ip), st_ino = i_inum ip, st_nlink = i_nlink ip, st_size = i_size ip\<rparr>)"

end
