(* ===== verification/Console.thy ===== *)
theory Console
  imports Inode
begin

text \<open>
  The console (\<^verbatim>\<open>src/xv6/console.c\<close>) with the command history of \<^verbatim>\<open>src/xv6/prefix_predict.c\<close>: formatted
  output, the screen and the serial port, the line editor that runs in the keyboard interrupt, and
  the read and write routines of the device.  \<open>input.buf\<close> and the history are byte arrays; reading
  or writing them outside their bounds, which the source does not prevent, is the outcome
  \<open>Panic ''out of bounds''\<close>.  Characters are \<open>int\<close>s with \<open>BACKSPACE\<close> as \<open>0x100\<close>, as in the source.
\<close>

section \<open>Definitions\<close>

definition BACKSPACE :: int where "BACKSPACE = 0x100"
definition INPUT_BUF :: nat where "INPUT_BUF = 128"
definition MAX_COMMAND_NUM :: int where "MAX_COMMAND_NUM = 30"

record consst = fsst +
  panicked :: bool
  uart :: bool
  uart_out :: bytes          \<comment> \<open>bytes sent to the serial port\<close>
  crt :: "nat \<Rightarrow> u16"         \<comment> \<open>CGA memory\<close>
  crt_pos :: nat             \<comment> \<open>the cursor register of the CGA controller\<close>
  in_buf :: bytes
  in_r :: u32
  in_w :: u32
  in_e :: u32
  in_end :: u32
  command :: bytes           \<comment> \<open>the rows of \<open>command[30][128]\<close> one after the other\<close>
  command_num :: int
  size_command :: int

subsection \<open>Output\<close>

definition get_pos :: "'a consst_scheme \<Rightarrow> int" where
  "get_pos s = int (crt_pos s)"

definition change_pos :: "int \<Rightarrow> 'a consst_scheme \<Rightarrow> 'a consst_scheme" where
  "change_pos pos s = s\<lparr>crt_pos := nat (pos mod 65536)\<rparr>"

definition uartputc :: "int \<Rightarrow> 'a consst_scheme \<Rightarrow> 'a consst_scheme" where
  "uartputc c s = (if uart s then s\<lparr>uart_out := uart_out s @ [word_of_int c]\<rparr> else s)"

text \<open>\<open>memmove(crt, crt+80, ...)\<close> and \<open>memset(crt+pos, 0, ...)\<close> of a scroll.\<close>

definition scroll_up :: "int \<Rightarrow> (nat \<Rightarrow> u16) \<Rightarrow> nat \<Rightarrow> u16" where
  "scroll_up pos m k =
     (if nat pos \<le> k \<and> k < 24 * 80 then 0 else if k < 23 * 80 then m (k + 80) else m k)"

definition cgaputc :: "int \<Rightarrow> 'a consst_scheme \<Rightarrow> 'a consst_scheme outcome" where
  "cgaputc c s =
     (let pos = get_pos s;
          (pos, s) =
            (if c = 10 then (pos + (80 - pos mod 80), s)
             else if c = BACKSPACE then (if 0 < pos then pos - 1 else pos, s)
             else (pos + 1, s\<lparr>crt := (crt s)(nat pos := word_of_int (c mod 256) OR 0x0700)\<rparr>))
      in if pos < 0 \<or> pos > 25 * 80 then Panic ''pos under/overflow''
         else
           (let (pos, s) =
              (if pos div 80 \<ge> 24 then (pos - 80, s\<lparr>crt := scroll_up (pos - 80) (crt s)\<rparr>) else (pos, s));
                s = change_pos pos s
            in Ret (if c = BACKSPACE then s\<lparr>crt := (crt s)(nat pos := 0x20 OR 0x0700)\<rparr> else s)))"

definition consputc :: "int \<Rightarrow> 'a consst_scheme \<Rightarrow> 'a consst_scheme outcome" where
  "consputc c s =
     (if panicked s then Blocked
      else if c = BACKSPACE then cgaputc c (uartputc 8 (uartputc 32 (uartputc 8 s)))
      else cgaputc c (uartputc c s))"

fun consputs :: "int list \<Rightarrow> 'a consst_scheme \<Rightarrow> 'a consst_scheme outcome" where
  "consputs [] s = Ret s"
| "consputs (c # cs) s = bnd (consputc c s) (\<lambda>s. consputs cs s)"

text \<open>\<open>printint\<close>: the digits of \<open>buf\<close> in the order of the stores, least significant first, then the
  sign.  The do-while loop divides a \<open>uint\<close>; \<open>base\<close> is 10 or 16.\<close>

definition digit_char :: "nat \<Rightarrow> int" where
  "digit_char k = (if k < 10 then 48 + int k else 97 + int k - 10)"

function digits_of :: "nat \<Rightarrow> nat \<Rightarrow> int list" where
  "digits_of base x =
     digit_char (x mod base) # (if x div base \<noteq> 0 \<and> 1 < base then digits_of base (x div base) else [])"
  by pat_completeness auto
termination by (relation "measure snd") (auto intro!: div_less_dividend gr0I)

definition printint_buf :: "int \<Rightarrow> nat \<Rightarrow> bool \<Rightarrow> int list" where
  "printint_buf xx base sign =
     (let neg = sign \<and> xx < 0;
          x = unat (word_of_int (if neg then - xx else xx) :: u32)
      in digits_of base x @ (if neg then [45] else []))"

definition printint :: "int \<Rightarrow> nat \<Rightarrow> bool \<Rightarrow> 'a consst_scheme \<Rightarrow> 'a consst_scheme outcome" where
  "printint xx base sign s = consputs (rev (printint_buf xx base sign)) s"

text \<open>The arguments of \<open>cprintf\<close> after the format: numbers, and strings with the null pointer as
  \<open>None\<close>.\<close>

datatype fmt_arg = ANum int | AStr "bytes option"

fun str_of_arg :: "fmt_arg \<Rightarrow> int list option" where
  "str_of_arg (AStr (Some t)) = Some (map uint (take (strlen t) t))"
| "str_of_arg (AStr None) = Some [40, 110, 117, 108, 108, 41]"
| "str_of_arg (ANum n) = None"

text \<open>The characters that the loop of \<open>cprintf\<close> passes to \<open>consputc\<close>; \<open>None\<close> when an argument is
  missing or of the wrong kind.\<close>

fun cprintf_chars :: "bytes \<Rightarrow> fmt_arg list \<Rightarrow> int list option" where
  "cprintf_chars [] as = Some []"
| "cprintf_chars (c # cs) as =
     (if c = 0 then Some []
      else if c \<noteq> 37 then map_option (\<lambda>r. uint c # r) (cprintf_chars cs as)
      else
        (case cs of
           [] \<Rightarrow> Some []
         | d # ds \<Rightarrow>
             if d = 0 then Some []
             else if d = 100 then
               (case as of ANum n # as \<Rightarrow> map_option (\<lambda>r. rev (printint_buf n 10 True) @ r) (cprintf_chars ds as)
                         | _ \<Rightarrow> None)
             else if d = 120 \<or> d = 112 then
               (case as of ANum n # as \<Rightarrow> map_option (\<lambda>r. rev (printint_buf n 16 False) @ r) (cprintf_chars ds as)
                         | _ \<Rightarrow> None)
             else if d = 115 then
               (case as of a # as \<Rightarrow>
                   (case str_of_arg a of Some t \<Rightarrow> map_option (\<lambda>r. t @ r) (cprintf_chars ds as) | None \<Rightarrow> None)
                         | [] \<Rightarrow> None)
             else if d = 37 then map_option (\<lambda>r. 37 # r) (cprintf_chars ds as)
             else map_option (\<lambda>r. 37 # uint d # r) (cprintf_chars ds as)))"

definition cprintf :: "bytes \<Rightarrow> fmt_arg list \<Rightarrow> 'a consst_scheme \<Rightarrow> 'a consst_scheme outcome" where
  "cprintf fmt as s =
     (case cprintf_chars fmt as of None \<Rightarrow> Panic ''out of bounds'' | Some cs \<Rightarrow> consputs cs s)"

subsection \<open>Line editing\<close>

definition buf_at :: "u32 \<Rightarrow> 'a consst_scheme \<Rightarrow> u8" where
  "buf_at k s = in_buf s ! (unat k mod INPUT_BUF)"

definition set_buf :: "u32 \<Rightarrow> u8 \<Rightarrow> 'a consst_scheme \<Rightarrow> 'a consst_scheme" where
  "set_buf k c s = s\<lparr>in_buf := (in_buf s)[unat k mod INPUT_BUF := c]\<rparr>"

fun shift_right_loop :: "u32 list \<Rightarrow> u8 \<Rightarrow> 'a consst_scheme \<Rightarrow> 'a consst_scheme outcome" where
  "shift_right_loop [] next_char s = Ret s"
| "shift_right_loop (index # is) next_char s =
     (let temp = next_char; next_char = buf_at (index + 1) s; s = set_buf (index + 1) temp s
      in bnd (consputc (uint (buf_at (index + 1) s)) s) (\<lambda>s. shift_right_loop is next_char s))"

text \<open>The values of \<open>index\<close> in \<open>while(index < input.end)\<close> with \<open>index++\<close>, from \<open>a\<close> on.\<close>

definition indices :: "u32 \<Rightarrow> u32 \<Rightarrow> u32 list" where
  "indices a b = map of_nat [unat a..<unat b]"

definition shift_input_right :: "'a consst_scheme \<Rightarrow> 'a consst_scheme outcome" where
  "shift_input_right s =
     (let pos = get_pos s; s = change_pos (pos + 1) s
      in bnd (shift_right_loop (indices (in_e s) (in_end s)) (buf_at (in_e s) s) s) (\<lambda>s.
           Ret (change_pos pos (s\<lparr>in_end := in_end s + 1\<rparr>))))"

fun shift_left_loop :: "u32 list \<Rightarrow> 'a consst_scheme \<Rightarrow> 'a consst_scheme outcome" where
  "shift_left_loop [] s = Ret s"
| "shift_left_loop (index # is) s =
     (let s = set_buf index (buf_at (index + 1) s) s
      in bnd (consputc (uint (buf_at index s)) s) (\<lambda>s. shift_left_loop is s))"

definition shift_input_left :: "'a consst_scheme \<Rightarrow> 'a consst_scheme outcome" where
  "shift_input_left s =
     (let pos = get_pos s
      in bnd (shift_left_loop (indices (in_e s - 1) (in_end s)) s) (\<lambda>s.
         bnd (consputc 32 s) (\<lambda>s.
           Ret (change_pos pos (s\<lparr>in_end := in_end s - 1\<rparr>)))))"

definition go_to_first_of_line :: "'a consst_scheme \<Rightarrow> 'a consst_scheme" where
  "go_to_first_of_line s =
     (let pos = get_pos s; change = pos mod 80 - 2
      in change_pos (pos - change) (s\<lparr>in_e := in_e s - word_of_int change\<rparr>))"

definition is_num :: "u8 \<Rightarrow> bool" where
  "is_num c \<longleftrightarrow> 48 \<le> c \<and> c \<le> 57"

definition erase_one :: "'a consst_scheme \<Rightarrow> 'a consst_scheme outcome" where
  "erase_one s =
     bnd (consputc BACKSPACE s) (\<lambda>s.
     bnd (shift_input_left s) (\<lambda>s.
       Ret (s\<lparr>in_e := in_e s - 1\<rparr>)))"

text \<open>The loop of \<open>kill_line\<close> takes at most \<open>input.e - input.w\<close> turns, one for each decrement of
  \<open>input.e\<close>.\<close>

fun kill_loop :: "nat \<Rightarrow> 'a consst_scheme \<Rightarrow> 'a consst_scheme outcome" where
  "kill_loop 0 s = Ret s"
| "kill_loop (Suc n) s =
     (if in_e s \<noteq> in_w s \<and> buf_at (in_e s - 1) s \<noteq> 10 then bnd (erase_one s) (\<lambda>s. kill_loop n s)
      else Ret s)"

definition kill_line :: "'a consst_scheme \<Rightarrow> 'a consst_scheme outcome" where
  "kill_line s = kill_loop (unat (in_e s - in_w s)) s"

definition back_space :: "'a consst_scheme \<Rightarrow> 'a consst_scheme outcome" where
  "back_space s = (if in_e s \<noteq> in_w s then erase_one s else Ret s)"

text \<open>Each turn of the loop of \<open>delete_num_of_line\<close> lowers \<open>input.end - input.e\<close> by one.\<close>

fun delete_num_loop :: "nat \<Rightarrow> 'a consst_scheme \<Rightarrow> 'a consst_scheme outcome" where
  "delete_num_loop 0 s = Ret s"
| "delete_num_loop (Suc n) s =
     (if in_e s < in_end s then
        (let pos = get_pos s
         in if is_num (buf_at (in_e s) s) then
              bnd (erase_one ((change_pos (pos + 1) s)\<lparr>in_e := in_e s + 1\<rparr>)) (\<lambda>s. delete_num_loop n s)
            else
              bnd (consputc (uint (buf_at (in_e s) s)) s) (\<lambda>s.
                delete_num_loop n ((change_pos (pos + 1) s)\<lparr>in_e := in_e s + 1\<rparr>)))
      else Ret s)"

definition delete_num_of_line :: "'a consst_scheme \<Rightarrow> 'a consst_scheme outcome" where
  "delete_num_of_line s =
     (let s = go_to_first_of_line s in delete_num_loop (unat (in_end s) - unat (in_e s)) s)"

fun type_chars :: "u8 list \<Rightarrow> 'a consst_scheme \<Rightarrow> 'a consst_scheme outcome" where
  "type_chars [] s = Ret s"
| "type_chars (c # cs) s =
     (let s = set_buf (in_e s) c s
      in bnd (consputc (uint (buf_at (in_e s) s)) s) (\<lambda>s.
           type_chars cs (s\<lparr>in_e := in_e s + 1, in_end := in_end s + 1\<rparr>)))"

definition print_word :: "bytes \<Rightarrow> 'a consst_scheme \<Rightarrow> 'a consst_scheme outcome" where
  "print_word key s =
     (let temp = strncpy key INPUT_BUF
      in if 0 \<notin> set temp then Panic ''out of bounds''
         else bnd (kill_line s) (\<lambda>s. type_chars (take (strlen temp - 1) temp) s))"

definition print_word_reverse :: "bytes \<Rightarrow> 'a consst_scheme \<Rightarrow> 'a consst_scheme outcome" where
  "print_word_reverse key s =
     (let temp = strncpy key INPUT_BUF
      in if 0 \<notin> set temp then Panic ''out of bounds''
         else bnd (kill_line s) (\<lambda>s. type_chars (rev (take (strlen temp) temp)) s))"

text \<open>The memory at \<open>input.buf + input.w\<close>: the buffer and the four indices that follow it in
  \<open>struct input\<close>.  A pointer past the structure is not followed.\<close>

definition word_bytes :: "u32 \<Rightarrow> bytes" where
  "word_bytes v = [byte32 0 v, byte32 1 v, byte32 2 v, byte32 3 v]"

definition key_bytes :: "'a consst_scheme \<Rightarrow> bytes option" where
  "key_bytes s =
     (let m = drop (unat (in_w s))
                (in_buf s @ word_bytes (in_r s) @ word_bytes (in_w s) @ word_bytes (in_e s) @ word_bytes (in_end s))
      in if 0 \<in> set m then Some m else None)"

definition with_key :: "'a consst_scheme \<Rightarrow> (bytes \<Rightarrow> 'b outcome) \<Rightarrow> 'b outcome" where
  "with_key s f = (case key_bytes s of None \<Rightarrow> Panic ''out of bounds'' | Some k \<Rightarrow> f k)"

definition reverse_line :: "'a consst_scheme \<Rightarrow> 'a consst_scheme outcome" where
  "reverse_line s = with_key s (\<lambda>key. print_word_reverse key s)"

subsection \<open>Command history\<close>

definition row :: "int \<Rightarrow> 'a consst_scheme \<Rightarrow> bytes" where
  "row i s = drop (nat i * INPUT_BUF) (command s)"

definition starts_with :: "bytes \<Rightarrow> bytes \<Rightarrow> bool" where
  "starts_with pre str \<longleftrightarrow> strncmp str pre (strlen pre) = 0"

text \<open>\<open>stringcpy\<close> copies up to and including the terminating zero, whatever the size of the row.\<close>

definition update_history :: "bytes \<Rightarrow> 'a consst_scheme \<Rightarrow> 'a consst_scheme outcome" where
  "update_history inp s =
     (let o' = nat (command_num s smod MAX_COMMAND_NUM) * INPUT_BUF;
          t = take (strlen inp) inp @ [0]
      in if command_num s < 0 \<or> o' + length t > length (command s) then Panic ''out of bounds''
         else Ret (s\<lparr>command := take o' (command s) @ t @ drop (o' + length t) (command s),
                     command_num := wrap32 (command_num s + 1)\<rparr>))"

text \<open>
  \<open>predict_in_command_list\<close>.  The \<open>else\<close> belongs to the inner \<open>if\<close>: for each row that does not
  match, the whole ring is searched, and nothing is searched when the history is full.
\<close>

definition ring_rows :: "int \<Rightarrow> int list" where
  "ring_rows n = map (\<lambda>k. (n + int k) mod MAX_COMMAND_NUM) [0..<nat MAX_COMMAND_NUM]"

fun ring_search :: "bytes \<Rightarrow> int list \<Rightarrow> int \<Rightarrow> 'a consst_scheme \<Rightarrow> int" where
  "ring_search key [] index s = index"
| "ring_search key (i # is) index s = ring_search key is (if starts_with key (row i s) then i else index) s"

fun predict_loop :: "bytes \<Rightarrow> int list \<Rightarrow> int \<Rightarrow> 'a consst_scheme \<Rightarrow> int" where
  "predict_loop key [] index s = index"
| "predict_loop key (i # is) index s =
     predict_loop key is
       (if starts_with key (row i s) then i
        else ring_search key (ring_rows (command_num s mod MAX_COMMAND_NUM)) index s) s"

definition predict_in_command_list :: "bytes \<Rightarrow> 'a consst_scheme \<Rightarrow> int" where
  "predict_in_command_list key s =
     (if size_command s < MAX_COMMAND_NUM then predict_loop key (rev [0..size_command s]) (- 1) s else - 1)"

definition predict_process :: "'a consst_scheme \<Rightarrow> 'a consst_scheme outcome" where
  "predict_process s =
     with_key s (\<lambda>key.
       let index = predict_in_command_list key s
       in if index \<noteq> - 1 then print_word (row index s) s else Ret s)"

subsection \<open>Keyboard interrupt and the device\<close>

definition ctl :: "int \<Rightarrow> int" where "ctl x = x - 64"

definition accept_char :: "int \<Rightarrow> 'a consst_scheme \<Rightarrow> 'a consst_scheme outcome" where
  "accept_char c0 s =
     (if c0 \<noteq> 0 \<and> in_e s - in_r s < of_nat INPUT_BUF then
        (let c = (if c0 = 13 then 10 else c0)
         in bnd (if c = 10 \<or> c = ctl 68 then
                   Ret ((set_buf (in_end s) (word_of_int c) s)\<lparr>in_end := in_end s + 1\<rparr>)
                 else
                   bnd (shift_input_right s) (\<lambda>s.
                     Ret ((set_buf (in_e s) (word_of_int c) s)\<lparr>in_e := in_e s + 1\<rparr>))) (\<lambda>s.
            bnd (consputc c s) (\<lambda>s.
              if c = 10 \<or> c = ctl 68 \<or> in_e s = in_r s + of_nat INPUT_BUF then
                with_key s (\<lambda>key.
                bnd (update_history key s) (\<lambda>s.
                  Ret (wakeup InputChan
                        (s\<lparr>size_command := wrap32 (size_command s + 1), command_num := wrap32 (command_num s + 1),
                           in_e := in_end s, in_w := in_end s\<rparr>))))
              else Ret s)))
      else Ret s)"

text \<open>\<open>consoleintr\<close> on the characters that \<open>getc\<close> delivers before it returns a negative value.  The
  result tells whether the process listing was asked for; printing it is the caller's last step.\<close>

fun consoleintr :: "int list \<Rightarrow> bool \<Rightarrow> 'a consst_scheme \<Rightarrow> (bool \<times> 'a consst_scheme) outcome" where
  "consoleintr [] doprocdump s = Ret (doprocdump, s)"
| "consoleintr (c # cs) doprocdump s =
     (if c = ctl 80 then consoleintr cs True s
      else if c = ctl 85 then bnd (kill_line s) (\<lambda>s. consoleintr cs doprocdump s)
      else if c = ctl 72 \<or> c = 127 then bnd (back_space s) (\<lambda>s. consoleintr cs doprocdump s)
      else if c = ctl 78 then bnd (delete_num_of_line s) (\<lambda>s. consoleintr cs doprocdump s)
      else if c = ctl 82 then bnd (reverse_line s) (\<lambda>s. consoleintr cs doprocdump s)
      else if c = 9 then bnd (predict_process s) (\<lambda>s. consoleintr cs doprocdump s)
      else bnd (accept_char c s) (\<lambda>s. consoleintr cs doprocdump s))"

text \<open>The loop of \<open>consoleread\<close>: the bytes stored so far, in order, and the number still wanted; a
  killed process returns \<open>-1\<close>.\<close>

fun consoleread_loop ::
  "nat \<Rightarrow> nat \<Rightarrow> nat \<Rightarrow> bytes \<Rightarrow> 'a consst_scheme \<Rightarrow> (bytes option \<times> 'a consst_scheme) outcome" where
  "consoleread_loop me target 0 acc s = Ret (Some acc, s)"
| "consoleread_loop me target (Suc n) acc s =
     (if in_r s = in_w s then
        if p_killed (procs s ! me) then Ret (None, s) else Blocked
      else
        (let c = buf_at (in_r s) s; s = s\<lparr>in_r := in_r s + 1\<rparr>
         in if c = 4 then Ret (Some acc, if Suc n < target then s\<lparr>in_r := in_r s - 1\<rparr> else s)
            else if c = 10 then Ret (Some (acc @ [c]), s)
            else consoleread_loop me target n (acc @ [c]) s))"

definition consoleread :: "nat \<Rightarrow> nat \<Rightarrow> int \<Rightarrow> 'a consst_scheme \<Rightarrow> (int \<times> bytes \<times> 'a consst_scheme) outcome" where
  "consoleread me ip n s =
     bnd (iunlock me ip s) (\<lambda>s.
     bnd (consoleread_loop me (nat n) (nat n) [] s) (\<lambda>(r, s).
     bnd (ilock me ip s) (\<lambda>s.
       case r of None \<Rightarrow> Ret (- 1, [], s)
               | Some acc \<Rightarrow> Ret (if 0 < n then int (length acc) else 0, acc, s))))"

definition consolewrite :: "nat \<Rightarrow> nat \<Rightarrow> bytes \<Rightarrow> 'a consst_scheme \<Rightarrow> (int \<times> 'a consst_scheme) outcome" where
  "consolewrite me ip buf s =
     bnd (iunlock me ip s) (\<lambda>s.
     bnd (consputs (map uint buf) s) (\<lambda>s.
     bnd (ilock me ip s) (\<lambda>s.
       Ret (int (length buf), s))))"

end
