(* ===== verification/Directory.thy ===== *)
theory Directory
  imports Console
begin

text \<open>
  File contents, directories and path names (\<^verbatim>\<open>src/xv6/fs.c\<close>).  \<open>readi\<close> returns the bytes that the
  source copies to \<open>dst\<close>, in order, and \<open>writei\<close> takes the bytes at \<open>src\<close>; the callers that pass user
  addresses move them between the lists and user memory.  The device switch table holds the
  console's routines, which \<open>consoleinit\<close> installs, and nothing else.
\<close>

section \<open>Definitions\<close>

definition NDEV :: int where "NDEV = 10"
definition CONSOLE :: int where "CONSOLE = 1"
definition DIRSIZ :: nat where "DIRSIZ = 14"
definition ROOTINO :: u32 where "ROOTINO = 1"

definition has_dev :: "u16 \<Rightarrow> bool" where
  "has_dev major \<longleftrightarrow> \<not> (sint major < 0 \<or> sint major \<ge> NDEV \<or> sint major \<noteq> CONSOLE)"

text \<open>\<open>m = min(n - tot, BSIZE - off%BSIZE)\<close>, with \<open>rest\<close> for \<open>n - tot\<close>.\<close>

definition chunk :: "nat \<Rightarrow> nat \<Rightarrow> nat" where
  "chunk off rest = min rest (BSIZE - off mod BSIZE)"

lemma chunk_pos [simp]: "0 < rest \<Longrightarrow> 0 < chunk off rest"
  by (simp add: chunk_def BSIZE_def)

function readi_loop :: "nat \<Rightarrow> nat \<Rightarrow> nat \<Rightarrow> nat \<Rightarrow> 'a consst_scheme \<Rightarrow> (bytes \<times> 'a consst_scheme) outcome" where
  "readi_loop me i off rest s =
     (if rest = 0 then Ret ([], s)
      else
        bnd (bmap me i (of_nat (off div BSIZE)) s) (\<lambda>(addr, s).
        bnd (bread me (i_dev (icache s ! i)) addr s) (\<lambda>(bp, s).
          let m = chunk off rest; bs = take m (drop (off mod BSIZE) (bdata bp s))
          in bnd (brelse me bp s) (\<lambda>s.
             bnd (readi_loop me i (off + m) (rest - m) s) (\<lambda>(bs', s).
               Ret (bs @ bs', s))))))"
  by pat_completeness auto
termination by (relation "measure (\<lambda>(me, i, off, rest, s). rest)") auto

definition readi :: "nat \<Rightarrow> nat \<Rightarrow> u32 \<Rightarrow> u32 \<Rightarrow> 'a consst_scheme \<Rightarrow> (int \<times> bytes \<times> 'a consst_scheme) outcome" where
  "readi me i off n s =
     (let ip = icache s ! i
      in if i_type ip = T_DEV then
           if \<not> has_dev (i_major ip) then Ret (- 1, [], s)
           else consoleread me i (sint n) s
         else if off > i_size ip \<or> off + n < off then Ret (- 1, [], s)
         else
           (let n = (if off + n > i_size ip then i_size ip - off else n)
            in bnd (readi_loop me i (unat off) (unat n) s) (\<lambda>(bs, s).
                 Ret (sint n, bs, s))))"

text \<open>\<open>memmove(bp->data + off%BSIZE, src, m)\<close>.\<close>

definition patch :: "bytes \<Rightarrow> nat \<Rightarrow> bytes \<Rightarrow> bytes" where
  "patch d o' xs = take o' d @ xs @ drop (o' + length xs) d"

function writei_loop :: "nat \<Rightarrow> nat \<Rightarrow> nat \<Rightarrow> bytes \<Rightarrow> 'a consst_scheme \<Rightarrow> 'a consst_scheme outcome" where
  "writei_loop me i off src s =
     (if src = [] then Ret s
      else
        bnd (bmap me i (of_nat (off div BSIZE)) s) (\<lambda>(addr, s).
        bnd (bread me (i_dev (icache s ! i)) addr s) (\<lambda>(bp, s).
          let m = chunk off (length src)
          in bnd (log_write bp (set_bdata bp (patch (bdata bp s) (off mod BSIZE) (take m src)) s)) (\<lambda>s.
             bnd (brelse me bp s) (\<lambda>s.
               writei_loop me i (off + m) (drop m src) s)))))"
  by pat_completeness auto
termination by (relation "measure (\<lambda>(me, i, off, src, s). length src)") auto

definition writei :: "nat \<Rightarrow> nat \<Rightarrow> bytes \<Rightarrow> u32 \<Rightarrow> 'a consst_scheme \<Rightarrow> (int \<times> 'a consst_scheme) outcome" where
  "writei me i src off s =
     (let ip = icache s ! i; n = of_nat (length src) :: u32
      in if i_type ip = T_DEV then
           if \<not> has_dev (i_major ip) then Ret (- 1, s)
           else consolewrite me i src s
         else if off > i_size ip \<or> off + n < off then Ret (- 1, s)
         else if off + n > of_nat (MAXFILE * BSIZE) then Ret (- 1, s)
         else
           bnd (writei_loop me i (unat off) src s) (\<lambda>s.
             if 0 < n \<and> off + n > i_size (icache s ! i) then
               bnd (iupdate me i (upd_inode i (\<lambda>ip. ip\<lparr>i_size := off + n\<rparr>) s)) (\<lambda>s. Ret (sint n, s))
             else Ret (sint n, s)))"

subsection \<open>Directories\<close>

record dirent =
  de_inum :: u16
  de_name :: bytes

definition decode_dirent :: "bytes \<Rightarrow> dirent" where
  "decode_dirent d = \<lparr>de_inum = get16 d 0, de_name = take DIRSIZ (drop 2 d)\<rparr>"

definition encode_dirent :: "dirent \<Rightarrow> bytes" where
  "encode_dirent de = byte16 0 (de_inum de) # byte16 1 (de_inum de) # de_name de"

definition namecmp :: "bytes \<Rightarrow> bytes \<Rightarrow> int" where
  "namecmp s t = strncmp s t DIRSIZ"

text \<open>The values of \<open>off\<close> in \<open>for(off = 0; off < dp->size; off += sizeof(de))\<close>.\<close>

definition dirent_offs :: "u32 \<Rightarrow> u32 list" where
  "dirent_offs sz = map (\<lambda>k. of_nat (16 * k)) [0..<(unat sz + 15) div 16]"

fun dirlookup_loop ::
  "nat \<Rightarrow> nat \<Rightarrow> bytes \<Rightarrow> u32 list \<Rightarrow> 'a consst_scheme \<Rightarrow> ((nat \<times> u32) option \<times> 'a consst_scheme) outcome" where
  "dirlookup_loop me dp name [] s = Ret (None, s)"
| "dirlookup_loop me dp name (off # offs) s =
     bnd (readi me dp off 16 s) (\<lambda>(r, bs, s).
       if r \<noteq> 16 then Panic ''dirlookup read''
       else
         (let de = decode_dirent bs
          in if de_inum de = 0 then dirlookup_loop me dp name offs s
             else if namecmp name (de_name de) = 0 then
               bnd (iget (i_dev (icache s ! dp)) (ucast (de_inum de)) s) (\<lambda>(i, s). Ret (Some (i, off), s))
             else dirlookup_loop me dp name offs s))"

definition dirlookup ::
  "nat \<Rightarrow> nat \<Rightarrow> bytes \<Rightarrow> 'a consst_scheme \<Rightarrow> ((nat \<times> u32) option \<times> 'a consst_scheme) outcome" where
  "dirlookup me dp name s =
     (if i_type (icache s ! dp) \<noteq> T_DIR then Panic ''dirlookup not DIR''
      else dirlookup_loop me dp name (dirent_offs (i_size (icache s ! dp))) s)"

fun empty_dirent ::
  "nat \<Rightarrow> nat \<Rightarrow> u32 list \<Rightarrow> 'a consst_scheme \<Rightarrow> (u32 \<times> 'a consst_scheme) outcome" where
  "empty_dirent me dp [] s = Ret (of_nat (16 * ((unat (i_size (icache s ! dp)) + 15) div 16)), s)"
| "empty_dirent me dp (off # offs) s =
     bnd (readi me dp off 16 s) (\<lambda>(r, bs, s).
       if r \<noteq> 16 then Panic ''dirlink read''
       else if de_inum (decode_dirent bs) = 0 then Ret (off, s)
       else empty_dirent me dp offs s)"

definition dirlink :: "nat \<Rightarrow> nat \<Rightarrow> bytes \<Rightarrow> u32 \<Rightarrow> 'a consst_scheme \<Rightarrow> (int \<times> 'a consst_scheme) outcome" where
  "dirlink me dp name inum s =
     bnd (dirlookup me dp name s) (\<lambda>(r, s).
       case r of
         Some (ip, _) \<Rightarrow> bnd (iput me ip s) (\<lambda>s. Ret (- 1, s))
       | None \<Rightarrow>
           bnd (empty_dirent me dp (dirent_offs (i_size (icache s ! dp))) s) (\<lambda>(off, s).
           bnd (writei me dp (encode_dirent \<lparr>de_inum = ucast inum, de_name = strncpy name DIRSIZ\<rparr>) off s) (\<lambda>(r, s).
             if r \<noteq> 16 then Panic ''dirlink'' else Ret (0, s))))"

subsection \<open>Paths\<close>

text \<open>\<open>skipelem(path, name)\<close> on the C string \<open>path\<close>: the rest of the path and the new contents of the
  array \<open>name\<close> of \<open>DIRSIZ\<close> bytes, which keeps its old bytes past a short element.\<close>

fun skip_slashes :: "bytes \<Rightarrow> bytes" where
  "skip_slashes [] = []"
| "skip_slashes (c # cs) = (if c = 47 then skip_slashes cs else c # cs)"

fun elem_len :: "bytes \<Rightarrow> nat" where
  "elem_len [] = 0"
| "elem_len (c # cs) = (if c \<noteq> 47 \<and> c \<noteq> 0 then Suc (elem_len cs) else 0)"

definition skipelem :: "bytes \<Rightarrow> bytes \<Rightarrow> (bytes \<times> bytes) option" where
  "skipelem path name =
     (let s = skip_slashes path
      in if hd0 s = 0 then None
         else
           (let len = elem_len s;
                name = (if len \<ge> DIRSIZ then patch name 0 (take DIRSIZ s)
                        else patch name 0 (take len s @ [0]))
            in Some (skip_slashes (drop len s), name)))"

lemma length_skip_slashes: "length (skip_slashes p) \<le> length p"
  by (induction p) auto

lemma skipelem_shorter: "skipelem path name = Some (path', name') \<Longrightarrow> length path' < length path"
proof -
  assume a: "skipelem path name = Some (path', name')"
  let ?s = "skip_slashes path"
  have c: "hd0 ?s \<noteq> 0" and p: "path' = skip_slashes (drop (elem_len ?s) ?s)"
    using a by (auto simp: skipelem_def Let_def split: if_splits)
  obtain x xs where x: "?s = x # xs" using c by (cases ?s) auto
  have "x \<noteq> 47" using x by (induction path) (auto split: if_splits)
  then have "0 < elem_len ?s" using x c by simp
  then have "length (drop (elem_len ?s) ?s) < length ?s" using x by simp
  then show ?thesis
    unfolding p using length_skip_slashes [of path] length_skip_slashes [of "drop (elem_len ?s) ?s"] by linarith
qed

function namex_loop ::
  "nat \<Rightarrow> bytes \<Rightarrow> bool \<Rightarrow> bytes \<Rightarrow> nat \<Rightarrow> 'a consst_scheme \<Rightarrow> (nat option \<times> bytes \<times> 'a consst_scheme) outcome" where
  "namex_loop me path parent name ip s =
     (case skipelem path name of
        None \<Rightarrow>
          if parent then bnd (iput me ip s) (\<lambda>s. Ret (None, name, s))
          else Ret (Some ip, name, s)
      | Some (path', name') \<Rightarrow>
          bnd (ilock me ip s) (\<lambda>s.
            if i_type (icache s ! ip) \<noteq> T_DIR then
              bnd (iunlockput me ip s) (\<lambda>s. Ret (None, name', s))
            else if parent \<and> hd0 path' = 0 then
              bnd (iunlock me ip s) (\<lambda>s. Ret (Some ip, name', s))
            else
              bnd (dirlookup me ip name' s) (\<lambda>(r, s).
                case r of
                  None \<Rightarrow> bnd (iunlockput me ip s) (\<lambda>s. Ret (None, name', s))
                | Some (nxt, _) \<Rightarrow>
                    bnd (iunlockput me ip s) (\<lambda>s. namex_loop me path' parent name' nxt s))))"
  by pat_completeness auto
termination
  by (relation "measure (\<lambda>(me, path, parent, name, ip, s). length path)") (auto dest: skipelem_shorter)

definition namex ::
  "nat \<Rightarrow> bytes \<Rightarrow> bool \<Rightarrow> bytes \<Rightarrow> 'a consst_scheme \<Rightarrow> (nat option \<times> bytes \<times> 'a consst_scheme) outcome" where
  "namex me path parent name s =
     (if hd0 path = 47 then
        bnd (iget ROOTDEV ROOTINO s) (\<lambda>(ip, s). namex_loop me path parent name ip s)
      else
        (case p_cwd (procs s ! me) of
           None \<Rightarrow> Panic ''trap''
         | Some cwd \<Rightarrow> (let (ip, s) = idup cwd s in namex_loop me path parent name ip s)))"

definition namei :: "nat \<Rightarrow> bytes \<Rightarrow> 'a consst_scheme \<Rightarrow> (nat option \<times> 'a consst_scheme) outcome" where
  "namei me path s =
     bnd (namex me path False (replicate DIRSIZ 0) s) (\<lambda>(r, _, s). Ret (r, s))"

definition nameiparent ::
  "nat \<Rightarrow> bytes \<Rightarrow> bytes \<Rightarrow> 'a consst_scheme \<Rightarrow> (nat option \<times> bytes \<times> 'a consst_scheme) outcome" where
  "nameiparent me path name s = namex me path True name s"

end
