(* ===== verification/Fifo.thy ===== *)
theory Fifo
  imports Kernel_Prelude
begin

text \<open>
  Bounded first-in first-out queues, the contract that the pipe's ring buffer and the semaphore's
  ring of waiting processes share.  The client lemma says what any sequence of operations delivers.
\<close>

datatype 'a fifo_op = Put 'a | Get

locale fifo =
  fixes inv :: "'q \<Rightarrow> bool" and elems :: "'q \<Rightarrow> 'a list" and cap :: nat
    and put :: "'a \<Rightarrow> 'q \<Rightarrow> 'q" and get :: "'q \<Rightarrow> 'a \<times> 'q"
  assumes put_law: "inv q \<Longrightarrow> length (elems q) < cap \<Longrightarrow> inv (put x q) \<and> elems (put x q) = elems q @ [x]"
    and get_law: "inv q \<Longrightarrow> elems q \<noteq> [] \<Longrightarrow> inv (snd (get q)) \<and> elems q = fst (get q) # elems (snd (get q))"
    and bounded: "inv q \<Longrightarrow> length (elems q) \<le> cap"
begin

text \<open>A run of operations: one that does not apply (a put on a full queue, a get on an empty one)
  ends the run.\<close>

fun run :: "'a fifo_op list \<Rightarrow> 'q \<Rightarrow> 'a list \<times> 'a list \<times> 'q" where
  "run [] q = ([], [], q)"
| "run (Put x # ops) q =
     (if length (elems q) < cap then let (i, out, q') = run ops (put x q) in (x # i, out, q') else ([], [], q))"
| "run (Get # ops) q =
     (if elems q = [] then ([], [], q)
      else let (i, out, q') = run ops (snd (get q)) in (i, fst (get q) # out, q'))"

lemma run_fifo:
  assumes "inv q" "run ops q = (i, out, q')"
  shows "inv q' \<and> elems q @ i = out @ elems q'"
  using assms
proof (induction ops q arbitrary: i out q' rule: run.induct)
  case (2 x ops q)
  show ?case
  proof (cases "length (elems q) < cap")
    case True
    obtain i1 o1 q1 where r: "run ops (put x q) = (i1, o1, q1)" by (cases "run ops (put x q)") auto
    then show ?thesis using 2 True put_law [of q x] by auto
  qed (use 2 in auto)
next
  case (3 ops q)
  show ?case
  proof (cases "elems q = []")
    case False
    obtain i1 o1 q1 where r: "run ops (snd (get q)) = (i1, o1, q1)" by (cases "run ops (snd (get q))") auto
    then show ?thesis using 3 False get_law [of q] by auto
  qed (use 3 in auto)
qed auto

end

text \<open>Positions in a ring of \<open>n\<close> slots.\<close>

lemma ring_neq:
  fixes a i k n :: nat
  assumes "i < k" "k - i < n" shows "(a + i) mod n \<noteq> (a + k) mod n"
proof
  assume "(a + i) mod n = (a + k) mod n"
  then have "n dvd (a + k) - (a + i)" using assms by (intro mod_eq_dvd_iff_nat [THEN iffD1]) auto
  then have "n dvd k - i" by simp
  then show False using assms by (auto dest: dvd_imp_le)
qed

definition ring_elems :: "'a list \<Rightarrow> nat \<Rightarrow> nat \<Rightarrow> 'a list" where
  "ring_elems xs a len = map (\<lambda>i. xs ! ((a + i) mod length xs)) [0..<len]"

lemma length_ring_elems [simp]: "length (ring_elems xs a len) = len"
  by (simp add: ring_elems_def)

lemma ring_elems_put:
  assumes "len < length xs"
  shows "ring_elems (xs[(a + len) mod length xs := x]) a (Suc len) = ring_elems xs a len @ [x]"
proof -
  have pos: "(a + len) mod length xs < length xs" using assms by (intro mod_less_divisor) auto
  have "xs[(a + len) mod length xs := x] ! ((a + i) mod length xs) = xs ! ((a + i) mod length xs)" if "i < len" for i
  proof (rule nth_list_update_neq)
    have "len - i < length xs" using assms by linarith
    then show "(a + len) mod length xs \<noteq> (a + i) mod length xs" using ring_neq [OF that] by metis
  qed
  then show ?thesis using pos by (simp add: ring_elems_def)
qed

lemma ring_elems_get:
  "ring_elems xs a (Suc len) = xs ! (a mod length xs) # ring_elems xs (Suc a) len"
  unfolding ring_elems_def by (simp add: upt_conv_Cons map_Suc_upt [symmetric] del: upt_Suc)

lemma ring_elems_mod: "ring_elems xs (a mod length xs) len = ring_elems xs a len"
  by (simp add: ring_elems_def mod_add_left_eq)

end
