(* ===== verification/Pipe.thy ===== *)
theory Pipe
  imports Fifo Proc_Table
begin

text \<open>
  Pipes (\<^verbatim>\<open>src/xv6/pipe.c\<close>).  \<open>pipewrite\<close> and \<open>piperead\<close> hold the pipe's lock except while they sleep, so a
  call is a sequence of runs: each run goes on until the call returns or goes to sleep, and a
  sleeping writer resumes where it stopped.  \<open>a\<close> is the address of the pipe, which its wait channels
  are made of; the bytes that \<open>piperead\<close> stores at \<open>addr\<close> are part of its result.
\<close>

section \<open>Definitions\<close>

definition PIPESIZE :: nat where "PIPESIZE = 512"

record pipe =
  pi_data :: bytes
  nread :: u32
  nwrite :: u32
  readopen :: bool
  writeopen :: bool

text \<open>The fields that \<open>pipealloc\<close> sets in a fresh page; the data bytes stay as they are.\<close>

definition pipe_init :: "pipe \<Rightarrow> pipe" where
  "pipe_init p = p\<lparr>readopen := True, writeopen := True, nwrite := 0, nread := 0\<rparr>"

datatype 'r pipe_run = Done 'r | Sleeps

definition pipe_put :: "u8 \<Rightarrow> pipe \<Rightarrow> pipe" where
  "pipe_put c p =
     p\<lparr>pi_data := (pi_data p)[unat (nwrite p) mod PIPESIZE := c], nwrite := nwrite p + 1\<rparr>"

definition pipe_get :: "pipe \<Rightarrow> u8 \<times> pipe" where
  "pipe_get p = (pi_data p ! (unat (nread p) mod PIPESIZE), p\<lparr>nread := nread p + 1\<rparr>)"

text \<open>One run of \<open>pipewrite\<close> on the bytes not yet written; the result says how many it wrote.\<close>

fun pipewrite_run ::
  "nat \<Rightarrow> u32 \<Rightarrow> bytes \<Rightarrow> nat \<Rightarrow> pipe \<Rightarrow> 'a ptab_scheme \<Rightarrow> bool pipe_run \<times> nat \<times> pipe \<times> 'a ptab_scheme" where
  "pipewrite_run me a [] i p s = (Done True, i, p, wakeup (PipeReadChan a) s)"
| "pipewrite_run me a (c # cs) i p s =
     (if nwrite p = nread p + of_nat PIPESIZE then
        if \<not> readopen p \<or> p_killed (procs s ! me) then (Done False, i, p, s)
        else (Sleeps, i, p, sleep_enter me (PipeWriteChan a) (wakeup (PipeReadChan a) s))
      else pipewrite_run me a cs (Suc i) (pipe_put c p) s)"

fun piperead_copy :: "nat \<Rightarrow> pipe \<Rightarrow> bytes \<times> pipe" where
  "piperead_copy 0 p = ([], p)"
| "piperead_copy (Suc n) p =
     (if nread p = nwrite p then ([], p)
      else let (c, p) = pipe_get p; (bs, p) = piperead_copy n p in (c # bs, p))"

text \<open>One run of \<open>piperead\<close>; \<open>None\<close> is the return value \<open>-1\<close> of a killed process.\<close>

definition piperead_run ::
  "nat \<Rightarrow> u32 \<Rightarrow> nat \<Rightarrow> pipe \<Rightarrow> 'a ptab_scheme \<Rightarrow> bytes option pipe_run \<times> pipe \<times> 'a ptab_scheme" where
  "piperead_run me a n p s =
     (if nread p = nwrite p \<and> writeopen p then
        if p_killed (procs s ! me) then (Done None, p, s)
        else (Sleeps, p, sleep_enter me (PipeReadChan a) s)
      else
        (let (bs, p) = piperead_copy n p
         in (Done (Some bs), p, wakeup (PipeWriteChan a) s)))"

text \<open>\<open>pipeclose\<close>: the flag tells whether both ends are closed and the page goes back to the allocator.\<close>

definition pipeclose_run :: "u32 \<Rightarrow> bool \<Rightarrow> pipe \<Rightarrow> 'a ptab_scheme \<Rightarrow> bool \<times> pipe \<times> 'a ptab_scheme" where
  "pipeclose_run a writable p s =
     (let (p, s) =
        (if writable then (p\<lparr>writeopen := False\<rparr>, wakeup (PipeReadChan a) s)
         else (p\<lparr>readopen := False\<rparr>, wakeup (PipeWriteChan a) s))
      in (\<not> readopen p \<and> \<not> writeopen p, p, s))"

section \<open>The ring buffer is a queue\<close>

definition pipe_len :: "pipe \<Rightarrow> nat" where
  "pipe_len p = unat (nwrite p - nread p)"

definition pipe_inv :: "pipe \<Rightarrow> bool" where
  "pipe_inv p \<longleftrightarrow> length (pi_data p) = PIPESIZE \<and> pipe_len p \<le> PIPESIZE"

definition pipe_bytes :: "pipe \<Rightarrow> bytes" where
  "pipe_bytes p = ring_elems (pi_data p) (unat (nread p)) (pipe_len p)"

lemma mod_u32_512: "(x mod 2 ^ 32) mod 512 = (x :: nat) mod 512"
  by (rule mod_mod_cancel) simp

lemma nwrite_mod: "unat (nwrite p) mod PIPESIZE = (unat (nread p) + pipe_len p) mod PIPESIZE"
proof -
  have "unat (nwrite p) = unat (nread p + (nwrite p - nread p))" by simp
  also have "\<dots> = (unat (nread p) + pipe_len p) mod 2 ^ 32" unfolding pipe_len_def by (subst unat_word_ariths(1)) simp
  finally show ?thesis by (simp only: mod_u32_512 PIPESIZE_def)
qed

lemma Suc_mod: "unat (x + 1 :: u32) mod PIPESIZE = Suc (unat x) mod PIPESIZE"
proof -
  have "unat (x + 1) = Suc (unat x) mod 2 ^ 32" by (simp add: unat_word_ariths)
  then show ?thesis by (simp only: mod_u32_512 PIPESIZE_def)
qed

lemma pipe_full_iff: "nwrite p = nread p + of_nat PIPESIZE \<longleftrightarrow> pipe_len p = PIPESIZE"
proof -
  have "pipe_len p = PIPESIZE \<longleftrightarrow> nwrite p - nread p = of_nat PIPESIZE"
    by (simp add: pipe_len_def word_unat_eq_iff unat_of_nat PIPESIZE_def)
  then show ?thesis by (auto simp: algebra_simps)
qed

lemma pipe_empty_iff: "nread p = nwrite p \<longleftrightarrow> pipe_bytes p = []"
proof -
  have "pipe_bytes p = [] \<longleftrightarrow> pipe_len p = 0" by (metis length_0_conv length_ring_elems pipe_bytes_def)
  also have "\<dots> \<longleftrightarrow> nwrite p - nread p = 0" by (simp add: pipe_len_def unat_eq_0)
  finally show ?thesis by auto
qed

lemma length_pipe_bytes [simp]: "length (pipe_bytes p) = pipe_len p"
  by (simp add: pipe_bytes_def)

lemma pipe_put_queue:
  assumes "pipe_inv p" "pipe_len p < PIPESIZE"
  shows "pipe_inv (pipe_put c p)" "pipe_bytes (pipe_put c p) = pipe_bytes p @ [c]"
proof -
  have "pipe_len (pipe_put c p) = unat ((nwrite p - nread p) + 1)"
    by (simp add: pipe_len_def pipe_put_def diff_add_eq)
  also have "\<dots> = Suc (pipe_len p)"
    using assms(2) by (subst unat_add_no_wrap) (simp_all add: pipe_len_def PIPESIZE_def)
  finally have len: "pipe_len (pipe_put c p) = Suc (pipe_len p)" .
  then show "pipe_inv (pipe_put c p)" using assms by (simp add: pipe_inv_def pipe_put_def)
  have ld: "length (pi_data p) = PIPESIZE" using assms(1) by (simp add: pipe_inv_def)
  show "pipe_bytes (pipe_put c p) = pipe_bytes p @ [c]"
    using ring_elems_put [of "pipe_len p" "pi_data p" "unat (nread p)" c] assms(2) ld nwrite_mod [of p] len
    by (simp add: pipe_bytes_def pipe_put_def)
qed

lemma pipe_get_queue:
  assumes "pipe_inv p" "pipe_bytes p \<noteq> []"
  shows "pipe_inv (snd (pipe_get p))" "pipe_bytes p = fst (pipe_get p) # pipe_bytes (snd (pipe_get p))"
proof -
  have "nwrite p - nread p \<noteq> 0" using assms(2) pipe_empty_iff [of p] by auto
  then have "unat (nwrite p - nread p) = Suc (unat (nwrite p - nread p - 1))"
    by (simp add: unat_minus_one unat_gt_0)
  moreover have "nwrite p - nread p - 1 = nwrite p - (nread p + 1)" by simp
  ultimately have len: "pipe_len p = Suc (pipe_len (snd (pipe_get p)))"
    unfolding pipe_len_def pipe_get_def by simp
  then show "pipe_inv (snd (pipe_get p))" using assms(1) by (simp add: pipe_inv_def pipe_get_def)
  have ld: "length (pi_data p) = PIPESIZE" using assms(1) by (simp add: pipe_inv_def)
  have "ring_elems (pi_data p) (Suc (unat (nread p))) l = ring_elems (pi_data p) (unat (nread p + 1)) l" for l
    using ring_elems_mod [of "pi_data p" "Suc (unat (nread p))" l] ring_elems_mod [of "pi_data p" "unat (nread p + 1)" l]
      Suc_mod [of "nread p"] ld by simp
  then show "pipe_bytes p = fst (pipe_get p) # pipe_bytes (snd (pipe_get p))"
    unfolding pipe_bytes_def len using ring_elems_get [of "pi_data p" "unat (nread p)" "pipe_len (snd (pipe_get p))"] ld
    by (simp add: pipe_get_def)
qed

interpretation ring: fifo pipe_inv pipe_bytes PIPESIZE pipe_put pipe_get
  by unfold_locales (use pipe_put_queue pipe_get_queue in \<open>auto simp: pipe_inv_def\<close>)

lemma pipewrite_run_bytes:
  assumes "pipe_inv p" "pipewrite_run me a cs i p s = (r, j, p', s')"
  shows "pipe_inv p' \<and> i \<le> j \<and> j \<le> i + length cs \<and> pipe_bytes p' = pipe_bytes p @ take (j - i) cs \<and>
    (r = Done True \<longrightarrow> j = i + length cs)"
  using assms
proof (induction me a cs i p s rule: pipewrite_run.induct)
  case (1 me a i p s)
  then show ?case by auto
next
  case (2 me a c cs i p s)
  show ?case
  proof (cases "nwrite p = nread p + of_nat PIPESIZE")
    case True
    then show ?thesis using 2 by (auto split: if_splits)
  next
    case False
    then have len: "pipe_len p < PIPESIZE" using 2(2) pipe_full_iff [of p] by (auto simp: pipe_inv_def)
    note q = pipe_put_queue [OF 2(2) len, of c]
    have ih: "pipe_inv p' \<and> Suc i \<le> j \<and> j \<le> Suc i + length cs \<and>
        pipe_bytes p' = pipe_bytes (pipe_put c p) @ take (j - Suc i) cs \<and> (r = Done True \<longrightarrow> j = Suc i + length cs)"
      using 2(1) [OF False q(1)] 2(3) False by simp
    moreover have "j - i = Suc (j - Suc i)" using ih by arith
    ultimately show ?thesis using q by auto
  qed
qed

lemma piperead_copy_bytes:
  assumes "pipe_inv p" "piperead_copy n p = (bs, p')"
  shows "pipe_inv p' \<and> pipe_bytes p = bs @ pipe_bytes p' \<and> length bs = min n (length (pipe_bytes p))"
  using assms
proof (induction n arbitrary: p bs p')
  case (Suc n)
  show ?case
  proof (cases "nread p = nwrite p")
    case True
    then show ?thesis using Suc.prems pipe_empty_iff [of p] by (simp flip: length_0_conv)
  next
    case False
    then have q: "pipe_inv (snd (pipe_get p))" "pipe_bytes p = fst (pipe_get p) # pipe_bytes (snd (pipe_get p))"
      using pipe_get_queue [OF Suc.prems(1)] pipe_empty_iff [of p] by blast+
    obtain cs p1 where r: "piperead_copy n (snd (pipe_get p)) = (cs, p1)" by (cases "piperead_copy n (snd (pipe_get p))")
    then have "bs = fst (pipe_get p) # cs" "p' = p1" using Suc.prems(2) False by (auto simp: case_prod_beta)
    moreover have "length (pipe_bytes p) = Suc (length (pipe_bytes (snd (pipe_get p))))"
      using arg_cong [OF q(2), of length] by (simp only: list.size add_Suc_right add_0_right)
    ultimately show ?thesis using Suc.IH [OF q(1) r] q(2) by (simp only: append_Cons list.size min_Suc_Suc add_Suc_right add_0_right simp_thms)
  qed
qed auto

section \<open>Every interleaving of readers and writers\<close>

text \<open>\<open>pipe_trace W R p\<close>: some sequence of runs of writers, readers and closers has put the bytes \<open>W\<close> into
  the pipe, delivered the bytes \<open>R\<close>, and left it as \<open>p\<close>.\<close>

inductive pipe_trace :: "bytes \<Rightarrow> bytes \<Rightarrow> pipe \<Rightarrow> bool" where
  new: "length (pi_data p) = PIPESIZE \<Longrightarrow> pipe_trace [] [] (pipe_init p)"
| writes: "pipe_trace W R p \<Longrightarrow> pipewrite_run me a cs i p (s :: ptab) = (r, j, p', s') \<Longrightarrow>
    pipe_trace (W @ take (j - i) cs) R p'"
| reads: "pipe_trace W R p \<Longrightarrow> piperead_run me a n p (s :: ptab) = (r, p', s') \<Longrightarrow>
    pipe_trace W (R @ (case r of Done (Some bs) \<Rightarrow> bs | _ \<Rightarrow> [])) p'"
| closes: "pipe_trace W R p \<Longrightarrow> pipeclose_run a w p (s :: ptab) = (fr, p', s') \<Longrightarrow> pipe_trace W R p'"

lemma pipe_trace_inv: "pipe_trace W R p \<Longrightarrow> pipe_inv p \<and> W = R @ pipe_bytes p"
proof (induction rule: pipe_trace.induct)
  case (new p)
  then show ?case by (simp add: pipe_inv_def pipe_bytes_def pipe_init_def pipe_len_def ring_elems_def)
next
  case (writes W R p me a cs i s r j p' s')
  then show ?case using pipewrite_run_bytes [of p me a cs i s r j p' s'] by auto
next
  case (reads W R p me a n s r p' s')
  show ?case
  proof (cases "nread p = nwrite p \<and> writeopen p")
    case True
    then show ?thesis using reads by (auto simp: piperead_run_def split: if_splits)
  next
    case False
    obtain bs q where c: "piperead_copy n p = (bs, q)" by (cases "piperead_copy n p")
    then have "r = Done (Some bs)" "p' = q" using reads.hyps(2) False by (auto simp: piperead_run_def split: if_splits)
    then show ?thesis using piperead_copy_bytes [OF _ c] reads.IH by simp
  qed
next
  case (closes W R p a w s fr p' s')
  then show ?case
    by (auto simp: pipeclose_run_def pipe_inv_def pipe_bytes_def pipe_len_def split: if_splits)
qed

section \<open>Properties\<close>

definition new_pipe :: pipe where
  "new_pipe = \<lparr>pi_data = replicate PIPESIZE 0, nread = 0, nwrite = 0, readopen = True, writeopen = True\<rparr>"

lemma new_pipe_trace: "pipe_trace [] [] new_pipe"
  using pipe_trace.new [of new_pipe] by (simp add: new_pipe_def pipe_init_def)

text \<open>C19: Pipes are first-in first-out under every interleaving of readers, writers and closers, also
  when the 32-bit counters wrap around: the bytes put into a pipe are the bytes delivered so far
  followed by the bytes it holds, at most 512, and none is lost, repeated or reordered.\<close>

theorem pipe_fifo:
  assumes "pipe_trace W R p"
  shows "W = R @ pipe_bytes p \<and> length (pipe_bytes p) \<le> PIPESIZE"
  using pipe_trace_inv [OF assms] ring.bounded by blast

theorem pipe_fifo_witness:
  "\<exists>W R p. pipe_trace W R p \<and> W = R @ pipe_bytes p \<and> R = [1, 2] \<and> length (pipe_bytes p) \<le> PIPESIZE"
proof -
  let ?s = "\<lparr>mem = \<lambda>_. 0, freelist = 0, use_lock = True, kend = 0, kdata = 0, procs = [zero_proc], nextpid = 2,
     initproc = None, ticks = 0, cpu_proc = \<lambda>_. None\<rparr> :: ptab"
  let ?p = "pipe_put 3 (pipe_put 2 (pipe_put 1 new_pipe))"
  have "pipewrite_run 0 0 [1, 2, 3] 0 new_pipe ?s = (Done True, 3, ?p, wakeup (PipeReadChan 0) ?s)"
    by (simp add: new_pipe_def pipe_put_def PIPESIZE_def)
  from pipe_trace.writes [OF new_pipe_trace this] have w: "pipe_trace [1, 2, 3] [] ?p" by simp
  have "piperead_run 0 0 (Suc (Suc 0)) ?p ?s = (Done (Some [1, 2]), ?p\<lparr>nread := 2\<rparr>, wakeup (PipeWriteChan 0) ?s)"
    by (simp add: piperead_run_def pipe_get_def new_pipe_def pipe_put_def PIPESIZE_def)
  from pipe_trace.reads [OF w this] have "pipe_trace [1, 2, 3] [1, 2] (?p\<lparr>nread := 2\<rparr>)" by simp
  from pipe_fifo [OF this] this show ?thesis by blast
qed

end
