(* ===== verification/Semaphore.thy ===== *)
theory Semaphore
  imports Fifo Proc_Table
begin

text \<open>
  The counting semaphores of \<^verbatim>\<open>src/xv6/proc.c\<close>.  A semaphore is one entry of \<open>semtable\<close>; its lock
  makes every stretch of code between two sleeps atomic.  \<open>sem_acquire\<close> sleeps at most once, so it
  is the run up to that sleep (\<open>sem_acquire_enter\<close>, whose flag tells whether the call is over) and
  the run after it (\<open>sem_acquire_resume\<close>).  A queue entry is the index of a process or null.
\<close>

section \<open>Definitions\<close>

definition MAX_SEMAPHORE_PROC :: int where "MAX_SEMAPHORE_PROC = 64"
definition MAX_SEMAPHORE :: nat where "MAX_SEMAPHORE = 5"

record semaphore =
  sem_value :: int
  front_proc_index :: int
  procs_queue_size :: int
  sem_queue :: "nat option list"

definition zero_semaphore :: semaphore where
  "zero_semaphore =
     \<lparr>sem_value = 0, front_proc_index = 0, procs_queue_size = 0, sem_queue = replicate (nat MAX_SEMAPHORE_PROC) None\<rparr>"

definition sem_init :: "int \<Rightarrow> semaphore \<Rightarrow> semaphore" where
  "sem_init v sm = sm\<lparr>sem_value := v, front_proc_index := 0, procs_queue_size := 0\<rparr>"

definition sem_enqueue :: "nat \<Rightarrow> semaphore \<Rightarrow> semaphore" where
  "sem_enqueue p sm =
     (let index = wrap32 (front_proc_index sm + procs_queue_size sm) smod MAX_SEMAPHORE_PROC
      in sm\<lparr>procs_queue_size := wrap32 (procs_queue_size sm + 1), sem_queue := (sem_queue sm)[nat index := Some p]\<rparr>)"

definition sem_dequeue :: "semaphore \<Rightarrow> nat option \<times> semaphore" where
  "sem_dequeue sm =
     (sem_queue sm ! nat (front_proc_index sm),
      sm\<lparr>front_proc_index := wrap32 (front_proc_index sm + 1) smod MAX_SEMAPHORE_PROC,
         procs_queue_size := wrap32 (procs_queue_size sm - 1)\<rparr>)"

definition sem_acquire_enter :: "nat \<Rightarrow> semaphore \<Rightarrow> 'a ptab_scheme \<Rightarrow> bool \<times> semaphore \<times> 'a ptab_scheme" where
  "sem_acquire_enter me sm s =
     (if sem_value sm \<le> 0 then (False, sem_enqueue me sm, sleep_enter me (PidChan me) s)
      else (True, sm\<lparr>sem_value := wrap32 (sem_value sm - 1)\<rparr>, s))"

definition sem_acquire_resume :: "nat \<Rightarrow> semaphore \<Rightarrow> 'a ptab_scheme \<Rightarrow> semaphore \<times> 'a ptab_scheme" where
  "sem_acquire_resume me sm s = (sm\<lparr>sem_value := wrap32 (sem_value sm - 1)\<rparr>, sleep_leave me s)"

text \<open>No process sleeps on the \<open>pid\<close> field of a null pointer.\<close>

definition sem_release :: "semaphore \<Rightarrow> 'a ptab_scheme \<Rightarrow> semaphore \<times> 'a ptab_scheme" where
  "sem_release sm s =
     (let sm = sm\<lparr>sem_value := wrap32 (sem_value sm + 1)\<rparr>
      in if sem_value sm > 0 \<and> procs_queue_size sm > 0 then
           (case sem_dequeue sm of (p, sm) \<Rightarrow>
              (sm, case p of Some j \<Rightarrow> wakeup (PidChan j) s | None \<Rightarrow> s))
         else (sm, s))"

section \<open>The ring of waiting processes\<close>

definition sem_inv :: "semaphore \<Rightarrow> bool" where
  "sem_inv sm \<longleftrightarrow>
     length (sem_queue sm) = nat MAX_SEMAPHORE_PROC \<and> 0 \<le> front_proc_index sm \<and>
     front_proc_index sm < MAX_SEMAPHORE_PROC \<and> 0 \<le> procs_queue_size sm \<and> procs_queue_size sm \<le> MAX_SEMAPHORE_PROC"

definition sem_waiting :: "semaphore \<Rightarrow> nat option list" where
  "sem_waiting sm = ring_elems (sem_queue sm) (nat (front_proc_index sm)) (nat (procs_queue_size sm))"

lemma length_sem_waiting [simp]: "length (sem_waiting sm) = nat (procs_queue_size sm)"
  by (simp add: sem_waiting_def)

lemma sem_enqueue_queue:
  assumes "sem_inv sm" "procs_queue_size sm < MAX_SEMAPHORE_PROC"
  shows "sem_inv (sem_enqueue p sm)" "sem_waiting (sem_enqueue p sm) = sem_waiting sm @ [Some p]"
proof -
  let ?a = "nat (front_proc_index sm)" and ?n = "nat (procs_queue_size sm)"
  have b: "0 \<le> front_proc_index sm" "front_proc_index sm < 64" "0 \<le> procs_queue_size sm" "procs_queue_size sm < 64"
    and l: "length (sem_queue sm) = 64" using assms by (auto simp: sem_inv_def MAX_SEMAPHORE_PROC_def)
  have i: "nat (wrap32 (front_proc_index sm + procs_queue_size sm) smod MAX_SEMAPHORE_PROC) = (?a + ?n) mod 64"
    using b by (simp add: MAX_SEMAPHORE_PROC_def smod_nonneg nat_mod_distrib nat_add_distrib)
  have n: "nat (wrap32 (procs_queue_size sm + 1)) = Suc ?n" using b by (simp add: Suc_nat_eq_nat_zadd1)
  show "sem_inv (sem_enqueue p sm)"
    using assms b by (simp add: sem_inv_def sem_enqueue_def Let_def MAX_SEMAPHORE_PROC_def)
  show "sem_waiting (sem_enqueue p sm) = sem_waiting sm @ [Some p]"
    unfolding sem_waiting_def sem_enqueue_def Let_def i using n ring_elems_put [of ?n "sem_queue sm" ?a "Some p"] b l by simp
qed

lemma sem_dequeue_queue:
  assumes "sem_inv sm" "sem_waiting sm \<noteq> []"
  shows "sem_inv (snd (sem_dequeue sm))" "sem_waiting sm = fst (sem_dequeue sm) # sem_waiting (snd (sem_dequeue sm))"
proof -
  let ?a = "nat (front_proc_index sm)" and ?n = "nat (procs_queue_size sm)"
  have "0 < length (sem_waiting sm)" using assms(2) by blast
  then have b: "0 \<le> front_proc_index sm" "front_proc_index sm < 64" "0 < procs_queue_size sm" "procs_queue_size sm \<le> 64"
    and l: "length (sem_queue sm) = 64" using assms by (auto simp: sem_inv_def MAX_SEMAPHORE_PROC_def)
  have a: "nat (wrap32 (front_proc_index sm + 1) smod MAX_SEMAPHORE_PROC) = Suc ?a mod 64"
    using b by (simp add: MAX_SEMAPHORE_PROC_def smod_nonneg nat_mod_distrib nat_add_distrib)
  have m: "0 \<le> wrap32 (front_proc_index sm + 1) smod MAX_SEMAPHORE_PROC \<and>
      wrap32 (front_proc_index sm + 1) smod MAX_SEMAPHORE_PROC < 64"
    using b by (simp add: MAX_SEMAPHORE_PROC_def smod_nonneg)
  obtain k where k: "?n = Suc k" using b by (cases ?n) auto
  have n: "nat (wrap32 (procs_queue_size sm - 1)) = k" using b k by simp
  show "sem_inv (snd (sem_dequeue sm))" using b l m by (simp add: sem_inv_def sem_dequeue_def MAX_SEMAPHORE_PROC_def)
  show "sem_waiting sm = fst (sem_dequeue sm) # sem_waiting (snd (sem_dequeue sm))"
    unfolding sem_waiting_def sem_dequeue_def fst_conv snd_conv k
    using ring_elems_get [of "sem_queue sm" ?a k] ring_elems_mod [of "sem_queue sm" "Suc ?a" k] a n l b by simp
qed

definition sem_ok :: "semaphore \<Rightarrow> bool" where
  "sem_ok sm \<longleftrightarrow> sem_inv sm \<and> None \<notin> set (sem_waiting sm)"

definition sem_procs :: "semaphore \<Rightarrow> nat list" where
  "sem_procs sm = map the (sem_waiting sm)"

definition sem_pop :: "semaphore \<Rightarrow> nat \<times> semaphore" where
  "sem_pop sm = (case sem_dequeue sm of (p, sm) \<Rightarrow> (the p, sm))"

lemma length_sem_procs [simp]: "length (sem_procs sm) = nat (procs_queue_size sm)"
  by (simp add: sem_procs_def)

interpretation waiting: fifo sem_ok sem_procs "nat MAX_SEMAPHORE_PROC" sem_enqueue sem_pop
proof unfold_locales
  fix q x
  show "sem_ok q \<Longrightarrow> length (sem_procs q) < nat MAX_SEMAPHORE_PROC \<Longrightarrow>
      sem_ok (sem_enqueue x q) \<and> sem_procs (sem_enqueue x q) = sem_procs q @ [x]"
    using sem_enqueue_queue [of q x] by (simp add: sem_ok_def sem_procs_def MAX_SEMAPHORE_PROC_def)
  show "sem_ok q \<Longrightarrow> sem_procs q \<noteq> [] \<Longrightarrow>
      sem_ok (snd (sem_pop q)) \<and> sem_procs q = fst (sem_pop q) # sem_procs (snd (sem_pop q))"
    using sem_dequeue_queue [of q]
    by (simp add: sem_ok_def sem_procs_def sem_pop_def case_prod_beta)
  show "sem_ok q \<Longrightarrow> length (sem_procs q) \<le> nat MAX_SEMAPHORE_PROC"
    by (simp add: sem_ok_def sem_inv_def nat_mono)
qed

lemma sem_ok_value [simp]: "sem_ok (sm\<lparr>sem_value := v\<rparr>) = sem_ok sm"
  by (simp add: sem_ok_def sem_inv_def sem_waiting_def)

lemma sem_procs_value [simp]: "sem_procs (sm\<lparr>sem_value := v\<rparr>) = sem_procs sm"
  by (simp add: sem_procs_def sem_waiting_def)

lemma sem_value_pop [simp]: "sem_value (snd (sem_pop sm)) = sem_value sm"
  by (simp add: sem_pop_def sem_dequeue_def)

text \<open>The processes that a release makes runnable: the head of the queue, when a unit is free.\<close>

definition sem_woken :: "semaphore \<Rightarrow> nat list" where
  "sem_woken sm = (if wrap32 (sem_value sm + 1) > 0 then take 1 (sem_procs sm) else [])"

lemma sem_release_procs:
  assumes "sem_ok sm" "sem_release sm s = (sm', s')"
  shows "sem_ok sm' \<and> sem_procs sm = sem_woken sm @ sem_procs sm' \<and> sem_value sm' = wrap32 (sem_value sm + 1) \<and>
    s' = (case sem_woken sm of [] \<Rightarrow> s | j # _ \<Rightarrow> wakeup (PidChan j) s)"
proof -
  let ?u = "sm\<lparr>sem_value := wrap32 (sem_value sm + 1)\<rparr>"
  have ne: "procs_queue_size sm > 0 \<longleftrightarrow> sem_procs sm \<noteq> []"
    using length_sem_procs [of sm] by (metis length_greater_0_conv zero_less_nat_eq)
  show ?thesis
  proof (cases "wrap32 (sem_value sm + 1) > 0 \<and> sem_procs sm \<noteq> []")
    case True
    have "None \<notin> set (sem_waiting ?u)" "sem_waiting ?u \<noteq> []" "sem_inv ?u"
      using assms(1) True by (auto simp: sem_ok_def sem_inv_def sem_waiting_def sem_procs_def)
    then obtain j where j: "fst (sem_dequeue ?u) = Some j" using sem_dequeue_queue [of ?u] by (cases "fst (sem_dequeue ?u)") auto
    have p: "sem_ok (snd (sem_pop ?u)) \<and> sem_procs sm = fst (sem_pop ?u) # sem_procs (snd (sem_pop ?u))"
      using waiting.get_law [of ?u] assms(1) True by simp
    have "sm' = snd (sem_pop ?u)" "s' = wakeup (PidChan j) s" "fst (sem_pop ?u) = j"
      using assms(2) True ne j by (auto simp: sem_release_def sem_pop_def case_prod_beta)
    then show ?thesis using p True sem_value_pop [of ?u] by (simp add: sem_woken_def)
  next
    case False
    then show ?thesis using assms ne by (auto simp: sem_release_def sem_woken_def)
  qed
qed

end
