(* ===== verification/Uaccess.thy ===== *)
theory Uaccess
  imports Proc_Table
begin

text \<open>
  System-call arguments (the first half of \<^verbatim>\<open>src/xv6/syscall.c\<close>).  The kernel runs on the page
  table of the calling process and reads user memory through user addresses: \<open>kva\<close> is the
  translation that the processor makes, and an address it cannot translate is a page fault in the
  kernel, on which \<open>trap()\<close> panics.  The result \<open>None\<close> of a fetch is the return value \<open>-1\<close>.
\<close>

section \<open>Definitions\<close>

text \<open>Addresses from \<open>KERNBASE\<close> on are mapped one to one; the write-protect bit of \<open>%cr0\<close> makes the flag
  \<open>PTE_W\<close> binding for the kernel too.\<close>

definition kva :: "u32 \<Rightarrow> bool \<Rightarrow> u32 \<Rightarrow> 'a machine_scheme \<Rightarrow> u32 option" where
  "kva pgdir wr va s =
     (if KERNBASE \<le> va then Some va
      else
        (let pte = fst (walkpgdir pgdir va False s); e = load32 (mem s) pte
         in if pte = 0 \<or> \<not> present e \<or> wr \<and> e AND PTE_W = 0 then None
            else Some (P2V (PTE_ADDR e) + (va AND 0xFFF))))"

definition uread :: "u32 \<Rightarrow> u32 \<Rightarrow> 'a machine_scheme \<Rightarrow> u8 outcome" where
  "uread pgdir va s = (case kva pgdir False va s of None \<Rightarrow> Panic ''trap'' | Some a \<Rightarrow> Ret (mem s a))"

fun uread_bytes :: "u32 \<Rightarrow> nat \<Rightarrow> u32 \<Rightarrow> 'a machine_scheme \<Rightarrow> bytes outcome" where
  "uread_bytes pgdir 0 va s = Ret []"
| "uread_bytes pgdir (Suc n) va s =
     bnd (uread pgdir va s) (\<lambda>c. bnd (uread_bytes pgdir n (va + 1) s) (\<lambda>cs. Ret (c # cs)))"

fun uwrite_bytes :: "u32 \<Rightarrow> u32 \<Rightarrow> bytes \<Rightarrow> 'a machine_scheme \<Rightarrow> 'a machine_scheme outcome" where
  "uwrite_bytes pgdir va [] s = Ret s"
| "uwrite_bytes pgdir va (c # cs) s =
     (case kva pgdir True va s of
        None \<Rightarrow> Panic ''trap''
      | Some a \<Rightarrow> uwrite_bytes pgdir (va + 1) cs (s\<lparr>mem := (mem s)(a := c)\<rparr>))"

text \<open>A 32-bit value as the C type \<open>int\<close>, and its bytes in memory.\<close>

definition int_bytes :: "int \<Rightarrow> bytes" where
  "int_bytes v = (let w = word_of_int v :: u32 in [byte32 0 w, byte32 1 w, byte32 2 w, byte32 3 w])"

definition fetchint :: "nat \<Rightarrow> u32 \<Rightarrow> 'a ptab_scheme \<Rightarrow> int option outcome" where
  "fetchint me addr s =
     (let p = procs s ! me
      in if addr \<ge> p_sz p \<or> addr + 4 > p_sz p then Ret None
         else bnd (uread_bytes (p_pgdir p) 4 addr s) (\<lambda>bs. Ret (Some (sint (get32 bs 0)))))"

text \<open>The loop of \<open>fetchstr\<close>; the first argument counts the bytes between \<open>s\<close> and \<open>ep\<close>.  The result is
  the string, whose length the source returns.\<close>

fun fetchstr_loop :: "nat \<Rightarrow> u32 \<Rightarrow> u32 \<Rightarrow> 'a machine_scheme \<Rightarrow> bytes option outcome" where
  "fetchstr_loop 0 pgdir va s = Ret None"
| "fetchstr_loop (Suc n) pgdir va s =
     bnd (uread pgdir va s) (\<lambda>c.
       if c = 0 then Ret (Some [])
       else bnd (fetchstr_loop n pgdir (va + 1) s) (\<lambda>r. Ret (map_option (\<lambda>cs. c # cs) r)))"

definition fetchstr :: "nat \<Rightarrow> u32 \<Rightarrow> 'a ptab_scheme \<Rightarrow> (u32 \<times> bytes) option outcome" where
  "fetchstr me addr s =
     (let p = procs s ! me
      in if addr \<ge> p_sz p then Ret None
         else bnd (fetchstr_loop (unat (p_sz p) - unat addr) (p_pgdir p) addr s) (\<lambda>r.
                Ret (map_option (\<lambda>cs. (addr, cs)) r)))"

definition argint :: "nat \<Rightarrow> nat \<Rightarrow> 'a ptab_scheme \<Rightarrow> int option outcome" where
  "argint me n s = fetchint me (tf_esp (p_tf (procs s ! me)) + 4 + 4 * of_nat n) s"

definition argptr :: "nat \<Rightarrow> nat \<Rightarrow> int \<Rightarrow> 'a ptab_scheme \<Rightarrow> u32 option outcome" where
  "argptr me n len s =
     bnd (argint me n s) (\<lambda>r.
       case r of
         None \<Rightarrow> Ret None
       | Some i \<Rightarrow>
           (let a = word_of_int i :: u32; sz = p_sz (procs s ! me)
            in if len < 0 \<or> a \<ge> sz \<or> a + word_of_int len > sz then Ret None else Ret (Some a)))"

definition argstr :: "nat \<Rightarrow> nat \<Rightarrow> 'a ptab_scheme \<Rightarrow> (u32 \<times> bytes) option outcome" where
  "argstr me n s =
     bnd (argint me n s) (\<lambda>r.
       case r of
         None \<Rightarrow> Ret None
       | Some addr \<Rightarrow> fetchstr me (word_of_int addr) s)"

section \<open>Bounds\<close>

lemma fetchstr_loop_string:
  assumes "fetchstr_loop n pgdir va s = Ret (Some cs)"
  shows "length cs < n \<and> 0 \<notin> set cs \<and> uread_bytes pgdir (Suc (length cs)) va s = Ret (cs @ [0])"
  using assms
proof (induction n pgdir va s arbitrary: cs rule: fetchstr_loop.induct)
  case (2 n pgdir va s)
  from 2(2) obtain c where c: "uread pgdir va s = Ret c" and r: "if c = 0 then Ret (Some []) = Ret (Some cs)
      else bnd (fetchstr_loop n pgdir (va + 1) s) (\<lambda>r. Ret (map_option (\<lambda>cs. c # cs) r)) = Ret (Some cs)"
    by (auto split: if_splits)
  show ?case
  proof (cases "c = 0")
    case False
    then obtain ds where "fetchstr_loop n pgdir (va + 1) s = Ret (Some ds)" "cs = c # ds" using r by auto
    then show ?thesis using 2(1) [OF c False] c False by (auto simp del: uread_bytes.simps(2) simp: uread_bytes.simps(2) [of _ "Suc (length ds)"])
  qed (use c r in auto)
qed simp

lemma uread_bytes_4: "uread_bytes pgdir 4 va s = uread_bytes pgdir (Suc (Suc (Suc (Suc 0)))) va s"
  by (simp add: eval_nat_numeral)

lemma below_sz_no_wrap:
  assumes "a < sz" "sz \<le> KERNBASE" "0 \<le> len" "len < 2 ^ 31"
  shows "unat (a + word_of_int len) = unat a + nat len"
proof -
  have "word_of_int len = (of_nat (nat len) :: u32)" using assms(3) by simp
  moreover have "unat (of_nat (nat len) :: u32) = nat len"
    unfolding unat_of_nat by (rule mod_less) (use assms(4) in simp)
  ultimately have s: "unat (word_of_int len :: u32) = nat len" by simp
  moreover have "unat a < 2 ^ 31" using assms(1,2) by (simp add: word_less_nat_alt word_le_nat_alt KERNBASE_def)
  ultimately show ?thesis using assms(3,4) by (subst unat_add_no_wrap) (simp_all add: s nat_less_iff)
qed

section \<open>Properties\<close>

text \<open>C27: The checks on pointer arguments keep the kernel inside the caller's memory: when \<open>argptr\<close>
  accepts an argument as a buffer of \<open>len\<close> bytes, all of them lie below the size of the process, with
  no wrap-around, and the address is the argument that the caller pushed.\<close>

theorem argptr_in_bounds:
  assumes "argptr me n len s = Ret (Some a)" and "p_sz (procs s ! me) \<le> KERNBASE" and "len < 2 ^ 31"
  shows "0 \<le> len \<and> unat a + nat len \<le> unat (p_sz (procs s ! me)) \<and> argint me n s = Ret (Some (sint a))"
proof -
  obtain i where i: "argint me n s = Ret (Some i)" "a = word_of_int i" "0 \<le> len" "a < p_sz (procs s ! me)"
    "a + word_of_int len \<le> p_sz (procs s ! me)"
    using assms(1) by (auto simp: argptr_def Let_def split: option.splits if_splits)
  obtain bs where "i = sint (get32 bs 0)" using i(1) by (auto simp: argint_def fetchint_def Let_def split: if_splits)
  then have "sint a = i" using i(2) by simp
  then show ?thesis
    using i below_sz_no_wrap [OF i(4) assms(2) i(3) assms(3)] by (simp add: word_le_nat_alt)
qed

text \<open>A process whose page directory, page table and memory are filled with the byte 7, but for one zero.\<close>

definition sevens :: ptab where
  "sevens = \<lparr>mem = (\<lambda>_. 7)(0x87070802 := 0), freelist = 0, use_lock = True, kend = 0, kdata = 0,
     procs = [zero_proc\<lparr>p_sz := 0x10000803, p_pgdir := 0x80000000, p_tf := zero_trapframe\<lparr>tf_esp := 0x100\<rparr>\<rparr>],
     nextpid = 2, initproc = None, ticks = 0, cpu_proc = \<lambda>_. None\<rparr>"

lemmas uaccess_eval = sevens_def zero_proc_def zero_trapframe_def uread_def kva_def walkpgdir_def load32_def le32_def
  present_def PDX_def PTX_def PTE_P_def PTE_ADDR_def P2V_def KERNBASE_def Let_def get32_def

theorem argptr_in_bounds_witness:
  "argptr 0 0 16 sevens = Ret (Some 0x07070707) \<and> unat (0x07070707 :: u32) + nat 16 \<le> unat (p_sz (procs sevens ! 0))"
proof -
  have "argptr 0 0 16 sevens = Ret (Some 0x07070707)"
    by (simp add: argptr_def argint_def fetchint_def uread_bytes_4 uaccess_eval)
  moreover from argptr_in_bounds [OF this] have "unat (0x07070707 :: u32) + nat 16 \<le> unat (p_sz (procs sevens ! 0))"
    by (simp add: sevens_def KERNBASE_def)
  ultimately show ?thesis by blast
qed

text \<open>C28: A string argument is a C string inside the caller's memory: \<open>fetchstr\<close> returns the bytes in
  front of the first zero byte at the address, and the zero byte is still below the size of the
  process.\<close>

theorem fetchstr_in_bounds:
  assumes "fetchstr me addr s = Ret (Some (a, cs))"
  shows "a = addr \<and> 0 \<notin> set cs \<and> unat addr + length cs < unat (p_sz (procs s ! me)) \<and>
    uread_bytes (p_pgdir (procs s ! me)) (Suc (length cs)) addr s = Ret (cs @ [0])"
proof -
  let ?p = "procs s ! me"
  have l: "addr < p_sz ?p" "fetchstr_loop (unat (p_sz ?p) - unat addr) (p_pgdir ?p) addr s = Ret (Some cs)" "a = addr"
    using assms by (auto simp: fetchstr_def Let_def split: if_splits option.splits)
  then show ?thesis using fetchstr_loop_string [OF l(2)] by (auto simp: word_less_nat_alt)
qed

theorem fetchstr_in_bounds_witness:
  "fetchstr 0 0x10000800 sevens = Ret (Some (0x10000800, [7, 7])) \<and>
     unat (0x10000800 :: u32) + 2 < unat (p_sz (procs sevens ! 0))"
proof -
  have "unat (p_sz (procs sevens ! 0)) - unat (0x10000800 :: u32) = Suc (Suc (Suc 0))" by (simp add: sevens_def)
  then have "fetchstr 0 0x10000800 sevens = Ret (Some (0x10000800, [7, 7]))"
    by (simp add: fetchstr_def Let_def) (simp add: uaccess_eval)
  moreover from fetchstr_in_bounds [OF this] have "unat (0x10000800 :: u32) + 2 < unat (p_sz (procs sevens ! 0))" by simp
  ultimately show ?thesis by blast
qed

end
