(* ===== verification/File.thy ===== *)
theory File
  imports Directory Pipe Semaphore Uaccess
begin

text \<open>
  Open files (\<^verbatim>\<open>src/xv6/file.c\<close>, and the allocation of pipes in \<^verbatim>\<open>src/xv6/pipe.c\<close>), on the full state
  of the kernel.  A \<open>struct file*\<close> is an index into \<open>ftable\<close>.  A pipe lives in a page of its own, so \<open>pipes\<close>
  gives the pipe at each page address.  A routine that goes to sleep has the outcome \<open>Blocked\<close>.
\<close>

section \<open>Definitions\<close>

datatype ftype = FD_NONE | FD_PIPE | FD_INODE

definition NFILE :: nat where "NFILE = 100"

record fileobj =
  f_type :: ftype
  f_ref :: int
  f_readable :: bool
  f_writable :: bool
  f_pipe :: u32
  f_ip :: "nat option"
  f_off :: u32

definition zero_file :: fileobj where
  "zero_file = \<lparr>f_type = FD_NONE, f_ref = 0, f_readable = False, f_writable = False, f_pipe = 0, f_ip = None, f_off = 0\<rparr>"

text \<open>The whole kernel: the layers below, the file table, the pipes, the semaphores, and the record of
  system calls (the rows of \<open>syscalls_pid_stack\<close> and \<open>syscalls_order_pid_stack\<close>, and \<open>pid_num_of_calls\<close>).\<close>

record kern = consst +
  ftable :: "fileobj list"
  pipes :: "u32 \<Rightarrow> pipe"
  semtable :: "semaphore list"
  syscalls_pid_stack :: "int list list"
  syscalls_order_pid_stack :: "int list list"
  pid_num_of_calls :: "int list"

definition upd_file :: "nat \<Rightarrow> (fileobj \<Rightarrow> fileobj) \<Rightarrow> 'a kern_scheme \<Rightarrow> 'a kern_scheme" where
  "upd_file i f s = s\<lparr>ftable := (ftable s)[i := f (ftable s ! i)]\<rparr>"

definition filealloc :: "'a kern_scheme \<Rightarrow> nat option \<times> 'a kern_scheme" where
  "filealloc s =
     (case scan (\<lambda>f. f_ref f = 0) (ftable s) of
        None \<Rightarrow> (None, s)
      | Some i \<Rightarrow> (Some i, upd_file i (\<lambda>f. f\<lparr>f_ref := 1\<rparr>) s))"

definition filedup :: "nat \<Rightarrow> 'a kern_scheme \<Rightarrow> (nat \<times> 'a kern_scheme) outcome" where
  "filedup i s =
     (if f_ref (ftable s ! i) < 1 then Panic ''filedup''
      else Ret (i, upd_file i (\<lambda>f. f\<lparr>f_ref := wrap32 (f_ref f + 1)\<rparr>) s))"

definition pipeclose :: "u32 \<Rightarrow> bool \<Rightarrow> 'a kern_scheme \<Rightarrow> 'a kern_scheme outcome" where
  "pipeclose a writable s =
     (let (fin, p, s) = pipeclose_run a writable (pipes s a) s;
          s = s\<lparr>pipes := (pipes s)(a := p)\<rparr>
      in if fin then kfree a s else Ret s)"

text \<open>The inode a file refers to; a null pointer is a page fault.\<close>

definition with_ip :: "fileobj \<Rightarrow> (nat \<Rightarrow> 'b outcome) \<Rightarrow> 'b outcome" where
  "with_ip f k = (case f_ip f of None \<Rightarrow> Panic ''trap'' | Some i \<Rightarrow> k i)"

definition fileclose :: "nat \<Rightarrow> nat \<Rightarrow> 'a kern_scheme \<Rightarrow> 'a kern_scheme outcome" where
  "fileclose me i s =
     (let f = ftable s ! i
      in if f_ref f < 1 then Panic ''fileclose''
         else if f_ref f - 1 > 0 then Ret (upd_file i (\<lambda>f. f\<lparr>f_ref := f_ref f - 1\<rparr>) s)
         else
           (let s = upd_file i (\<lambda>f. f\<lparr>f_ref := 0, f_type := FD_NONE\<rparr>) s
            in case f_type f of
                 FD_PIPE \<Rightarrow> pipeclose (f_pipe f) (f_writable f) s
               | FD_INODE \<Rightarrow>
                   bnd (begin_op s) (\<lambda>s. bnd (with_ip f (\<lambda>ip. iput me ip s)) (\<lambda>s. end_op me s))
               | FD_NONE \<Rightarrow> Ret s))"

definition filestat :: "nat \<Rightarrow> nat \<Rightarrow> 'a kern_scheme \<Rightarrow> (stat option \<times> 'a kern_scheme) outcome" where
  "filestat me i s =
     (let f = ftable s ! i
      in if f_type f = FD_INODE then
           with_ip f (\<lambda>ip.
           bnd (ilock me ip s) (\<lambda>s.
             let st = stati ip s in bnd (iunlock me ip s) (\<lambda>s. Ret (Some st, s))))
         else Ret (None, s))"

text \<open>\<open>fileread\<close> returns the bytes that the source stores at \<open>addr\<close>, in order; \<open>filewrite\<close> takes the \<open>n\<close>
  bytes at \<open>addr\<close>.\<close>

definition fileread :: "nat \<Rightarrow> nat \<Rightarrow> int \<Rightarrow> 'a kern_scheme \<Rightarrow> (int \<times> bytes \<times> 'a kern_scheme) outcome" where
  "fileread me i n s =
     (let f = ftable s ! i
      in if \<not> f_readable f then Ret (- 1, [], s)
         else
           (case f_type f of
              FD_PIPE \<Rightarrow>
                (case piperead_run me (f_pipe f) (nat n) (pipes s (f_pipe f)) s of
                   (Done None, p, s) \<Rightarrow> Ret (- 1, [], s)
                 | (Done (Some bs), p, s) \<Rightarrow>
                     Ret (int (length bs), bs, s\<lparr>pipes := (pipes s)(f_pipe f := p)\<rparr>)
                 | (Sleeps, _, _) \<Rightarrow> Blocked)
            | FD_INODE \<Rightarrow>
                with_ip f (\<lambda>ip.
                bnd (ilock me ip s) (\<lambda>s.
                bnd (readi me ip (f_off (ftable s ! i)) (word_of_int n) s) (\<lambda>(r, bs, s).
                  let s = (if r > 0 then upd_file i (\<lambda>f. f\<lparr>f_off := f_off f + word_of_int r\<rparr>) s else s)
                  in bnd (iunlock me ip s) (\<lambda>s. Ret (r, bs, s)))))
            | FD_NONE \<Rightarrow> Panic ''fileread''))"

text \<open>\<open>((MAXOPBLOCKS-1-1-2) / 2) * 512\<close>\<close>

definition filewrite_max :: int where
  "filewrite_max = ((MAXOPBLOCKS - 1 - 1 - 2) sdiv 2) * 512"

text \<open>The loop of \<open>filewrite\<close> on the bytes not yet written; the result tells whether it wrote them all.\<close>

function filewrite_loop :: "nat \<Rightarrow> nat \<Rightarrow> nat \<Rightarrow> bytes \<Rightarrow> 'a kern_scheme \<Rightarrow> (bool \<times> 'a kern_scheme) outcome" where
  "filewrite_loop me i ip bs s =
     (if bs = [] then Ret (True, s)
      else
        (let n1 = min (length bs) (nat filewrite_max)
         in bnd (begin_op s) (\<lambda>s.
            bnd (ilock me ip s) (\<lambda>s.
            bnd (writei me ip (take n1 bs) (f_off (ftable s ! i)) s) (\<lambda>(r, s).
              let s = (if r > 0 then upd_file i (\<lambda>f. f\<lparr>f_off := f_off f + word_of_int r\<rparr>) s else s)
              in bnd (iunlock me ip s) (\<lambda>s.
                 bnd (end_op me s) (\<lambda>s.
                   if r < 0 then Ret (False, s)
                   else if r \<noteq> int n1 then Panic ''short filewrite''
                   else filewrite_loop me i ip (drop n1 bs) s)))))))"
  by pat_completeness auto
termination
  by (relation "measure (\<lambda>(me, i, ip, bs, s). length bs)") (auto simp: filewrite_max_def MAXOPBLOCKS_def sdiv_nonneg)

definition filewrite :: "nat \<Rightarrow> nat \<Rightarrow> bytes \<Rightarrow> 'a kern_scheme \<Rightarrow> (int \<times> 'a kern_scheme) outcome" where
  "filewrite me i bs s =
     (let f = ftable s ! i; n = int (length bs)
      in if \<not> f_writable f then Ret (- 1, s)
         else
           (case f_type f of
              FD_PIPE \<Rightarrow>
                (case pipewrite_run me (f_pipe f) bs 0 (pipes s (f_pipe f)) s of
                   (Done ok, _, p, s) \<Rightarrow> Ret (if ok then n else - 1, s\<lparr>pipes := (pipes s)(f_pipe f := p)\<rparr>)
                 | (Sleeps, _, _, _) \<Rightarrow> Blocked)
            | FD_INODE \<Rightarrow>
                with_ip f (\<lambda>ip.
                bnd (filewrite_loop me i ip bs s) (\<lambda>(all, s). Ret (if all then n else - 1, s)))
            | FD_NONE \<Rightarrow> Panic ''filewrite''))"

subsection \<open>Pipes\<close>

definition pipealloc :: "nat \<Rightarrow> 'a kern_scheme \<Rightarrow> ((nat \<times> nat) option \<times> 'a kern_scheme) outcome" where
  "pipealloc me s =
     (case filealloc s of
        (None, s) \<Rightarrow> Ret (None, s)
      | (Some f0, s) \<Rightarrow>
          (case filealloc s of
             (None, s) \<Rightarrow> bnd (fileclose me f0 s) (\<lambda>s. Ret (None, s))
           | (Some f1, s) \<Rightarrow>
               (let (p, s) = kalloc s
                in if p = 0 then
                     bnd (fileclose me f0 s) (\<lambda>s. bnd (fileclose me f1 s) (\<lambda>s. Ret (None, s)))
                   else
                     (let s = s\<lparr>pipes := (pipes s)(p := pipe_init (pipes s p))\<rparr>;
                          s = upd_file f0 (\<lambda>f. f\<lparr>f_type := FD_PIPE, f_readable := True, f_writable := False, f_pipe := p\<rparr>) s;
                          s = upd_file f1 (\<lambda>f. f\<lparr>f_type := FD_PIPE, f_readable := False, f_writable := True, f_pipe := p\<rparr>) s
                      in Ret (Some (f0, f1), s)))))"

subsection \<open>Changing the size of a file\<close>

text \<open>A string literal of the source.\<close>

definition cstr :: "string \<Rightarrow> bytes" where
  "cstr t = map of_char t"

definition file_inode_exists :: "nat \<Rightarrow> bytes \<Rightarrow> 'a kern_scheme \<Rightarrow> (bool \<times> 'a kern_scheme) outcome" where
  "file_inode_exists me path s =
     bnd (namei me path s) (\<lambda>(r, s).
       case r of
         None \<Rightarrow> bnd (cprintf (cstr ''file error: file not found'' @ [10]) [] s) (\<lambda>s. Ret (False, s))
       | Some ip \<Rightarrow>
           (let ty = i_type (icache s ! ip)
            in if ty = T_FILE then Ret (True, s)
               else if ty = T_DIR then
                 bnd (cprintf (cstr ''file error: file is a directory'' @ [10]) [] s) (\<lambda>s. Ret (False, s))
               else if ty = T_DEV then
                 bnd (cprintf (cstr ''file error: file is a device'' @ [10]) [] s) (\<lambda>s. Ret (False, s))
               else
                 bnd (cprintf (cstr ''file error: file is of unknown type'' @ [10]) [] s) (\<lambda>s. Ret (False, s))))"

text \<open>The \<open>for\<close> loop that writes zeros, with the results of \<open>writei\<close> ignored.  When \<open>i += BSIZE\<close> wraps
  around, \<open>i\<close> has skipped every value from \<open>length\<close> up, and the loop does not end.\<close>

function grow_loop :: "nat \<Rightarrow> nat \<Rightarrow> int \<Rightarrow> int \<Rightarrow> 'a kern_scheme \<Rightarrow> 'a kern_scheme outcome" where
  "grow_loop me ip i len s =
     (if i < len then
        (let n = wrap32 (len - i);
             n = (if n > int BSIZE then int BSIZE else n)
         in bnd (writei me ip (replicate (nat n) 0) (word_of_int i) s) (\<lambda>(r, s).
              if i + int BSIZE < 2 ^ 31 then grow_loop me ip (i + int BSIZE) len s else Blocked))
      else Ret s)"
  by pat_completeness auto
termination
  by (relation "measure (\<lambda>(me, ip, i, len, s). nat (len - i))") (auto simp: BSIZE_def)

declare grow_loop.simps [simp del]

text \<open>\<open>kalloc()\<close> may return a null pointer, which is not tested: user address 0 is then cleared.\<close>

definition zero_page :: "nat \<Rightarrow> 'a kern_scheme \<Rightarrow> 'a kern_scheme outcome" where
  "zero_page me s =
     (let (buf, s) = kalloc s
      in if buf = 0 then uwrite_bytes (p_pgdir (procs s ! me)) 0 (replicate BSIZE 0) s
         else Ret (s\<lparr>mem := memset (mem s) buf 0 (of_nat BSIZE)\<rparr>))"

definition change_file_size :: "nat \<Rightarrow> bytes \<Rightarrow> int \<Rightarrow> 'a kern_scheme \<Rightarrow> (int \<times> 'a kern_scheme) outcome" where
  "change_file_size me path len s =
     (if len < 0 then bnd (cprintf (cstr ''change_file_size: length is negative'' @ [10]) [] s) (\<lambda>s. Ret (- 1, s))
      else
        bnd (file_inode_exists me path s) (\<lambda>(ok, s).
          if \<not> ok then Ret (- 1, s)
          else
            bnd (begin_op s) (\<lambda>s.
            bnd (namei me path s) (\<lambda>(r, s).
              case r of
                None \<Rightarrow> Panic ''ilock''
              | Some ip \<Rightarrow>
                  bnd (ilock me ip s) (\<lambda>s.
                    let sz = i_size (icache s ! ip)
                    in bnd (if sz < word_of_int len then
                              bnd (zero_page me s) (\<lambda>s.
                              bnd (grow_loop me ip (sint sz) len s) (\<lambda>s.
                                iupdate me ip (upd_inode ip (\<lambda>p. p\<lparr>i_size := word_of_int len\<rparr>) s)))
                            else if sz > word_of_int len then
                              iupdate me ip (upd_inode ip (\<lambda>p. p\<lparr>i_size := word_of_int len\<rparr>) s)
                            else Ret s) (\<lambda>s.
                       bnd (iunlock me ip s) (\<lambda>s.
                       bnd (end_op me s) (\<lambda>s.
                         Ret (0, s)))))))))"

text \<open>The statically allocated tables before anything runs; the geometry is that of the file system
  image.\<close>

definition zero_kern :: kern where
  "zero_kern =
     \<lparr>mem = \<lambda>_. 0, freelist = 0, use_lock = False, kend = 0x80110000, kdata = 0x80108000,
      procs = replicate NPROC zero_proc, nextpid = 1, initproc = None, ticks = 0, cpu_proc = \<lambda>_. None,
      memdisk = replicate 1000 (replicate BSIZE 0), disk_writes = [], bufs = replicate NBUF zero_buf, lru = rev [0..<NBUF],
      log_start = 2, log_size = LOGSIZE, log_outstanding = 0, log_committing = False, log_dev = ROOTDEV, log_lh = [],
      sb = \<lparr>sb_size = 1000, sb_nblocks = 941, sb_ninodes = 200, sb_nlog = 30, sb_logstart = 2, sb_inodestart = 32, sb_bmapstart = 58\<rparr>,
      icache = replicate NINODE zero_inode,
      panicked = False, uart = False, uart_out = [], crt = \<lambda>_. 0, crt_pos = 0,
      in_buf = replicate INPUT_BUF 0, in_r = 0, in_w = 0, in_e = 0, in_end = 0,
      command = replicate (nat MAX_COMMAND_NUM * INPUT_BUF) 0, command_num = 0, size_command = 0,
      ftable = replicate NFILE zero_file, pipes = \<lambda>_. \<lparr>pi_data = [], nread = 0, nwrite = 0, readopen = False, writeopen = False\<rparr>,
      semtable = replicate MAX_SEMAPHORE zero_semaphore,
      syscalls_pid_stack = [], syscalls_order_pid_stack = [], pid_num_of_calls = []\<rparr>"

end
