(* ===== verification/Scheduler.thy ===== *)
theory Scheduler
  imports Proc_Table
begin

text \<open>
  The three-level scheduler of \<^verbatim>\<open>src/xv6/proc.c\<close>: aging (\<open>fix_queues\<close>), round robin for queue 1,
  lottery for queue 2, best job first for queue 3, and one iteration of \<open>scheduler()\<close>.
  The loops over the table are recursions over the list of its entries that carry the index.
\<close>

section \<open>Definitions\<close>

definition fix_one :: "u32 \<Rightarrow> proc \<Rightarrow> proc" where
  "fix_one tks p =
     (if p_state p = RUNNABLE then
        if STARVING_THRESHOLD \<le> tks - word_of_int (p_entered_queue p) then
          p\<lparr>p_queue := 1, p_entered_queue := sint tks\<rparr>
        else p
      else p)"

definition fix_queues :: "'a ptab_scheme \<Rightarrow> 'a ptab_scheme" where
  "fix_queues s = s\<lparr>procs := map (fix_one (ticks s)) (procs s)\<rparr>"

definition runnable_in :: "int \<Rightarrow> proc \<Rightarrow> bool" where
  "runnable_in q p \<longleftrightarrow> p_state p = RUNNABLE \<and> p_queue p = q"

definition starved_for :: "int \<Rightarrow> proc \<Rightarrow> int" where
  "starved_for time p = wrap32 (time - p_entered_queue p)"

fun round_robin_loop :: "int \<Rightarrow> nat \<Rightarrow> proc list \<Rightarrow> int \<Rightarrow> nat option \<Rightarrow> nat option" where
  "round_robin_loop time i [] starvation_time min_p = min_p"
| "round_robin_loop time i (p # ps) starvation_time min_p =
     (if p_state p \<noteq> RUNNABLE \<or> p_queue p \<noteq> 1 then
        round_robin_loop time (Suc i) ps starvation_time min_p
      else if starved_for time p > starvation_time then
        round_robin_loop time (Suc i) ps (starved_for time p) (Some i)
      else round_robin_loop time (Suc i) ps starvation_time min_p)"

definition round_robin :: "'a ptab_scheme \<Rightarrow> nat option" where
  "round_robin s = round_robin_loop (sint (ticks s)) 0 (procs s) 0 None"

text \<open>\<open>get_rank\<close>: the integer part is computed in \<open>int\<close>, each float operation rounds with \<open>fl\<close>.\<close>

definition get_rank :: "(rat \<Rightarrow> rat) \<Rightarrow> proc \<Rightarrow> rat" where
  "get_rank fl p =
     fl (fl (of_int (wrap32 (wrap32 (p_priority p * p_priority_ratio p)
                             + wrap32 (p_entered_queue p * p_arrival_time_ratio p))))
         + fl (p_executed_cycle p * fl (of_int (p_executed_cycle_ratio p))))"

fun bjf_loop :: "(rat \<Rightarrow> rat) \<Rightarrow> nat \<Rightarrow> proc list \<Rightarrow> rat \<Rightarrow> nat option \<Rightarrow> nat option" where
  "bjf_loop fl i [] min_rank min_p = min_p"
| "bjf_loop fl i (p # ps) min_rank min_p =
     (if p_state p \<noteq> RUNNABLE \<or> p_queue p \<noteq> 3 then bjf_loop fl (Suc i) ps min_rank min_p
      else if get_rank fl p < min_rank then bjf_loop fl (Suc i) ps (get_rank fl p) (Some i)
      else bjf_loop fl (Suc i) ps min_rank min_p)"

definition bjf :: "(rat \<Rightarrow> rat) \<Rightarrow> 'a ptab_scheme \<Rightarrow> nat option" where
  "bjf fl s = bjf_loop fl 0 (procs s) MIN_BJF_RANK None"

fun total_tickets :: "proc list \<Rightarrow> int \<Rightarrow> int" where
  "total_tickets [] t = t"
| "total_tickets (p # ps) t =
     (if p_state p \<noteq> RUNNABLE \<or> p_queue p \<noteq> 2 then total_tickets ps t
      else total_tickets ps (wrap32 (t + p_tickets p)))"

fun lottery_loop :: "nat \<Rightarrow> proc list \<Rightarrow> int \<Rightarrow> nat option" where
  "lottery_loop i [] winning_ticket = None"
| "lottery_loop i (p # ps) winning_ticket =
     (if p_state p \<noteq> RUNNABLE \<or> p_queue p \<noteq> 2 then lottery_loop (Suc i) ps winning_ticket
      else
        (let winning_ticket = wrap32 (winning_ticket - p_tickets p)
         in if winning_ticket \<le> 0 then Some i else lottery_loop (Suc i) ps winning_ticket))"

definition lottery :: "'a ptab_scheme \<Rightarrow> nat option outcome" where
  "lottery s =
     bnd (generate_random_number 1 (total_tickets (procs s) 0) (ticks s))
       (\<lambda>winning_ticket. Ret (lottery_loop 0 (procs s) winning_ticket))"

definition scheduler_choose :: "(rat \<Rightarrow> rat) \<Rightarrow> 'a ptab_scheme \<Rightarrow> (nat option \<times> 'a ptab_scheme) outcome" where
  "scheduler_choose fl s =
     (let s = fix_queues s
      in case round_robin s of
           Some i \<Rightarrow> Ret (Some i, s)
         | None \<Rightarrow>
             bnd (lottery s) (\<lambda>p.
               case p of
                 Some i \<Rightarrow> Ret (Some i, s)
               | None \<Rightarrow> Ret (bjf fl s, s)))"

text \<open>\<open>switchuvm\<close> of \<^verbatim>\<open>vm.c\<close>: the kernel stack top for the task state segment and the page
  directory for \<open>cr3\<close>.\<close>

definition switchuvm :: "proc \<Rightarrow> (u32 \<times> u32) outcome" where
  "switchuvm p =
     (if p_kstack p = 0 then Panic ''switchuvm: no kstack''
      else if p_pgdir p = 0 then Panic ''switchuvm: no pgdir''
      else Ret (p_kstack p + 4096, V2P (p_pgdir p)))"

text \<open>One iteration of \<open>scheduler()\<close> on CPU \<open>c\<close> up to the switch to the chosen process, and the
  rest of the iteration when the process has switched back.\<close>

definition scheduler_dispatch ::
  "(rat \<Rightarrow> rat) \<Rightarrow> nat \<Rightarrow> 'a ptab_scheme \<Rightarrow> (nat option \<times> 'a ptab_scheme) outcome" where
  "scheduler_dispatch fl c s =
     bnd (scheduler_choose fl s) (\<lambda>(p, s).
       case p of
         None \<Rightarrow> Ret (None, s)
       | Some i \<Rightarrow>
           (let s = upd_proc i (\<lambda>p. p\<lparr>p_entered_queue := sint (ticks s)\<rparr>) s;
                s = s\<lparr>cpu_proc := (cpu_proc s)(c := Some i)\<rparr>
            in bnd (switchuvm (procs s ! i)) (\<lambda>_.
                 Ret (Some i, upd_proc i (\<lambda>p. p\<lparr>p_state := RUNNING\<rparr>) s))))"

definition scheduler_return :: "nat \<Rightarrow> 'a ptab_scheme \<Rightarrow> 'a ptab_scheme" where
  "scheduler_return c s = s\<lparr>cpu_proc := (cpu_proc s)(c := None)\<rparr>"

section \<open>Selection loops\<close>

text \<open>The common shape of \<open>round_robin\<close> and \<open>bjf\<close>: keep the first entry whose key is strictly
  better than every key seen so far, starting from a bound.\<close>

fun best_from ::
  "('k \<Rightarrow> 'k \<Rightarrow> bool) \<Rightarrow> ('a \<Rightarrow> bool) \<Rightarrow> ('a \<Rightarrow> 'k) \<Rightarrow> nat \<Rightarrow> 'a list \<Rightarrow> 'k \<Rightarrow> nat option \<Rightarrow> nat option" where
  "best_from better elig key i [] b m = m"
| "best_from better elig key i (x # xs) b m =
     (if elig x \<and> better (key x) b then best_from better elig key (Suc i) xs (key x) (Some i)
      else best_from better elig key (Suc i) xs b m)"

definition best_at ::
  "('k \<Rightarrow> 'k \<Rightarrow> bool) \<Rightarrow> ('a \<Rightarrow> bool) \<Rightarrow> ('a \<Rightarrow> 'k) \<Rightarrow> 'a list \<Rightarrow> 'k \<Rightarrow> nat \<Rightarrow> bool" where
  "best_at better elig key xs b k \<longleftrightarrow>
     k < length xs \<and> elig (xs ! k) \<and> better (key (xs ! k)) b \<and>
     (\<forall>j < length xs. elig (xs ! j) \<longrightarrow> \<not> better (key (xs ! j)) (key (xs ! k))) \<and>
     (\<forall>j < k. elig (xs ! j) \<longrightarrow> better (key (xs ! k)) (key (xs ! j)))"

locale strict_preference =
  fixes better :: "'k \<Rightarrow> 'k \<Rightarrow> bool"
  assumes better_irrefl: "\<not> better x x"
    and better_trans: "better x y \<Longrightarrow> better y z \<Longrightarrow> better x z"
    and better_total: "x \<noteq> y \<Longrightarrow> better x y \<or> better y x"
begin

lemma best_from_keep:
  "\<forall>x \<in> set xs. elig x \<longrightarrow> \<not> better (key x) b \<Longrightarrow> best_from better elig key i xs b m = m"
  by (induction xs arbitrary: i) auto

lemma best_from_found:
  assumes "\<exists>x \<in> set xs. elig x \<and> better (key x) b"
  shows "\<exists>k. best_from better elig key i xs b m = Some (i + k) \<and> best_at better elig key xs b k"
  using assms
proof (induction xs arbitrary: i b m)
  case Nil
  then show ?case by simp
next
  case (Cons x xs)
  show ?case
  proof (cases "elig x \<and> better (key x) b")
    case True
    show ?thesis
    proof (cases "\<exists>y \<in> set xs. elig y \<and> better (key y) (key x)")
      case better: True
      from Cons.IH [OF this, of "Suc i" "Some i"] obtain k where
        k: "best_from better elig key (Suc i) xs (key x) (Some i) = Some (Suc i + k)"
           "best_at better elig key xs (key x) k" by blast
      have "best_at better elig key (x # xs) b (Suc k)"
        using k(2) True better_trans better_irrefl
        by (auto simp: best_at_def nth_Cons split: nat.splits)
      then show ?thesis using k(1) True by (intro exI [of _ "Suc k"]) simp
    next
      case none: False
      then have "best_from better elig key (Suc i) xs (key x) (Some i) = Some i"
        by (intro best_from_keep) blast
      moreover have "best_at better elig key (x # xs) b 0"
        using True none better_irrefl by (auto simp: best_at_def nth_Cons split: nat.splits)
      ultimately show ?thesis using True by (intro exI [of _ 0]) simp
    qed
  next
    case False
    then have "\<exists>y \<in> set xs. elig y \<and> better (key y) b" using Cons.prems by auto
    from Cons.IH [OF this, of "Suc i" m] obtain k where
      k: "best_from better elig key (Suc i) xs b m = Some (Suc i + k)" "best_at better elig key xs b k"
      by blast
    have ord: "better (key (xs ! k)) (key x)" if "elig x"
    proof -
      have "better (key (xs ! k)) b" using k(2) by (simp add: best_at_def)
      moreover have "\<not> better (key x) b" using False that by simp
      ultimately show ?thesis using better_trans better_total by metis
    qed
    have "best_at better elig key (x # xs) b (Suc k)"
      using k(2) ord better_trans better_irrefl
      by (auto simp: best_at_def nth_Cons split: nat.splits)
    then show ?thesis using k(1) False by (intro exI [of _ "Suc k"]) auto
  qed
qed

lemma best_at_unique:
  assumes "best_at better elig key xs b k" and "best_at better elig key xs b k'"
  shows "k = k'"
proof (rule ccontr)
  assume "k \<noteq> k'"
  then consider "k < k'" | "k' < k" by linarith
  then show False using assms by cases (auto simp: best_at_def)
qed

lemma best_from_iff:
  "best_from better elig key 0 xs b None = Some k \<longleftrightarrow> best_at better elig key xs b k"
proof (cases "\<exists>x \<in> set xs. elig x \<and> better (key x) b")
  case True
  from best_from_found [OF this, of 0 None] show ?thesis by (auto dest: best_at_unique)
next
  case False
  then have "best_from better elig key 0 xs b None = None" by (intro best_from_keep) blast
  moreover have "\<not> best_at better elig key xs b k" using False by (auto simp: best_at_def)
  ultimately show ?thesis by simp
qed

end

interpretation longest: strict_preference "(>) :: int \<Rightarrow> int \<Rightarrow> bool"
  by unfold_locales auto

interpretation least: strict_preference "(<) :: rat \<Rightarrow> rat \<Rightarrow> bool"
  by unfold_locales auto

lemma round_robin_loop_best:
  "round_robin_loop time i ps b m = best_from (>) (runnable_in 1) (starved_for time) i ps b m"
  by (induction time i ps b m rule: round_robin_loop.induct) (auto simp: runnable_in_def)

lemma bjf_loop_best:
  "bjf_loop fl i ps b m = best_from (<) (runnable_in 3) (get_rank fl) i ps b m"
  by (induction fl i ps b m rule: bjf_loop.induct) (auto simp: runnable_in_def)

section \<open>Scheduling policies\<close>

text \<open>What \<open>scheduler()\<close> relies on: a policy only names runnable entries of its own queue.\<close>

locale policy =
  fixes pick :: "proc list \<Rightarrow> nat option" and level :: int
  assumes pick_runnable: "pick ps = Some i \<Longrightarrow> i < length ps \<and> runnable_in level (ps ! i)"
begin

lemma pick_none: "\<forall>p \<in> set ps. \<not> runnable_in level p \<Longrightarrow> pick ps = None"
  using pick_runnable [of ps] by (cases "pick ps") fastforce+

lemma pick_state: "pick ps = Some i \<Longrightarrow> p_state (ps ! i) = RUNNABLE"
  using pick_runnable by (auto simp: runnable_in_def)

end

lemma lottery_loop_runnable:
  "lottery_loop i ps w = Some k \<Longrightarrow> i \<le> k \<and> k - i < length ps \<and> runnable_in 2 (ps ! (k - i))"
proof (induction i ps w rule: lottery_loop.induct)
  case (1 i w)
  then show ?case by simp
next
  case (2 i p ps w)
  show ?case
  proof (cases "k = i")
    case True
    then show ?thesis using 2 by (auto simp: runnable_in_def Let_def split: if_splits)
  next
    case False
    then have "Suc i \<le> k \<and> k - Suc i < length ps \<and> runnable_in 2 (ps ! (k - Suc i))"
      using 2 by (auto simp: Let_def split: if_splits)
    moreover from this have "k - i = Suc (k - Suc i)" by arith
    ultimately show ?thesis by auto
  qed
qed

interpretation rr: policy "\<lambda>ps. round_robin_loop time 0 ps 0 None" 1
proof unfold_locales
  fix ps i assume "round_robin_loop time 0 ps 0 None = Some i"
  then have r: "best_from (>) (runnable_in 1) (starved_for time) 0 ps 0 None = Some i"
    by (simp add: round_robin_loop_best)
  then have "\<exists>x \<in> set ps. runnable_in 1 x \<and> starved_for time x > 0"
    using longest.best_from_keep [where xs = ps and elig = "runnable_in 1"
        and key = "starved_for time" and b = 0 and i = 0 and m = None] by fastforce
  from longest.best_from_found [OF this, of 0 None] r
  show "i < length ps \<and> runnable_in 1 (ps ! i)" by (auto simp: best_at_def)
qed

interpretation lot: policy "\<lambda>ps. lottery_loop 0 ps w" 2
  by unfold_locales (use lottery_loop_runnable [of 0] in auto)

interpretation bj: policy "\<lambda>ps. bjf_loop fl 0 ps MIN_BJF_RANK None" 3
proof unfold_locales
  fix ps i assume "bjf_loop fl 0 ps MIN_BJF_RANK None = Some i"
  then have r: "best_from (<) (runnable_in 3) (get_rank fl) 0 ps MIN_BJF_RANK None = Some i"
    by (simp add: bjf_loop_best)
  then have "\<exists>x \<in> set ps. runnable_in 3 x \<and> get_rank fl x < MIN_BJF_RANK"
    using least.best_from_keep [where xs = ps and elig = "runnable_in 3"
        and key = "get_rank fl" and b = MIN_BJF_RANK and i = 0 and m = None] by fastforce
  from least.best_from_found [OF this, of 0 None] r
  show "i < length ps \<and> runnable_in 3 (ps ! i)" by (auto simp: best_at_def)
qed

section \<open>Tickets and random numbers\<close>

text \<open>The tickets of the runnable processes of queue 2 among the given entries.\<close>

definition pot :: "proc list \<Rightarrow> int" where
  "pot ps = sum_list (map p_tickets (filter (runnable_in 2) ps))"

lemma pot_Cons: "pot (p # ps) = (if runnable_in 2 p then p_tickets p else 0) + pot ps"
  by (simp add: pot_def)

lemma pot_nonneg: "\<forall>p \<in> set ps. runnable_in 2 p \<longrightarrow> 0 \<le> p_tickets p \<Longrightarrow> 0 \<le> pot ps"
  by (induction ps) (auto simp: pot_Cons pot_def [of "[]"])

lemma total_tickets_pot:
  "\<forall>p \<in> set ps. runnable_in 2 p \<longrightarrow> 0 \<le> p_tickets p \<Longrightarrow> 0 \<le> t \<Longrightarrow> t + pot ps < 2 ^ 31 \<Longrightarrow>
    total_tickets ps t = t + pot ps"
proof (induction ps arbitrary: t)
  case Nil
  then show ?case by (simp add: pot_def)
next
  case (Cons p ps)
  have "0 \<le> pot ps" using Cons.prems(1) by (intro pot_nonneg) simp
  then show ?case using Cons by (auto simp: pot_Cons runnable_in_def)
qed

lemma lottery_loop_interval:
  "\<forall>p \<in> set ps. runnable_in 2 p \<longrightarrow> 0 \<le> p_tickets p \<Longrightarrow> 1 \<le> w \<Longrightarrow> w \<le> pot ps \<Longrightarrow> pot ps < 2 ^ 31 \<Longrightarrow>
    \<exists>k. lottery_loop i ps w = Some (i + k) \<and> k < length ps \<and> runnable_in 2 (ps ! k) \<and>
      pot (take k ps) < w \<and> w \<le> pot (take (Suc k) ps)"
proof (induction ps arbitrary: i w)
  case Nil
  then show ?case by (simp add: pot_def)
next
  case (Cons p ps)
  have rest: "0 \<le> pot ps" using Cons.prems(1) by (intro pot_nonneg) simp
  show ?case
  proof (cases "runnable_in 2 p \<and> w \<le> p_tickets p")
    case True
    then have "lottery_loop i (p # ps) w = Some i"
      using Cons.prems rest by (auto simp: runnable_in_def pot_Cons)
    then show ?thesis using True Cons.prems by (intro exI [of _ 0]) (auto simp: pot_Cons pot_def [of "[]"])
  next
    case False
    let ?t = "if runnable_in 2 p then p_tickets p else 0"
    have "\<exists>k. lottery_loop (Suc i) ps (w - ?t) = Some (Suc i + k) \<and> k < length ps \<and>
        runnable_in 2 (ps ! k) \<and> pot (take k ps) < w - ?t \<and> w - ?t \<le> pot (take (Suc k) ps)"
      by (rule Cons.IH) (use Cons.prems False in \<open>auto simp: pot_Cons split: if_splits\<close>)
    then obtain k where k: "lottery_loop (Suc i) ps (w - ?t) = Some (Suc i + k)" "k < length ps"
      "runnable_in 2 (ps ! k)" "pot (take k ps) < w - ?t" "w - ?t \<le> pot (take (Suc k) ps)" by blast
    have "lottery_loop i (p # ps) w = lottery_loop (Suc i) ps (w - ?t)"
      using False Cons.prems rest by (auto simp: runnable_in_def pot_Cons Let_def)
    then show ?thesis using k by (intro exI [of _ "Suc k"]) (auto simp: pot_Cons)
  qed
qed

lemma smod_bounds: "0 < (b::int) \<Longrightarrow> 0 \<le> a \<Longrightarrow> 0 \<le> a smod b \<and> a smod b < b"
  by (simp add: smod_nonneg)

text \<open>In the first hours of uptime the arithmetic does not overflow and the number is in range.\<close>

lemma rand_expr_nonneg:
  assumes mx: "1 < mx" "mx \<le> 46340" and t: "0 \<le> t" and small: "mx * (t + 2) * 132 < 2 ^ 31"
  shows "0 \<le> rand_expr mx t mx"
proof -
  have t31: "t + 2 < 2 ^ 31"
  proof -
    have "(t + 2) * 1 \<le> (t + 2) * (mx * 132)" using mx t by (intro mult_left_mono) auto
    then show ?thesis using small by (simp add: algebra_simps)
  qed
  define a where "a = (t + 2) smod mx"
  have a: "0 \<le> a" "a \<le> mx - 1" using smod_bounds [of mx "t + 2"] mx t by (auto simp: a_def)
  have "a * (t + 1) \<le> (mx - 1) * (t + 1)" using a t by (intro mult_right_mono) auto
  also have "(mx - 1) * (t + 1) \<le> mx * (t + 2) - 1" using mx t by (simp add: algebra_simps)
  finally have at: "a * (t + 1) * 132 + 132 < 2 ^ 31" "0 \<le> a * (t + 1)" using small a t by auto
  define b where "b = (1 + a * (t + 1) * 132) smod mx"
  have b: "0 \<le> b" "b \<le> mx - 1" using smod_bounds [of mx "1 + a * (t + 1) * 132"] mx at by (auto simp: b_def)
  define c where "c = t smod mx"
  have c: "0 \<le> c" "c \<le> mx - 1" using smod_bounds [of mx t] mx t by (auto simp: c_def)
  have "(1 + b) * (1 + c) \<le> mx * mx" using b c by (intro mult_mono) auto
  also have "mx * mx \<le> 46340 * 46340" using mx by (intro mult_mono) auto
  finally have bc: "(1 + b) * (1 + c) < 2 ^ 31" "0 \<le> (1 + b) * (1 + c)" using b c by auto
  have "2 * mx smod mx = 0" using mx by (simp add: smod_nonneg)
  then have "rand_expr mx t mx = (1 + b) * (1 + c)"
    using mx t t31 at bc unfolding rand_expr_def by (simp add: a_def [symmetric] b_def c_def)
  then show ?thesis using bc by simp
qed

lemma generate_random_number_range:
  assumes "1 \<le> mx" "mx \<le> 46340" and "0 \<le> sint tks" and "mx * (sint tks + 2) * 132 < 2 ^ 31"
  shows "\<exists>w. generate_random_number 1 mx tks = Ret w \<and> 1 \<le> w \<and> w \<le> mx"
proof (cases "mx = 1")
  case True
  then show ?thesis by (simp add: generate_random_number_def)
next
  case False
  then have r: "0 \<le> rand_expr mx (sint tks) mx" using assms by (intro rand_expr_nonneg) auto
  have "0 \<le> rand_expr mx (sint tks) mx smod mx \<and> rand_expr mx (sint tks) mx smod mx < mx"
    using r assms(1) by (intro smod_bounds) auto
  then show ?thesis using False assms(1,2) by (simp add: generate_random_number_def)
qed

section \<open>One scheduling decision\<close>

lemma length_procs_fix_queues [simp]: "length (procs (fix_queues s)) = length (procs s)"
  by (simp add: fix_queues_def)

lemma fix_one_state [simp]: "p_state (fix_one t p) = p_state p"
  by (simp add: fix_one_def)

lemma fix_queues_nth:
  "i < length (procs s) \<Longrightarrow> procs (fix_queues s) ! i = fix_one (ticks s) (procs s ! i)"
  by (simp add: fix_queues_def)

lemma ticks_fix_queues [simp]: "ticks (fix_queues s) = ticks s"
  and cpu_proc_fix_queues [simp]: "cpu_proc (fix_queues s) = cpu_proc s"
  by (simp_all add: fix_queues_def)

lemma fix_one_not_starving:
  "p_state p = RUNNABLE \<Longrightarrow> t - word_of_int (p_entered_queue (fix_one t p)) < STARVING_THRESHOLD"
  by (auto simp: fix_one_def STARVING_THRESHOLD_def not_le)

text \<open>The level of the queue that a choice comes from, with what rules out the levels above.\<close>

definition choice_level :: "(rat \<Rightarrow> rat) \<Rightarrow> 'a ptab_scheme \<Rightarrow> nat \<Rightarrow> bool" where
  "choice_level fl s i \<longleftrightarrow>
     runnable_in 1 (procs s ! i) \<and> round_robin s = Some i \<or>
     round_robin s = None \<and> runnable_in 2 (procs s ! i) \<and> lottery s = Ret (Some i) \<or>
     round_robin s = None \<and> lottery s = Ret None \<and> runnable_in 3 (procs s ! i) \<and> bjf fl s = Some i"

lemma scheduler_choose_level:
  assumes "scheduler_choose fl s = Ret (Some i, s')"
  shows "s' = fix_queues s" and "i < length (procs s)" and "choice_level fl (fix_queues s) i"
proof -
  show eq: "s' = fix_queues s"
    using assms by (auto simp: scheduler_choose_def Let_def split: option.splits)
  let ?t = "fix_queues s"
  have "i < length (procs ?t) \<and> choice_level fl ?t i"
  proof (cases "round_robin ?t")
    case (Some k)
    then have "k = i" using assms by (simp add: scheduler_choose_def)
    then show ?thesis using Some rr.pick_runnable [of "sint (ticks ?t)" "procs ?t" i]
      by (simp add: choice_level_def round_robin_def)
  next
    case None
    from assms None obtain w where
      w: "lottery ?t = Ret w" "(case w of Some i \<Rightarrow> Some i | None \<Rightarrow> bjf fl ?t) = Some i"
      by (auto simp: scheduler_choose_def Let_def split: option.splits)
    show ?thesis
    proof (cases w)
      case (Some k)
      then have "k = i" using w(2) by simp
      then show ?thesis using Some None w(1) lot.pick_runnable
        by (fastforce simp: choice_level_def lottery_def)
    next
      case wn: None
      then show ?thesis using None w bj.pick_runnable [of fl "procs ?t" i]
        by (simp add: choice_level_def bjf_def)
    qed
  qed
  then show "i < length (procs s)" and "choice_level fl ?t i" by simp_all
qed

lemma choice_level_state: "choice_level fl s i \<Longrightarrow> p_state (procs s ! i) = RUNNABLE"
  by (auto simp: choice_level_def runnable_in_def)

lemma scheduler_dispatch_cases:
  assumes "scheduler_dispatch fl c s = Ret (Some i, s')"
  shows "i < length (procs s)" and "choice_level fl (fix_queues s) i"
    and "s' = (let t = fix_queues s;
                   t = upd_proc i (\<lambda>p. p\<lparr>p_entered_queue := sint (ticks s)\<rparr>) t;
                   t = t\<lparr>cpu_proc := (cpu_proc t)(c := Some i)\<rparr>
               in upd_proc i (\<lambda>p. p\<lparr>p_state := RUNNING\<rparr>) t)"
proof -
  from assms obtain t where t: "scheduler_choose fl s = Ret (Some i, t)"
    and s': "s' = upd_proc i (\<lambda>p. p\<lparr>p_state := RUNNING\<rparr>)
        (upd_proc i (\<lambda>p. p\<lparr>p_entered_queue := sint (ticks t)\<rparr>) t
          \<lparr>cpu_proc := (cpu_proc (upd_proc i (\<lambda>p. p\<lparr>p_entered_queue := sint (ticks t)\<rparr>) t))(c := Some i)\<rparr>)"
    by (auto simp: scheduler_dispatch_def Let_def split: option.splits)
  note level = scheduler_choose_level [OF t]
  show "i < length (procs s)" and "choice_level fl (fix_queues s) i" by (fact level)+
  show "s' = (let t = fix_queues s;
                   t = upd_proc i (\<lambda>p. p\<lparr>p_entered_queue := sint (ticks s)\<rparr>) t;
                   t = t\<lparr>cpu_proc := (cpu_proc t)(c := Some i)\<rparr>
               in upd_proc i (\<lambda>p. p\<lparr>p_state := RUNNING\<rparr>) t)"
    using s' level(1) by (simp add: Let_def)
qed

section \<open>Properties\<close>

text \<open>C15: \<open>round_robin\<close> returns entry \<open>i\<close> exactly when \<open>i\<close> is the runnable entry of queue 1 that has
  waited longest, with a positive waiting time, the lowest index winning a tie.  In every other
  case (no runnable entry of queue 1 has waited for a tick) it returns no process.\<close>

theorem round_robin_longest_waiting:
  "round_robin s = Some i \<longleftrightarrow> best_at (>) (runnable_in 1) (starved_for (sint (ticks s))) (procs s) 0 i"
  by (simp add: round_robin_def round_robin_loop_best longest.best_from_iff)

text \<open>C16: \<open>bjf\<close> returns entry \<open>i\<close> exactly when \<open>i\<close> is the runnable entry of queue 3 of least rank, the
  rank being below \<open>MIN_BJF_RANK\<close> and the lowest index winning a tie.\<close>

theorem bjf_least_rank:
  "bjf fl s = Some i \<longleftrightarrow> best_at (<) (runnable_in 3) (get_rank fl) (procs s) MIN_BJF_RANK i"
  by (simp add: bjf_def bjf_loop_best least.best_from_iff)

text \<open>C17: The lottery is fair.  When the tickets of the runnable processes of queue 2 are
  non-negative and sum to less than \<open>2 ^ 31\<close>, and the ticket drawn is one of them,
  the winner is the process whose interval of tickets contains the drawn ticket, so every process
  wins for exactly as many tickets as it holds.\<close>

theorem lottery_ticket_interval:
  assumes "\<forall>p \<in> set (procs s). runnable_in 2 p \<longrightarrow> 0 \<le> p_tickets p"
    and "pot (procs s) < 2 ^ 31"
    and "generate_random_number 1 (pot (procs s)) (ticks s) = Ret w" and "1 \<le> w" and "w \<le> pot (procs s)"
  shows "\<exists>i < length (procs s). lottery s = Ret (Some i) \<and> runnable_in 2 (procs s ! i) \<and>
    pot (take i (procs s)) < w \<and> w \<le> pot (take i (procs s)) + p_tickets (procs s ! i)"
proof -
  have tot: "total_tickets (procs s) 0 = pot (procs s)"
    using total_tickets_pot [of "procs s" 0] assms(1,2) by simp
  from lottery_loop_interval [OF assms(1,4,5,2), of 0] obtain k where
    k: "lottery_loop 0 (procs s) w = Some k" "k < length (procs s)" "runnable_in 2 (procs s ! k)"
       "pot (take k (procs s)) < w" "w \<le> pot (take (Suc k) (procs s))" by auto
  have "pot (take (Suc k) (procs s)) = pot (take k (procs s)) + p_tickets (procs s ! k)"
    using k(2,3) by (simp add: take_Suc_conv_app_nth pot_def)
  then show ?thesis using k tot assms(3) by (intro exI [of _ k]) (simp add: lottery_def)
qed

definition two_gamblers :: ptab where
  "two_gamblers =
     \<lparr>mem = \<lambda>_. 0, freelist = 0, use_lock = True, kend = 0, kdata = 0,
      procs = [zero_proc\<lparr>p_state := RUNNABLE, p_queue := 2, p_tickets := 3\<rparr>,
               zero_proc\<lparr>p_state := RUNNABLE, p_queue := 2, p_tickets := 4\<rparr>],
      nextpid = 3, initproc = None, ticks = 5, cpu_proc = \<lambda>_. None\<rparr>"

lemmas two_gamblers_eval = two_gamblers_def runnable_in_def zero_proc_def pot_def

theorem lottery_ticket_interval_witness:
  "\<exists>i < length (procs two_gamblers). lottery two_gamblers = Ret (Some i) \<and>
     runnable_in 2 (procs two_gamblers ! i) \<and>
     pot (take i (procs two_gamblers)) < 6 \<and>
     6 \<le> pot (take i (procs two_gamblers)) + p_tickets (procs two_gamblers ! i)"
proof (rule lottery_ticket_interval)
  show "generate_random_number 1 (pot (procs two_gamblers)) (ticks two_gamblers) = Ret 6" by code_simp
qed (simp_all add: two_gamblers_eval)

text \<open>C18: The random ticket is in range while the arithmetic does not overflow: for up to 46340 tickets
  and a tick count \<open>t\<close> with \<open>max * (t + 2) * 132 < 2 ^ 31\<close>, \<open>generate_random_number(1, max)\<close> returns
  a number between 1 and \<open>max\<close>.\<close>

theorem generate_random_number_in_range:
  assumes "1 \<le> mx" "mx \<le> 46340" and "0 \<le> sint tks" and "mx * (sint tks + 2) * 132 < 2 ^ 31"
  shows "\<exists>w. generate_random_number 1 mx tks = Ret w \<and> 1 \<le> w \<and> w \<le> mx"
  using assms by (rule generate_random_number_range)

theorem generate_random_number_in_range_witness:
  "\<exists>w. generate_random_number 1 30 (100 :: u32) = Ret w \<and> 1 \<le> w \<and> w \<le> 30"
  using generate_random_number_in_range [of 30 100] by simp

text \<open>After about an hour and a half of uptime the product overflows and the same call, the one
  \<open>allocproc\<close> makes for the tickets of a new process, returns a negative number.\<close>

lemma generate_random_number_overflow:
  "generate_random_number 1 DEFAULT_MAX_TICKETS 560997 = Ret (- 19)"
  by code_simp

text \<open>C13: Aging bounds the waiting time: after \<open>fix_queues\<close> no runnable process has waited for
  \<open>STARVING_THRESHOLD\<close> ticks, one that had is now in queue 1, and every other process is as before.\<close>

theorem fix_queues_no_starvation:
  assumes "i < length (procs s)"
  shows "(p_state (procs s ! i) = RUNNABLE \<longrightarrow>
           ticks s - word_of_int (p_entered_queue (procs (fix_queues s) ! i)) < STARVING_THRESHOLD) \<and>
         (procs (fix_queues s) ! i \<noteq> procs s ! i \<longrightarrow>
           p_state (procs s ! i) = RUNNABLE \<and> p_queue (procs (fix_queues s) ! i) = 1 \<and>
           STARVING_THRESHOLD \<le> ticks s - word_of_int (p_entered_queue (procs s ! i)))"
  using assms by (simp add: fix_queues_nth fix_one_not_starving) (auto simp: fix_one_def)

theorem fix_queues_no_starvation_witness:
  "p_queue (procs (fix_queues (two_gamblers\<lparr>ticks := 9000\<rparr>)) ! 1) = 1 \<and>
   (9000 :: u32) - word_of_int (p_entered_queue (procs (fix_queues (two_gamblers\<lparr>ticks := 9000\<rparr>)) ! 1))
     < STARVING_THRESHOLD"
proof -
  let ?s = "two_gamblers\<lparr>ticks := 9000\<rparr>"
  have i: "1 < length (procs ?s)" and r: "p_state (procs ?s ! 1) = RUNNABLE" and t: "ticks ?s = 9000"
    by (simp_all add: two_gamblers_eval)
  have "procs (fix_queues ?s) ! 1 \<noteq> procs ?s ! 1"
    by (simp add: fix_queues_def fix_one_def STARVING_THRESHOLD_def two_gamblers_eval)
  then show ?thesis
    using fix_queues_no_starvation [OF i] r unfolding t by blast
qed

text \<open>C12: A dispatch on CPU \<open>c\<close> runs only a runnable process: the chosen entry was runnable, is now
  running on \<open>c\<close> with its waiting time restarted, no other entry changes its state, no other CPU
  its process, and the entry comes from the first of the three queues that offers one.\<close>

theorem scheduler_dispatch_correct:
  assumes "scheduler_dispatch fl c s = Ret (Some i, s')"
  shows "i < length (procs s) \<and> p_state (procs s ! i) = RUNNABLE \<and> p_state (procs s' ! i) = RUNNING \<and>
    p_entered_queue (procs s' ! i) = sint (ticks s) \<and> cpu_proc s' = (cpu_proc s)(c := Some i) \<and>
    (\<forall>j. j \<noteq> i \<longrightarrow> procs s' ! j = procs (fix_queues s) ! j) \<and> choice_level fl (fix_queues s) i"
proof -
  note d = scheduler_dispatch_cases [OF assms]
  have "p_state (procs s ! i) = RUNNABLE"
    using choice_level_state [OF d(2)] d(1) by (simp add: fix_queues_nth)
  then show ?thesis using d by (simp add: upd_proc_def Let_def)
qed

definition one_waiting :: ptab where
  "one_waiting = two_gamblers\<lparr>procs := [zero_proc, zero_proc\<lparr>p_state := RUNNABLE, p_queue := 1,
     p_kstack := 0x80400000, p_pgdir := 0x80401000\<rparr>]\<rparr>"

theorem scheduler_dispatch_correct_witness:
  "\<exists>s'. scheduler_dispatch (\<lambda>x. x) 0 one_waiting = Ret (Some 1, s') \<and>
     p_state (procs one_waiting ! 1) = RUNNABLE \<and> p_state (procs s' ! 1) = RUNNING \<and>
     cpu_proc s' 0 = Some 1"
proof -
  have "scheduler_choose (\<lambda>x. x) one_waiting = Ret (Some 1, fix_queues one_waiting)"
    by (simp add: scheduler_choose_def round_robin_def fix_queues_def fix_one_def one_waiting_def
        two_gamblers_def zero_proc_def starved_for_def STARVING_THRESHOLD_def)
  moreover have "switchuvm (procs (fix_queues one_waiting) ! 1) = Ret (0x80401000, V2P 0x80401000)"
    by (simp add: switchuvm_def fix_queues_def fix_one_def one_waiting_def two_gamblers_def zero_proc_def)
  ultimately obtain s' where s': "scheduler_dispatch (\<lambda>x. x) 0 one_waiting = Ret (Some 1, s')"
    by (simp add: scheduler_dispatch_def switchuvm_def upd_proc_def fix_queues_def fix_one_def
        one_waiting_def two_gamblers_def zero_proc_def Let_def)
  from scheduler_dispatch_correct [OF this] s' show ?thesis by (intro exI [of _ s']) simp
qed

text \<open>Aging restarts the waiting time of the entries it moves, and changes none that has waited for less than
  the threshold.\<close>

lemma word_wrap32: "word_of_int (wrap32 x) = (word_of_int x :: u32)"
  by (simp add: wrap32_def word_of_int_eq_iff take_bit_signed_take_bit)

lemma fix_one_waits:
  assumes "0 < starved_for (sint t) (fix_one t p)"
  shows "fix_one t p = p"
  using assms by (auto simp: fix_one_def starved_for_def)

lemma fix_one_short_wait:
  assumes "0 \<le> starved_for (sint t) p" "starved_for (sint t) p < uint STARVING_THRESHOLD"
  shows "fix_one t p = p"
proof -
  have "t - word_of_int (p_entered_queue p) = word_of_int (starved_for (sint t) p)"
    by (simp add: starved_for_def word_wrap32)
  moreover have "uint (word_of_int (starved_for (sint t) p) :: u32) = starved_for (sint t) p"
    using assms by (simp add: uint_word_of_int STARVING_THRESHOLD_def)
  ultimately have "\<not> STARVING_THRESHOLD \<le> t - word_of_int (p_entered_queue p)"
    using assms(2) by (simp add: word_le_def)
  then show ?thesis by (simp add: fix_one_def)
qed

text \<open>C14: The first queue is served: when some runnable process of queue 1 has waited for at least a tick and
  for less than \<open>STARVING_THRESHOLD\<close> ticks, an iteration of the scheduler runs a process of queue 1 that has waited
  at least as long, provided every runnable process has a kernel stack and a page table.  (The waiting time of a
  process that reaches the threshold is restarted by the aging in the same iteration.)\<close>

theorem scheduler_serves_queue1:
  assumes "j < length (procs s)" "runnable_in 1 (procs s ! j)"
    and "0 < starved_for (sint (ticks s)) (procs s ! j)" "starved_for (sint (ticks s)) (procs s ! j) < uint STARVING_THRESHOLD"
    and "\<forall>p \<in> set (procs s). p_state p = RUNNABLE \<longrightarrow> p_kstack p \<noteq> 0 \<and> p_pgdir p \<noteq> 0"
  shows "\<exists>i s'. scheduler_dispatch fl c s = Ret (Some i, s') \<and> i < length (procs s) \<and> runnable_in 1 (procs s ! i) \<and>
    starved_for (sint (ticks s)) (procs s ! j) \<le> starved_for (sint (ticks s)) (procs s ! i)"
proof -
  let ?t = "fix_queues s"
  have j: "procs ?t ! j = procs s ! j" using assms(1,3,4) by (simp add: fix_queues_nth fix_one_short_wait)
  then have ex: "\<exists>p \<in> set (procs ?t). runnable_in 1 p \<and> starved_for (sint (ticks s)) p > 0"
    using assms(1-3) by (metis length_procs_fix_queues nth_mem)
  from longest.best_from_found [OF ex, of 0 None] obtain i where
    i: "round_robin ?t = Some i" and best: "best_at (>) (runnable_in 1) (starved_for (sint (ticks s))) (procs ?t) 0 i"
    by (auto simp: round_robin_def round_robin_loop_best)
  have len: "i < length (procs s)" using best by (simp add: best_at_def)
  have same: "procs ?t ! i = procs s ! i" using best len by (simp add: best_at_def fix_queues_nth fix_one_waits)
  have r: "runnable_in 1 (procs s ! i)" using best same by (simp add: best_at_def)
  then have "p_kstack (procs s ! i) \<noteq> 0 \<and> p_pgdir (procs s ! i) \<noteq> 0" using assms(5) len by (simp add: runnable_in_def)
  then have "\<exists>s'. scheduler_dispatch fl c s = Ret (Some i, s')"
    using i len same by (simp add: scheduler_dispatch_def scheduler_choose_def switchuvm_def upd_proc_def Let_def)
  moreover have "starved_for (sint (ticks s)) (procs s ! j) \<le> starved_for (sint (ticks s)) (procs s ! i)"
    using best same j assms(1,2) by (auto simp: best_at_def not_less)
  ultimately show ?thesis using len r by blast
qed

theorem scheduler_serves_queue1_witness:
  "\<exists>i s'. scheduler_dispatch (\<lambda>x. x) 0 one_waiting = Ret (Some i, s') \<and> i < length (procs one_waiting) \<and>
     runnable_in 1 (procs one_waiting ! i) \<and> 5 \<le> starved_for (sint (ticks one_waiting)) (procs one_waiting ! i)"
proof -
  have "starved_for (sint (ticks one_waiting)) (procs one_waiting ! 1) = 5" "length (procs one_waiting) = 2"
    "runnable_in 1 (procs one_waiting ! 1)"
    by (simp_all add: one_waiting_def two_gamblers_def zero_proc_def runnable_in_def starved_for_def)
  moreover have "\<forall>p \<in> set (procs one_waiting). p_state p = RUNNABLE \<longrightarrow> p_kstack p \<noteq> 0 \<and> p_pgdir p \<noteq> 0"
    by (simp add: one_waiting_def two_gamblers_def zero_proc_def)
  ultimately show ?thesis
    using scheduler_serves_queue1 [of 1 one_waiting "\<lambda>x. x" 0] by (simp add: STARVING_THRESHOLD_def)
qed

text \<open>The bound from above is needed: aging sets the waiting time of the only runnable process to 0, and the
  iteration runs nothing.\<close>

lemma aged_process_is_skipped:
  "scheduler_dispatch fl c (one_waiting\<lparr>ticks := 8000\<rparr>) = Ret (None, fix_queues (one_waiting\<lparr>ticks := 8000\<rparr>))"
  by (simp add: scheduler_dispatch_def scheduler_choose_def round_robin_def lottery_def bjf_def fix_queues_def fix_one_def
      one_waiting_def two_gamblers_def zero_proc_def starved_for_def STARVING_THRESHOLD_def generate_random_number_def Let_def)

end
