(* ===== verification/Proc_Life.thy ===== *)
theory Proc_Life
  imports File Scheduler
begin

text \<open>
  The life of a process (\<^verbatim>\<open>src/xv6/proc.c\<close>): the first process, growing, fork, exit and wait.  A
  routine is split where it takes or gives back \<open>ptable.lock\<close> only as far as the process-table
  invariant needs it: \<open>fork_copy\<close>, \<open>exit_zombie\<close> and \<open>wait_reap\<close> are the stretches of code that change
  the table.
\<close>

section \<open>Definitions\<close>

definition FL_IF :: u32 where "FL_IF = 0x200"
definition SEG_UCODE :: u16 where "SEG_UCODE = 3"
definition SEG_UDATA :: u16 where "SEG_UDATA = 4"
definition DPL_USER :: u16 where "DPL_USER = 3"

definition user_trapframe :: trapframe where
  "user_trapframe =
     (let ds = push_bit 3 SEG_UDATA OR DPL_USER
      in zero_trapframe\<lparr>tf_cs := push_bit 3 SEG_UCODE OR DPL_USER, tf_ds := ds, tf_es := ds, tf_ss := ds,
           tf_eflags := FL_IF, tf_esp := PGSIZE, tf_eip := 0\<rparr>)"

text \<open>\<open>userinit\<close> on the bytes of the program \<^verbatim>\<open>initcode.S\<close>.  There is no current process yet; \<open>namei\<close> of an
  absolute path does not look for one.\<close>

definition userinit :: "bytes \<Rightarrow> 'a kern_scheme \<Rightarrow> 'a kern_scheme outcome" where
  "userinit initcode s =
     bnd (allocproc s) (\<lambda>(r, s).
       let s = s\<lparr>initproc := r\<rparr>
       in case r of
            None \<Rightarrow> Panic ''trap''
          | Some i \<Rightarrow>
              bnd (setupkvm s) (\<lambda>(pgdir, s).
                let s = upd_proc i (\<lambda>p. p\<lparr>p_pgdir := pgdir\<rparr>) s
                in if pgdir = 0 then Panic ''userinit: out of memory?''
                   else
                     bnd (inituvm pgdir initcode s) (\<lambda>s.
                       let s = upd_proc i (\<lambda>p. p\<lparr>p_sz := PGSIZE, p_tf := user_trapframe,
                                 p_name := safestrcpy (p_name p) (cstr ''initcode'') 16\<rparr>) s
                       in bnd (namei i [47] s) (\<lambda>(cwd, s).
                            Ret (upd_proc i (\<lambda>p. p\<lparr>p_cwd := cwd, p_state := RUNNABLE\<rparr>) s)))))"

definition growproc :: "nat \<Rightarrow> int \<Rightarrow> 'a ptab_scheme \<Rightarrow> (int \<times> 'a ptab_scheme) outcome" where
  "growproc me n s =
     (let p = procs s ! me; sz = p_sz p
      in bnd (if n > 0 then allocuvm (p_pgdir p) sz (sz + word_of_int n) s
              else if n < 0 then deallocuvm (p_pgdir p) sz (sz + word_of_int n) s
              else Ret (sz, s)) (\<lambda>(sz, s).
           if n \<noteq> 0 \<and> sz = 0 then Ret (- 1, s)
           else
             (let s = upd_proc me (\<lambda>p. p\<lparr>p_sz := sz\<rparr>) s
              in bnd (switchuvm (procs s ! me)) (\<lambda>_. Ret (0, s)))))"

subsection \<open>Fork\<close>

text \<open>The fields of the child that come from its parent; \<open>%eax\<close> is cleared so that \<open>fork\<close> returns 0 in
  the child.\<close>

definition fork_copy :: "nat \<Rightarrow> nat \<Rightarrow> u32 \<Rightarrow> 'a ptab_scheme \<Rightarrow> 'a ptab_scheme" where
  "fork_copy me np pgdir s =
     (let cur = procs s ! me
      in upd_proc np (\<lambda>p. p\<lparr>p_pgdir := pgdir, p_sz := p_sz cur, p_parent := Some me, p_tf := (p_tf cur)\<lparr>tf_eax := 0\<rparr>\<rparr>) s)"

fun fork_files :: "nat \<Rightarrow> nat \<Rightarrow> nat list \<Rightarrow> 'a kern_scheme \<Rightarrow> 'a kern_scheme outcome" where
  "fork_files me np [] s = Ret s"
| "fork_files me np (i # is) s =
     (case p_ofile (procs s ! me) ! i of
        None \<Rightarrow> fork_files me np is s
      | Some f \<Rightarrow>
          bnd (filedup f s) (\<lambda>(f, s).
            fork_files me np is (upd_proc np (\<lambda>p. p\<lparr>p_ofile := (p_ofile p)[i := Some f]\<rparr>) s)))"

definition fork_ready :: "nat \<Rightarrow> 'a ptab_scheme \<Rightarrow> 'a ptab_scheme" where
  "fork_ready np s = upd_proc np (\<lambda>p. p\<lparr>p_state := RUNNABLE\<rparr>) s"

definition fork_undo :: "nat \<Rightarrow> 'a ptab_scheme \<Rightarrow> 'a ptab_scheme outcome" where
  "fork_undo np s =
     bnd (kfree (p_kstack (procs s ! np)) s) (\<lambda>s.
       Ret (upd_proc np (\<lambda>p. p\<lparr>p_kstack := 0, p_state := UNUSED\<rparr>) s))"

definition fork :: "nat \<Rightarrow> 'a kern_scheme \<Rightarrow> (int \<times> 'a kern_scheme) outcome" where
  "fork me s =
     bnd (allocproc s) (\<lambda>(r, s).
       case r of
         None \<Rightarrow> Ret (- 1, s)
       | Some np \<Rightarrow>
           (let cur = procs s ! me
            in bnd (copyuvm (p_pgdir cur) (p_sz cur) s) (\<lambda>(pgdir, s).
                 if pgdir = 0 then
                   bnd (fork_undo np (upd_proc np (\<lambda>p. p\<lparr>p_pgdir := 0\<rparr>) s)) (\<lambda>s. Ret (- 1, s))
                 else
                   bnd (fork_files me np [0..<NOFILE] (fork_copy me np pgdir s)) (\<lambda>s.
                     case p_cwd (procs s ! me) of
                       None \<Rightarrow> Panic ''trap''
                     | Some cwd \<Rightarrow>
                         (let (cwd, s) = idup cwd s;
                              s = upd_proc np (\<lambda>p. p\<lparr>p_cwd := Some cwd,
                                    p_name := safestrcpy (p_name p) (p_name (procs s ! me)) 16\<rparr>) s;
                              pid = p_pid (procs s ! np)
                          in Ret (pid, fork_ready np s))))))"

subsection \<open>Exit and wait\<close>

fun close_files :: "nat \<Rightarrow> nat list \<Rightarrow> 'a kern_scheme \<Rightarrow> 'a kern_scheme outcome" where
  "close_files me [] s = Ret s"
| "close_files me (fd # fds) s =
     (case p_ofile (procs s ! me) ! fd of
        None \<Rightarrow> close_files me fds s
      | Some f \<Rightarrow>
          bnd (fileclose me f s) (\<lambda>s.
            close_files me fds (upd_proc me (\<lambda>p. p\<lparr>p_ofile := (p_ofile p)[fd := None]\<rparr>) s)))"

text \<open>\<open>wakeup1\<close> on a process pointer; nobody sleeps on the null pointer.\<close>

definition wakeup1_proc :: "nat option \<Rightarrow> 'a ptab_scheme \<Rightarrow> 'a ptab_scheme" where
  "wakeup1_proc p s = (case p of None \<Rightarrow> s | Some i \<Rightarrow> wakeup1 (ProcChan i) s)"

fun reparent :: "nat \<Rightarrow> nat list \<Rightarrow> 'a ptab_scheme \<Rightarrow> 'a ptab_scheme" where
  "reparent me [] s = s"
| "reparent me (i # is) s =
     (if p_parent (procs s ! i) = Some me then
        (let s = upd_proc i (\<lambda>p. p\<lparr>p_parent := initproc s\<rparr>) s;
             s = (if p_state (procs s ! i) = ZOMBIE then wakeup1_proc (initproc s) s else s)
         in reparent me is s)
      else reparent me is s)"

text \<open>The locked part of \<open>exit\<close>, up to the switch into the scheduler.\<close>

definition exit_zombie :: "nat \<Rightarrow> 'a ptab_scheme \<Rightarrow> 'a ptab_scheme" where
  "exit_zombie me s =
     (let s = wakeup1_proc (p_parent (procs s ! me)) s;
          s = reparent me [0..<length (procs s)] s
      in upd_proc me (\<lambda>p. p\<lparr>p_state := ZOMBIE\<rparr>) s)"

definition exit :: "nat \<Rightarrow> 'a kern_scheme \<Rightarrow> 'a kern_scheme outcome" where
  "exit me s =
     (if Some me = initproc s then Panic ''init exiting''
      else
        bnd (close_files me [0..<NOFILE] s) (\<lambda>s.
        bnd (begin_op s) (\<lambda>s.
        bnd (case p_cwd (procs s ! me) of None \<Rightarrow> Panic ''trap'' | Some cwd \<Rightarrow> iput me cwd s) (\<lambda>s.
        bnd (end_op me s) (\<lambda>s.
          Ret (exit_zombie me (upd_proc me (\<lambda>p. p\<lparr>p_cwd := None\<rparr>) s)))))))"

text \<open>What \<open>wait\<close> does to the entry \<open>i\<close> of a dead child.\<close>

definition wait_reap :: "nat \<Rightarrow> 'a ptab_scheme \<Rightarrow> (int \<times> 'a ptab_scheme) outcome" where
  "wait_reap i s =
     (let pid = p_pid (procs s ! i)
      in bnd (kfree (p_kstack (procs s ! i)) s) (\<lambda>s.
           let s = upd_proc i (\<lambda>p. p\<lparr>p_kstack := 0\<rparr>) s
           in bnd (freevm (p_pgdir (procs s ! i)) s) (\<lambda>s.
                Ret (pid, upd_proc i (\<lambda>p. p\<lparr>p_pid := 0, p_parent := None, p_name := (p_name p)[0 := 0],
                                           p_killed := False, p_state := UNUSED\<rparr>) s))))"

text \<open>One turn of the loop of \<open>wait\<close>; \<open>None\<close> says that the caller has gone to sleep on its own entry.\<close>

definition wait_run :: "nat \<Rightarrow> 'a ptab_scheme \<Rightarrow> (int option \<times> 'a ptab_scheme) outcome" where
  "wait_run me s =
     (case scan (\<lambda>p. p_parent p = Some me \<and> p_state p = ZOMBIE) (procs s) of
        Some i \<Rightarrow> bnd (wait_reap i s) (\<lambda>(pid, s). Ret (Some pid, s))
      | None \<Rightarrow>
          if \<not> (\<exists>p \<in> set (procs s). p_parent p = Some me) \<or> p_killed (procs s ! me) then Ret (Some (- 1), s)
          else Ret (None, sleep_enter me (ProcChan me) s))"

definition wait :: "nat \<Rightarrow> 'a ptab_scheme \<Rightarrow> (int \<times> 'a ptab_scheme) outcome" where
  "wait me s = bnd (wait_run me s) (\<lambda>(r, s). case r of None \<Rightarrow> Blocked | Some pid \<Rightarrow> Ret (pid, s))"

text \<open>\<open>forkret\<close>, where a new process starts; the first one initialises the file system.\<close>

definition forkret :: "nat \<Rightarrow> bool \<Rightarrow> 'a kern_scheme \<Rightarrow> (bool \<times> 'a kern_scheme) outcome" where
  "forkret me first s =
     (if first then
        bnd (iinit me ROOTDEV s) (\<lambda>s.
        bnd (cprintf (cstr ''sb: size %d nblocks %d ninodes %d nlog %d logstart %d inodestart %d bmap start %d'' @ [10])
               (map (\<lambda>v. ANum (sint v)) [sb_size (sb s), sb_nblocks (sb s), sb_ninodes (sb s), sb_nlog (sb s),
                  sb_logstart (sb s), sb_inodestart (sb s), sb_bmapstart (sb s)]) s) (\<lambda>s.
        bnd (initlog me ROOTDEV s) (\<lambda>s.
          Ret (False, s))))
      else Ret (False, s))"

end
