(* ===== verification/Exec.thy ===== *)
theory Exec
  imports Proc_Life
begin

text \<open>
  Program loading: \<open>loaduvm\<close> of \<^verbatim>\<open>src/xv6/vm.c\<close> and \<^verbatim>\<open>src/xv6/exec.c\<close>, with the structures of
  \<^verbatim>\<open>src/xv6/elf.h\<close> read from the bytes of the file.  The argument strings are the C strings that
  the pointers of \<open>argv\<close> refer to in the memory of the caller, which is not changed before the new image
  is in place.  The result \<open>None\<close> of a phase of \<open>exec\<close> is its \<open>goto bad\<close>.
\<close>

section \<open>Definitions\<close>

definition MAXARG :: nat where "MAXARG = 32"
definition ELF_MAGIC :: u32 where "ELF_MAGIC = 0x464C457F"
definition ELF_PROG_LOAD :: u32 where "ELF_PROG_LOAD = 1"

record elfhdr =
  e_magic :: u32
  e_entry :: u32
  e_phoff :: u32
  e_phnum :: u16

definition decode_elfhdr :: "bytes \<Rightarrow> elfhdr" where
  "decode_elfhdr d = \<lparr>e_magic = get32 d 0, e_entry = get32 d 24, e_phoff = get32 d 28, e_phnum = get16 d 44\<rparr>"

record proghdr =
  ph_type :: u32
  ph_off :: u32
  ph_vaddr :: u32
  ph_filesz :: u32
  ph_memsz :: u32

definition decode_proghdr :: "bytes \<Rightarrow> proghdr" where
  "decode_proghdr d =
     \<lparr>ph_type = get32 d 0, ph_off = get32 d 4, ph_vaddr = get32 d 8, ph_filesz = get32 d 16, ph_memsz = get32 d 20\<rparr>"

text \<open>The loop of \<open>loaduvm\<close>.  When \<open>i += PGSIZE\<close> wraps around, the loop starts over and does not end.\<close>

function loaduvm_loop ::
  "nat \<Rightarrow> u32 \<Rightarrow> u32 \<Rightarrow> nat \<Rightarrow> u32 \<Rightarrow> u32 \<Rightarrow> u32 \<Rightarrow> 'a consst_scheme \<Rightarrow> (int \<times> 'a consst_scheme) outcome" where
  "loaduvm_loop me pgdir addr ip offset sz i s =
     (if i < sz then
        (let (pte, s) = walkpgdir pgdir (addr + i) False s
         in if pte = 0 then Panic ''loaduvm: address should exist''
            else
              (let pa = PTE_ADDR (load32 (mem s) pte);
                   n = (if sz - i < PGSIZE then sz - i else PGSIZE)
               in bnd (readi me ip (offset + i) n s) (\<lambda>(r, bs, s).
                    let s = s\<lparr>mem := store_bytes (mem s) (P2V pa) bs\<rparr>
                    in if word_of_int r \<noteq> n then Ret (- 1, s)
                       else if i < i + PGSIZE then loaduvm_loop me pgdir addr ip offset sz (i + PGSIZE) s
                       else Blocked)))
      else Ret (0, s))"
  by pat_completeness auto
termination
  by (relation "measure (\<lambda>(me, pgdir, addr, ip, offset, sz, i, s). 2 ^ 32 - unat i)")
    (auto simp: word_less_nat_alt intro!: diff_less_mono2 unat_lt32 [simplified])

declare loaduvm_loop.simps [simp del]

definition loaduvm ::
  "nat \<Rightarrow> u32 \<Rightarrow> u32 \<Rightarrow> nat \<Rightarrow> u32 \<Rightarrow> u32 \<Rightarrow> 'a consst_scheme \<Rightarrow> (int \<times> 'a consst_scheme) outcome" where
  "loaduvm me pgdir addr ip offset sz s =
     (if addr mod PGSIZE \<noteq> 0 then Panic ''loaduvm: addr must be page aligned''
      else loaduvm_loop me pgdir addr ip offset sz 0 s)"

text \<open>The loop over the program headers: \<open>n\<close> of them from offset \<open>off\<close> on.  The result is the size of the
  image.\<close>

fun exec_segments ::
  "nat \<Rightarrow> nat \<Rightarrow> u32 \<Rightarrow> nat \<Rightarrow> u32 \<Rightarrow> u32 \<Rightarrow> 'a consst_scheme \<Rightarrow> (u32 option \<times> 'a consst_scheme) outcome" where
  "exec_segments me ip pgdir 0 off sz s = Ret (Some sz, s)"
| "exec_segments me ip pgdir (Suc n) off sz s =
     bnd (readi me ip off 32 s) (\<lambda>(r, bs, s).
       if r \<noteq> 32 then Ret (None, s)
       else
         (let ph = decode_proghdr bs
          in if ph_type ph \<noteq> ELF_PROG_LOAD then exec_segments me ip pgdir n (off + 32) sz s
             else if ph_memsz ph < ph_filesz ph then Ret (None, s)
             else if ph_vaddr ph + ph_memsz ph < ph_vaddr ph then Ret (None, s)
             else
               bnd (allocuvm pgdir sz (ph_vaddr ph + ph_memsz ph) s) (\<lambda>(sz, s).
                 if sz = 0 then Ret (None, s)
                 else if ph_vaddr ph mod PGSIZE \<noteq> 0 then Ret (None, s)
                 else
                   bnd (loaduvm me pgdir (ph_vaddr ph) ip (ph_off ph) (ph_filesz ph) s) (\<lambda>(r, s).
                     if r < 0 then Ret (None, s) else exec_segments me ip pgdir n (off + 32) sz s))))"

text \<open>Header check, new page table, segments; the result also carries the page directory, 0 when there is
  none yet, for the cleanup.\<close>

definition exec_image ::
  "nat \<Rightarrow> nat \<Rightarrow> 'a consst_scheme \<Rightarrow> (u32 \<times> (elfhdr \<times> u32) option \<times> 'a consst_scheme) outcome" where
  "exec_image me ip s =
     bnd (readi me ip 0 52 s) (\<lambda>(r, bs, s).
       if r \<noteq> 52 then Ret (0, None, s)
       else
         (let elf = decode_elfhdr bs
          in if e_magic elf \<noteq> ELF_MAGIC then Ret (0, None, s)
             else
               bnd (setupkvm s) (\<lambda>(pgdir, s).
                 if pgdir = 0 then Ret (0, None, s)
                 else
                   bnd (exec_segments me ip pgdir (unat (e_phnum elf)) (e_phoff elf) 0 s) (\<lambda>(r, s).
                     Ret (pgdir, map_option (\<lambda>sz. (elf, sz)) r, s)))))"

text \<open>Push the argument strings; the result is the stack pointer and their addresses.\<close>

fun exec_args ::
  "u32 \<Rightarrow> bytes list \<Rightarrow> u32 \<Rightarrow> u32 list \<Rightarrow> 'a machine_scheme \<Rightarrow> (u32 \<times> u32 list) option \<times> 'a machine_scheme" where
  "exec_args pgdir [] sp ustack s = (Some (sp, ustack), s)"
| "exec_args pgdir (a # as) sp ustack s =
     (if length ustack \<ge> MAXARG then (None, s)
      else
        (let t = take (strlen a) a @ [0];
             sp = (sp - of_nat (length t)) AND NOT 3
         in case copyout pgdir sp t s of
              (r, s) \<Rightarrow> if r < 0 then (None, s) else exec_args pgdir as sp (ustack @ [sp]) s))"

definition word_seq :: "u32 list \<Rightarrow> bytes" where
  "word_seq ws = concat (map (\<lambda>w. [byte32 0 w, byte32 1 w, byte32 2 w, byte32 3 w]) ws)"

text \<open>Stack pages, arguments and the three words below them; the result is the size and the stack pointer.\<close>

definition exec_stack ::
  "u32 \<Rightarrow> u32 \<Rightarrow> bytes list \<Rightarrow> 'a machine_scheme \<Rightarrow> ((u32 \<times> u32) option \<times> 'a machine_scheme) outcome" where
  "exec_stack pgdir sz argv s =
     (let sz = PGROUNDUP sz
      in bnd (allocuvm pgdir sz (sz + 2 * PGSIZE) s) (\<lambda>(sz, s).
           if sz = 0 then Ret (None, s)
           else
             bnd (clearpteu pgdir (sz - 2 * PGSIZE) s) (\<lambda>s.
               case exec_args pgdir argv sz [] s of
                 (None, s) \<Rightarrow> Ret (None, s)
               | (Some (sp, args), s) \<Rightarrow>
                   (let argc = of_nat (length args);
                        ustack = [0xffffffff, argc, sp - (argc + 1) * 4] @ args @ [0];
                        sp = sp - (3 + argc + 1) * 4
                    in case copyout pgdir sp (word_seq ustack) s of
                         (r, s) \<Rightarrow> if r < 0 then Ret (None, s) else Ret (Some (sz, sp), s)))))"

text \<open>\<open>for(last=s=path; *s; s++) if(*s == '/') last = s+1;\<close>\<close>

fun last_elem :: "bytes \<Rightarrow> bytes \<Rightarrow> bytes" where
  "last_elem lst [] = lst"
| "last_elem lst (c # cs) = (if c = 0 then lst else last_elem (if c = 47 then cs else lst) cs)"

definition exec :: "nat \<Rightarrow> bytes \<Rightarrow> bytes list \<Rightarrow> 'a kern_scheme \<Rightarrow> (int \<times> 'a kern_scheme) outcome" where
  "exec me path argv s =
     bnd (begin_op s) (\<lambda>s.
     bnd (namei me path s) (\<lambda>(r, s).
       case r of
         None \<Rightarrow>
           bnd (end_op me s) (\<lambda>s. bnd (cprintf (cstr ''exec: fail'' @ [10]) [] s) (\<lambda>s. Ret (- 1, s)))
       | Some ip \<Rightarrow>
           bnd (ilock me ip s) (\<lambda>s.
           bnd (exec_image me ip s) (\<lambda>(pgdir, r, s).
             case r of
               None \<Rightarrow>
                 bnd (if pgdir \<noteq> 0 then freevm pgdir s else Ret s) (\<lambda>s.
                 bnd (iunlockput me ip s) (\<lambda>s.
                 bnd (end_op me s) (\<lambda>s. Ret (- 1, s))))
             | Some (elf, sz) \<Rightarrow>
                 bnd (iunlockput me ip s) (\<lambda>s.
                 bnd (end_op me s) (\<lambda>s.
                 bnd (exec_stack pgdir sz argv s) (\<lambda>(r, s).
                   case r of
                     None \<Rightarrow> bnd (freevm pgdir s) (\<lambda>s. Ret (- 1, s))
                   | Some (sz, sp) \<Rightarrow>
                       (let oldpgdir = p_pgdir (procs s ! me);
                            s = upd_proc me (\<lambda>p. p\<lparr>p_name := safestrcpy (p_name p) (last_elem path path) 16,
                                  p_pgdir := pgdir, p_sz := sz,
                                  p_tf := (p_tf p)\<lparr>tf_eip := e_entry elf, tf_esp := sp\<rparr>\<rparr>) s
                        in bnd (switchuvm (procs s ! me)) (\<lambda>_.
                           bnd (freevm oldpgdir s) (\<lambda>s.
                             Ret (0, s)))))))))))"

end
