(* ===== verification/Sysfile.thy ===== *)
theory Sysfile
  imports Exec
begin

text \<open>
  The file system's system calls (\<^verbatim>\<open>src/xv6/sysfile.c\<close>), with their arguments on the user stack of
  the caller \<open>me\<close> and their results in user memory.
\<close>

section \<open>Definitions\<close>

definition O_WRONLY :: int where "O_WRONLY = 0x001"
definition O_RDWR :: int where "O_RDWR = 0x002"
definition O_RDONLY :: int where "O_RDONLY = 0x000"
definition O_CREATE :: int where "O_CREATE = 0x200"

definition argfd :: "nat \<Rightarrow> nat \<Rightarrow> 'a ptab_scheme \<Rightarrow> (nat \<times> nat) option outcome" where
  "argfd me n s =
     bnd (argint me n s) (\<lambda>r.
       case r of
         None \<Rightarrow> Ret None
       | Some fd \<Rightarrow>
           if fd < 0 \<or> fd \<ge> int NOFILE then Ret None
           else
             (case p_ofile (procs s ! me) ! nat fd of
                None \<Rightarrow> Ret None
              | Some f \<Rightarrow> Ret (Some (nat fd, f))))"

definition fdalloc :: "nat \<Rightarrow> nat \<Rightarrow> 'a ptab_scheme \<Rightarrow> nat option \<times> 'a ptab_scheme" where
  "fdalloc me f s =
     (case scan (\<lambda>x. x = None) (take NOFILE (p_ofile (procs s ! me))) of
        None \<Rightarrow> (None, s)
      | Some fd \<Rightarrow> (Some fd, upd_proc me (\<lambda>p. p\<lparr>p_ofile := (p_ofile p)[fd := Some f]\<rparr>) s))"

definition sys_dup :: "nat \<Rightarrow> 'a kern_scheme \<Rightarrow> (int \<times> 'a kern_scheme) outcome" where
  "sys_dup me s =
     bnd (argfd me 0 s) (\<lambda>r.
       case r of
         None \<Rightarrow> Ret (- 1, s)
       | Some (_, f) \<Rightarrow>
           (case fdalloc me f s of
              (None, s) \<Rightarrow> Ret (- 1, s)
            | (Some fd, s) \<Rightarrow> bnd (filedup f s) (\<lambda>(_, s). Ret (int fd, s))))"

definition upgdir :: "nat \<Rightarrow> 'a ptab_scheme \<Rightarrow> u32" where
  "upgdir me s = p_pgdir (procs s ! me)"

text \<open>\<open>sys_read\<close> and \<open>sys_write\<close>: file, count and buffer, in the order of the tests of the source.\<close>

definition arg_rw :: "nat \<Rightarrow> 'a ptab_scheme \<Rightarrow> (nat \<times> int \<times> u32) option outcome" where
  "arg_rw me s =
     bnd (argfd me 0 s) (\<lambda>r.
       case r of
         None \<Rightarrow> Ret None
       | Some (_, f) \<Rightarrow>
           bnd (argint me 2 s) (\<lambda>r.
             case r of
               None \<Rightarrow> Ret None
             | Some n \<Rightarrow>
                 bnd (argptr me 1 n s) (\<lambda>r. Ret (map_option (\<lambda>p. (f, n, p)) r))))"

definition sys_read :: "nat \<Rightarrow> 'a kern_scheme \<Rightarrow> (int \<times> 'a kern_scheme) outcome" where
  "sys_read me s =
     bnd (arg_rw me s) (\<lambda>r.
       case r of
         None \<Rightarrow> Ret (- 1, s)
       | Some (f, n, p) \<Rightarrow>
           bnd (fileread me f n s) (\<lambda>(r, bs, s).
           bnd (uwrite_bytes (upgdir me s) p bs s) (\<lambda>s.
             Ret (r, s))))"

definition sys_write :: "nat \<Rightarrow> 'a kern_scheme \<Rightarrow> (int \<times> 'a kern_scheme) outcome" where
  "sys_write me s =
     bnd (arg_rw me s) (\<lambda>r.
       case r of
         None \<Rightarrow> Ret (- 1, s)
       | Some (f, n, p) \<Rightarrow>
           bnd (uread_bytes (upgdir me s) (nat n) p s) (\<lambda>bs. filewrite me f bs s))"

definition sys_close :: "nat \<Rightarrow> 'a kern_scheme \<Rightarrow> (int \<times> 'a kern_scheme) outcome" where
  "sys_close me s =
     bnd (argfd me 0 s) (\<lambda>r.
       case r of
         None \<Rightarrow> Ret (- 1, s)
       | Some (fd, f) \<Rightarrow>
           bnd (fileclose me f (upd_proc me (\<lambda>p. p\<lparr>p_ofile := (p_ofile p)[fd := None]\<rparr>) s)) (\<lambda>s. Ret (0, s)))"

text \<open>The bytes of a \<open>struct stat\<close>: \<open>type\<close> (2), padding (2), \<open>dev\<close>, \<open>ino\<close>, \<open>nlink\<close> (2), padding (2), \<open>size\<close>.
  \<open>stati\<close> leaves the padding as it is.\<close>

definition put_stat :: "u32 \<Rightarrow> u32 \<Rightarrow> stat \<Rightarrow> 'a machine_scheme \<Rightarrow> 'a machine_scheme outcome" where
  "put_stat pgdir a st s =
     bnd (uwrite_bytes pgdir a [byte16 0 (st_type st), byte16 1 (st_type st)] s) (\<lambda>s.
     bnd (uwrite_bytes pgdir (a + 4) (int_bytes (st_dev st) @ word_seq [st_ino st]) s) (\<lambda>s.
     bnd (uwrite_bytes pgdir (a + 12) [byte16 0 (st_nlink st), byte16 1 (st_nlink st)] s) (\<lambda>s.
       uwrite_bytes pgdir (a + 16) (word_seq [st_size st]) s)))"

definition sys_fstat :: "nat \<Rightarrow> 'a kern_scheme \<Rightarrow> (int \<times> 'a kern_scheme) outcome" where
  "sys_fstat me s =
     bnd (argfd me 0 s) (\<lambda>r.
       case r of
         None \<Rightarrow> Ret (- 1, s)
       | Some (_, f) \<Rightarrow>
           bnd (argptr me 1 20 s) (\<lambda>r.
             case r of
               None \<Rightarrow> Ret (- 1, s)
             | Some a \<Rightarrow>
                 bnd (filestat me f s) (\<lambda>(st, s).
                   case st of
                     None \<Rightarrow> Ret (- 1, s)
                   | Some st \<Rightarrow> bnd (put_stat (upgdir me s) a st s) (\<lambda>s. Ret (0, s)))))"

text \<open>\<open>bad:\<close> of \<open>sys_link\<close>.\<close>

definition unlink_back :: "nat \<Rightarrow> nat \<Rightarrow> 'a kern_scheme \<Rightarrow> (int \<times> 'a kern_scheme) outcome" where
  "unlink_back me ip s =
     bnd (ilock me ip s) (\<lambda>s.
     bnd (iupdate me ip (upd_inode ip (\<lambda>p. p\<lparr>i_nlink := i_nlink p - 1\<rparr>) s)) (\<lambda>s.
     bnd (iunlockput me ip s) (\<lambda>s.
     bnd (end_op me s) (\<lambda>s. Ret (- 1, s)))))"

definition sys_link :: "nat \<Rightarrow> 'a kern_scheme \<Rightarrow> (int \<times> 'a kern_scheme) outcome" where
  "sys_link me s =
     bnd (argstr me 0 s) (\<lambda>r. case r of None \<Rightarrow> Ret (- 1, s) | Some (_, old) \<Rightarrow>
     bnd (argstr me 1 s) (\<lambda>r. case r of None \<Rightarrow> Ret (- 1, s) | Some (_, new) \<Rightarrow>
     bnd (begin_op s) (\<lambda>s.
     bnd (namei me old s) (\<lambda>(r, s).
       case r of
         None \<Rightarrow> bnd (end_op me s) (\<lambda>s. Ret (- 1, s))
       | Some ip \<Rightarrow>
           bnd (ilock me ip s) (\<lambda>s.
             if i_type (icache s ! ip) = T_DIR then
               bnd (iunlockput me ip s) (\<lambda>s. bnd (end_op me s) (\<lambda>s. Ret (- 1, s)))
             else
               bnd (iupdate me ip (upd_inode ip (\<lambda>p. p\<lparr>i_nlink := i_nlink p + 1\<rparr>) s)) (\<lambda>s.
               bnd (iunlock me ip s) (\<lambda>s.
               bnd (nameiparent me new (replicate DIRSIZ 0) s) (\<lambda>(r, name, s).
                 case r of
                   None \<Rightarrow> unlink_back me ip s
                 | Some dp \<Rightarrow>
                     bnd (ilock me dp s) (\<lambda>s.
                     bnd (if i_dev (icache s ! dp) \<noteq> i_dev (icache s ! ip) then Ret (- 1, s)
                          else dirlink me dp name (i_inum (icache s ! ip)) s) (\<lambda>(r, s).
                     bnd (iunlockput me dp s) (\<lambda>s.
                       if r < 0 then unlink_back me ip s
                       else
                         bnd (iput me ip s) (\<lambda>s.
                         bnd (end_op me s) (\<lambda>s. Ret (0, s))))))))))))))"

text \<open>The loop of \<open>isdirempty\<close> over the offsets from \<open>2*sizeof(de)\<close> on.\<close>

fun isdirempty_loop :: "nat \<Rightarrow> nat \<Rightarrow> u32 list \<Rightarrow> 'a kern_scheme \<Rightarrow> (bool \<times> 'a kern_scheme) outcome" where
  "isdirempty_loop me dp [] s = Ret (True, s)"
| "isdirempty_loop me dp (off # offs) s =
     bnd (readi me dp off 16 s) (\<lambda>(r, bs, s).
       if r \<noteq> 16 then Panic ''isdirempty: readi''
       else if de_inum (decode_dirent bs) \<noteq> 0 then Ret (False, s)
       else isdirempty_loop me dp offs s)"

definition isdirempty :: "nat \<Rightarrow> nat \<Rightarrow> 'a kern_scheme \<Rightarrow> (bool \<times> 'a kern_scheme) outcome" where
  "isdirempty me dp s = isdirempty_loop me dp (drop 2 (dirent_offs (i_size (icache s ! dp)))) s"

text \<open>\<open>sys_unlink\<close> once the parent directory is locked; \<open>dot_name\<close> is the test for \<^verbatim>\<open>"."\<close> and \<^verbatim>\<open>".."\<close>.\<close>

definition dot_name :: "bytes \<Rightarrow> bool" where
  "dot_name name \<longleftrightarrow> namecmp name (cstr ''.'') = 0 \<or> namecmp name (cstr ''..'') = 0"

definition unlink_entry :: "nat \<Rightarrow> nat \<Rightarrow> bytes \<Rightarrow> 'a kern_scheme \<Rightarrow> (int \<times> 'a kern_scheme) outcome" where
  "unlink_entry me dp name s =
     (let bad = (\<lambda>s. bnd (iunlockput me dp s) (\<lambda>s. bnd (end_op me s) (\<lambda>s. Ret (- 1, s))))
      in if dot_name name then bad s
         else
           bnd (dirlookup me dp name s) (\<lambda>(r, s).
             case r of
               None \<Rightarrow> bad s
             | Some (ip, off) \<Rightarrow>
                 bnd (ilock me ip s) (\<lambda>s.
                   if sint (i_nlink (icache s ! ip)) < 1 then Panic ''unlink: nlink < 1''
                   else
                     bnd (if i_type (icache s ! ip) = T_DIR then isdirempty me ip s else Ret (True, s)) (\<lambda>(e, s).
                       if \<not> e then bnd (iunlockput me ip s) bad
                       else
                         bnd (writei me dp (replicate 16 0) off s) (\<lambda>(r, s).
                           if r \<noteq> 16 then Panic ''unlink: writei''
                           else
                             bnd (if i_type (icache s ! ip) = T_DIR
                                  then iupdate me dp (upd_inode dp (\<lambda>p. p\<lparr>i_nlink := i_nlink p - 1\<rparr>) s)
                                  else Ret s) (\<lambda>s.
                             bnd (iunlockput me dp s) (\<lambda>s.
                             bnd (iupdate me ip (upd_inode ip (\<lambda>p. p\<lparr>i_nlink := i_nlink p - 1\<rparr>) s)) (\<lambda>s.
                             bnd (iunlockput me ip s) (\<lambda>s.
                             bnd (end_op me s) (\<lambda>s.
                               Ret (0, s)))))))))))"

definition sys_unlink :: "nat \<Rightarrow> 'a kern_scheme \<Rightarrow> (int \<times> 'a kern_scheme) outcome" where
  "sys_unlink me s =
     bnd (argstr me 0 s) (\<lambda>r. case r of None \<Rightarrow> Ret (- 1, s) | Some (_, path) \<Rightarrow>
     bnd (begin_op s) (\<lambda>s.
     bnd (nameiparent me path (replicate DIRSIZ 0) s) (\<lambda>(r, name, s).
       case r of
         None \<Rightarrow> bnd (end_op me s) (\<lambda>s. Ret (- 1, s))
       | Some dp \<Rightarrow> bnd (ilock me dp s) (\<lambda>s. unlink_entry me dp name s))))"

text \<open>The new inode of \<open>create\<close>, with the entries of a directory, and its name in the parent.\<close>

definition create_new ::
  "nat \<Rightarrow> nat \<Rightarrow> bytes \<Rightarrow> u16 \<Rightarrow> u16 \<Rightarrow> u16 \<Rightarrow> 'a consst_scheme \<Rightarrow> (nat option \<times> 'a consst_scheme) outcome" where
  "create_new me dp name ty major minor s =
     bnd (ialloc me (i_dev (icache s ! dp)) ty s) (\<lambda>(ip, s).
     bnd (ilock me ip s) (\<lambda>s.
     bnd (iupdate me ip (upd_inode ip (\<lambda>p. p\<lparr>i_major := major, i_minor := minor, i_nlink := 1\<rparr>) s)) (\<lambda>s.
     bnd (if ty = T_DIR then
            bnd (iupdate me dp (upd_inode dp (\<lambda>p. p\<lparr>i_nlink := i_nlink p + 1\<rparr>) s)) (\<lambda>s.
            bnd (dirlink me ip (cstr ''.'') (i_inum (icache s ! ip)) s) (\<lambda>(r, s).
              if r < 0 then Panic ''create dots''
              else
                bnd (dirlink me ip (cstr ''..'') (i_inum (icache s ! dp)) s) (\<lambda>(r, s).
                  if r < 0 then Panic ''create dots'' else Ret s)))
          else Ret s) (\<lambda>s.
     bnd (dirlink me dp name (i_inum (icache s ! ip)) s) (\<lambda>(r, s).
       if r < 0 then Panic ''create: dirlink''
       else bnd (iunlockput me dp s) (\<lambda>s. Ret (Some ip, s)))))))"

definition create ::
  "nat \<Rightarrow> bytes \<Rightarrow> u16 \<Rightarrow> u16 \<Rightarrow> u16 \<Rightarrow> 'a consst_scheme \<Rightarrow> (nat option \<times> 'a consst_scheme) outcome" where
  "create me path ty major minor s =
     bnd (nameiparent me path (replicate DIRSIZ 0) s) (\<lambda>(r, name, s).
       case r of
         None \<Rightarrow> Ret (None, s)
       | Some dp \<Rightarrow>
           bnd (ilock me dp s) (\<lambda>s.
           bnd (dirlookup me dp name s) (\<lambda>(r, s).
             case r of
               Some (ip, _) \<Rightarrow>
                 bnd (iunlockput me dp s) (\<lambda>s.
                 bnd (ilock me ip s) (\<lambda>s.
                   if ty = T_FILE \<and> i_type (icache s ! ip) = T_FILE then Ret (Some ip, s)
                   else bnd (iunlockput me ip s) (\<lambda>s. Ret (None, s))))
             | None \<Rightarrow> create_new me dp name ty major minor s)))"

definition has_flag :: "int \<Rightarrow> int \<Rightarrow> bool" where
  "has_flag omode fl \<longleftrightarrow> (word_of_int omode :: u32) AND word_of_int fl \<noteq> 0"

text \<open>The second half of \<open>sys_open\<close>, with the inode locked.\<close>

definition open_file :: "nat \<Rightarrow> nat \<Rightarrow> int \<Rightarrow> 'a kern_scheme \<Rightarrow> (int \<times> 'a kern_scheme) outcome" where
  "open_file me ip omode s =
     (case filealloc s of
        (None, s) \<Rightarrow> bnd (iunlockput me ip s) (\<lambda>s. bnd (end_op me s) (\<lambda>s. Ret (- 1, s)))
      | (Some f, s) \<Rightarrow>
          (case fdalloc me f s of
             (None, s) \<Rightarrow>
               bnd (fileclose me f s) (\<lambda>s.
               bnd (iunlockput me ip s) (\<lambda>s. bnd (end_op me s) (\<lambda>s. Ret (- 1, s))))
           | (Some fd, s) \<Rightarrow>
               bnd (iunlock me ip s) (\<lambda>s.
               bnd (end_op me s) (\<lambda>s.
                 Ret (int fd, upd_file f (\<lambda>x. x\<lparr>f_type := FD_INODE, f_ip := Some ip, f_off := 0,
                   f_readable := \<not> has_flag omode O_WRONLY,
                   f_writable := has_flag omode O_WRONLY \<or> has_flag omode O_RDWR\<rparr>) s)))))"

definition sys_open :: "nat \<Rightarrow> 'a kern_scheme \<Rightarrow> (int \<times> 'a kern_scheme) outcome" where
  "sys_open me s =
     bnd (argstr me 0 s) (\<lambda>r. case r of None \<Rightarrow> Ret (- 1, s) | Some (_, path) \<Rightarrow>
     bnd (argint me 1 s) (\<lambda>r. case r of None \<Rightarrow> Ret (- 1, s) | Some omode \<Rightarrow>
     bnd (begin_op s) (\<lambda>s.
       if has_flag omode O_CREATE then
         bnd (create me path T_FILE 0 0 s) (\<lambda>(r, s).
           case r of
             None \<Rightarrow> bnd (end_op me s) (\<lambda>s. Ret (- 1, s))
           | Some ip \<Rightarrow> open_file me ip omode s)
       else
         bnd (namei me path s) (\<lambda>(r, s).
           case r of
             None \<Rightarrow> bnd (end_op me s) (\<lambda>s. Ret (- 1, s))
           | Some ip \<Rightarrow>
               bnd (ilock me ip s) (\<lambda>s.
                 if i_type (icache s ! ip) = T_DIR \<and> omode \<noteq> O_RDONLY then
                   bnd (iunlockput me ip s) (\<lambda>s. bnd (end_op me s) (\<lambda>s. Ret (- 1, s)))
                 else open_file me ip omode s)))))"

text \<open>\<open>sys_mkdir\<close> and \<open>sys_mknod\<close> after their arguments.\<close>

definition make_inode ::
  "nat \<Rightarrow> (bytes \<times> u16 \<times> u16 \<times> u16) option \<Rightarrow> 'a kern_scheme \<Rightarrow> (int \<times> 'a kern_scheme) outcome" where
  "make_inode me a s =
     bnd (case a of None \<Rightarrow> Ret (None, s) | Some (path, ty, major, minor) \<Rightarrow> create me path ty major minor s) (\<lambda>(r, s).
       case r of
         None \<Rightarrow> bnd (end_op me s) (\<lambda>s. Ret (- 1, s))
       | Some ip \<Rightarrow> bnd (iunlockput me ip s) (\<lambda>s. bnd (end_op me s) (\<lambda>s. Ret (0, s))))"

definition sys_mkdir :: "nat \<Rightarrow> 'a kern_scheme \<Rightarrow> (int \<times> 'a kern_scheme) outcome" where
  "sys_mkdir me s =
     bnd (begin_op s) (\<lambda>s.
     bnd (argstr me 0 s) (\<lambda>r. make_inode me (map_option (\<lambda>(_, path). (path, T_DIR, 0, 0)) r) s))"

text \<open>\<open>create\<close> takes the device numbers as \<open>short\<close>.\<close>

definition sys_mknod :: "nat \<Rightarrow> 'a kern_scheme \<Rightarrow> (int \<times> 'a kern_scheme) outcome" where
  "sys_mknod me s =
     bnd (begin_op s) (\<lambda>s.
     bnd (argstr me 0 s) (\<lambda>r. case r of None \<Rightarrow> make_inode me None s | Some (_, path) \<Rightarrow>
     bnd (argint me 1 s) (\<lambda>r. case r of None \<Rightarrow> make_inode me None s | Some major \<Rightarrow>
     bnd (argint me 2 s) (\<lambda>r. case r of None \<Rightarrow> make_inode me None s | Some minor \<Rightarrow>
       make_inode me (Some (path, T_DEV, word_of_int major, word_of_int minor)) s))))"

definition sys_chdir :: "nat \<Rightarrow> 'a kern_scheme \<Rightarrow> (int \<times> 'a kern_scheme) outcome" where
  "sys_chdir me s =
     bnd (begin_op s) (\<lambda>s.
     bnd (argstr me 0 s) (\<lambda>r.
     bnd (case r of None \<Rightarrow> Ret (None, s) | Some (_, path) \<Rightarrow> namei me path s) (\<lambda>(r, s).
       case r of
         None \<Rightarrow> bnd (end_op me s) (\<lambda>s. Ret (- 1, s))
       | Some ip \<Rightarrow>
           bnd (ilock me ip s) (\<lambda>s.
             if i_type (icache s ! ip) \<noteq> T_DIR then
               bnd (iunlockput me ip s) (\<lambda>s. bnd (end_op me s) (\<lambda>s. Ret (- 1, s)))
             else
               bnd (iunlock me ip s) (\<lambda>s.
               bnd (case p_cwd (procs s ! me) of None \<Rightarrow> Panic ''trap'' | Some cwd \<Rightarrow> iput me cwd s) (\<lambda>s.
               bnd (end_op me s) (\<lambda>s.
                 Ret (0, upd_proc me (\<lambda>p. p\<lparr>p_cwd := Some ip\<rparr>) s))))))))"

text \<open>The loop of \<open>sys_exec\<close> over the argument pointers; \<open>n\<close> counts the free entries of \<open>argv\<close>.\<close>

fun exec_argv :: "nat \<Rightarrow> nat \<Rightarrow> u32 \<Rightarrow> 'a ptab_scheme \<Rightarrow> bytes list option outcome" where
  "exec_argv me 0 uargv s = Ret None"
| "exec_argv me (Suc n) uargv s =
     bnd (fetchint me uargv s) (\<lambda>r.
       case r of
         None \<Rightarrow> Ret None
       | Some uarg \<Rightarrow>
           if uarg = 0 then Ret (Some [])
           else
             bnd (fetchstr me (word_of_int uarg) s) (\<lambda>r.
               case r of
                 None \<Rightarrow> Ret None
               | Some (_, t) \<Rightarrow> bnd (exec_argv me n (uargv + 4) s) (\<lambda>r. Ret (map_option (\<lambda>ts. t # ts) r))))"

definition sys_exec :: "nat \<Rightarrow> 'a kern_scheme \<Rightarrow> (int \<times> 'a kern_scheme) outcome" where
  "sys_exec me s =
     bnd (argstr me 0 s) (\<lambda>r. case r of None \<Rightarrow> Ret (- 1, s) | Some (_, path) \<Rightarrow>
     bnd (argint me 1 s) (\<lambda>r. case r of None \<Rightarrow> Ret (- 1, s) | Some uargv \<Rightarrow>
     bnd (exec_argv me MAXARG (word_of_int uargv) s) (\<lambda>r. case r of None \<Rightarrow> Ret (- 1, s) | Some argv \<Rightarrow>
       exec me path argv s)))"

definition clear_fd :: "nat \<Rightarrow> nat \<Rightarrow> 'a ptab_scheme \<Rightarrow> 'a ptab_scheme" where
  "clear_fd me fd s = upd_proc me (\<lambda>p. p\<lparr>p_ofile := (p_ofile p)[fd := None]\<rparr>) s"

definition sys_pipe :: "nat \<Rightarrow> 'a kern_scheme \<Rightarrow> (int \<times> 'a kern_scheme) outcome" where
  "sys_pipe me s =
     bnd (argptr me 0 8 s) (\<lambda>r. case r of None \<Rightarrow> Ret (- 1, s) | Some fd \<Rightarrow>
     bnd (pipealloc me s) (\<lambda>(r, s). case r of None \<Rightarrow> Ret (- 1, s) | Some (rfile, wfile) \<Rightarrow>
       (case fdalloc me rfile s of
          (None, s) \<Rightarrow> bnd (fileclose me rfile s) (\<lambda>s. bnd (fileclose me wfile s) (\<lambda>s. Ret (- 1, s)))
        | (Some fd0, s) \<Rightarrow>
            (case fdalloc me wfile s of
               (None, s) \<Rightarrow>
                 bnd (fileclose me rfile (clear_fd me fd0 s)) (\<lambda>s. bnd (fileclose me wfile s) (\<lambda>s. Ret (- 1, s)))
             | (Some fd1, s) \<Rightarrow>
                 bnd (uwrite_bytes (upgdir me s) fd (int_bytes (int fd0) @ int_bytes (int fd1)) s) (\<lambda>s.
                   Ret (0, s))))))"

definition sys_change_file_size :: "nat \<Rightarrow> 'a kern_scheme \<Rightarrow> (int \<times> 'a kern_scheme) outcome" where
  "sys_change_file_size me s =
     bnd (cprintf (cstr ''kernel: called sys_change_file_size'' @ [10]) [] s) (\<lambda>s.
     bnd (argstr me 0 s) (\<lambda>r. case r of None \<Rightarrow> Ret (- 1, s) | Some (_, path) \<Rightarrow>
     bnd (argint me 1 s) (\<lambda>r. case r of None \<Rightarrow> Ret (- 1, s) | Some len \<Rightarrow>
     bnd (cprintf (cstr ''        calling change_file_size(%s, %d)'' @ [10]) [AStr (Some path), ANum len] s) (\<lambda>s.
       change_file_size me path len s))))"

end
