(* ===== verification/Prime_Factor.thy ===== *)
theory Prime_Factor
  imports Kernel_Prelude "HOL-Library.Monad_Syntax"
begin

text \<open>
  The computation behind the system call \<open>find_largest_prime_factor\<close> (\<^verbatim>\<open>src/xv6/proc.c\<close>).  Its loops
  divide by 2, 3, and all numbers of the form \<open>6k - 1\<close> and \<open>6k + 1\<close>; they need not end (the argument 0
  is divisible by everything), so not returning is the value \<open>None\<close>.
\<close>

section \<open>Definitions\<close>

text \<open>\<open>while (n % d == 0) { maxPrime = d; n = n / d; }\<close>\<close>

partial_function (option) div_out :: "int \<Rightarrow> int \<Rightarrow> int \<Rightarrow> (int \<times> int) option" where
  "div_out d maxPrime n = (if n smod d = 0 then div_out d d (n sdiv d) else Some (maxPrime, n))"

text \<open>The \<open>for\<close> loop, from \<open>i\<close> on.\<close>

partial_function (option) trial_division :: "int \<Rightarrow> int \<Rightarrow> int \<Rightarrow> (int \<times> int) option" where
  "trial_division i maxPrime n =
     (if i \<le> n then
        div_out i maxPrime n \<bind> (\<lambda>(maxPrime, n).
        div_out (wrap32 (i + 2)) maxPrime n \<bind> (\<lambda>(maxPrime, n).
          trial_division (wrap32 (i + 6)) maxPrime n))
      else Some (maxPrime, n))"

definition find_largest_prime_factor :: "int \<Rightarrow> int option" where
  "find_largest_prime_factor n =
     div_out 2 (- 1) n \<bind> (\<lambda>(maxPrime, n).
     div_out 3 maxPrime n \<bind> (\<lambda>(maxPrime, n).
     trial_division 5 maxPrime n \<bind> (\<lambda>(maxPrime, n).
       Some (if n > 4 then n else maxPrime))))"

section \<open>Rough numbers\<close>

definition is_prime :: "int \<Rightarrow> bool" where
  "is_prime p \<longleftrightarrow> 1 < p \<and> (\<forall>d > 0. d dvd p \<longrightarrow> d = 1 \<or> d = p)"

text \<open>\<open>n\<close> has no divisor between 2 and \<open>i - 1\<close>.\<close>

definition rough :: "int \<Rightarrow> int \<Rightarrow> bool" where
  "rough i n \<longleftrightarrow> (\<forall>q > 1. q dvd n \<longrightarrow> i \<le> q)"

lemma rough_next: "rough i n \<Longrightarrow> \<not> i dvd n \<Longrightarrow> rough (i + 1) n"
  unfolding rough_def by (metis add1_zle_eq order_le_less)

lemma rough_skip: "rough i n \<Longrightarrow> 1 < d \<Longrightarrow> d < i \<Longrightarrow> d dvd i \<Longrightarrow> rough (i + 1) n"
  by (rule rough_next, assumption) (meson dvd_trans not_le rough_def)

lemma rough_dvd: "rough i n \<Longrightarrow> m dvd n \<Longrightarrow> rough i m"
  unfolding rough_def by (meson dvd_trans)

lemma rough_prime: "rough i n \<Longrightarrow> i dvd n \<Longrightarrow> 1 < i \<Longrightarrow> is_prime i"
  unfolding rough_def is_prime_def
  by (metis dvd_trans int_one_le_iff_zero_less not_le order_antisym zdvd_imp_le order_le_less zero_less_one order_less_trans)

lemma prime_dvd_power_mult:
  assumes "is_prime p" "is_prime d" "p dvd d ^ k * n" "p \<noteq> d"
  shows "p dvd n"
proof -
  have "gcd p d dvd p" "gcd p d dvd d" "0 < gcd p d" using assms(1) by (auto simp: is_prime_def)
  then have "gcd p d = 1" using assms(1,2,4) unfolding is_prime_def by metis
  then have "coprime p (d ^ k)" by (simp add: coprime_iff_gcd_eq_1 [symmetric])
  then show ?thesis using assms(3) coprime_dvd_mult_right_iff by blast
qed

section \<open>The loops\<close>

lemma smod_0_iff: "0 \<le> n \<Longrightarrow> 0 < d \<Longrightarrow> n smod d = 0 \<longleftrightarrow> d dvd (n :: int)"
  by (auto simp: smod_nonneg)

lemma div_out_total:
  assumes "1 < d" "1 \<le> n"
  shows "\<exists>k n'. div_out d mx n = Some (if k = 0 then mx else d, n') \<and> n = d ^ k * n' \<and> \<not> d dvd n' \<and> 1 \<le> n'"
  using assms
proof (induction "nat n" arbitrary: n mx rule: less_induct)
  case less
  show ?case
  proof (cases "d dvd n")
    case False
    then show ?thesis using less.prems by (intro exI [of _ 0] exI [of _ n]) (simp add: div_out.simps smod_0_iff)
  next
    case True
    then obtain m where m: "n = d * m" by (elim dvdE)
    have m1: "1 \<le> m" using m less.prems by (smt (verit) mult_nonneg_nonpos)
    have "m < n" using m m1 less.prems by simp
    then obtain k n' where h: "div_out d d m = Some (if k = 0 then d else d, n')" "m = d ^ k * n'" "\<not> d dvd n'" "1 \<le> n'"
      using less.hyps [of m d] m1 less.prems by auto
    have "div_out d mx n = div_out d d m"
      using less.prems True m by (subst div_out.simps) (simp add: smod_0_iff sdiv_nonneg)
    then show ?thesis using h m by (intro exI [of _ "Suc k"] exI [of _ n']) simp
  qed
qed

text \<open>The loop returns on no argument but a nonzero one.\<close>

lemma div_out_nonzero:
  assumes "div_out d mx n = Some y" shows "n \<noteq> 0"
proof (rule div_out.raw_induct [where P = "\<lambda>d mx n y. n \<noteq> 0", rotated, OF assms])
  fix f :: "int \<Rightarrow> int \<Rightarrow> int \<Rightarrow> (int \<times> int) option" and d m n :: int and y
  assume "\<And>d m n y. f d m n = Some y \<Longrightarrow> n \<noteq> 0" and "(if n smod d = 0 then f d d (n sdiv d) else Some (m, n)) = Some y"
  then show "n \<noteq> 0" by (metis signed_divide_int_def signed_modulo_int_def div_0 mult_zero_left sgn_0 abs_zero mod_0)
qed

text \<open>The state of the search: \<open>n\<close> is what is left of \<open>N\<close>, every divisor of \<open>n\<close> but 1 is at least \<open>i\<close>, and
  \<open>mx\<close> is the largest prime taken out so far, or \<open>-1\<close>.\<close>

definition search :: "int \<Rightarrow> int \<Rightarrow> int \<Rightarrow> int \<Rightarrow> bool" where
  "search N i mx n \<longleftrightarrow>
     1 \<le> n \<and> n dvd N \<and> rough i n \<and> mx < i \<and> (mx = - 1 \<or> is_prime mx \<and> mx dvd N) \<and>
     (\<forall>p. is_prime p \<and> p dvd N \<longrightarrow> p dvd n \<or> p \<le> mx)"

lemma search_div_out:
  assumes "search N i mx n" "1 < i"
  shows "\<exists>mx' n'. div_out i mx n = Some (mx', n') \<and> search N (i + 1) mx' n' \<and> n' \<le> n"
proof -
  have s: "1 \<le> n" "n dvd N" "rough i n" "mx < i" "mx = - 1 \<or> is_prime mx \<and> mx dvd N"
    "\<And>p. is_prime p \<Longrightarrow> p dvd N \<Longrightarrow> p dvd n \<or> p \<le> mx" using assms(1) by (auto simp: search_def)
  obtain k n' where d: "div_out i mx n = Some (if k = 0 then mx else i, n')" "n = i ^ k * n'" "\<not> i dvd n'" "1 \<le> n'"
    using div_out_total [OF assms(2) s(1), of mx] by auto
  have n': "n' dvd n" using d(2) by simp
  have r: "rough (i + 1) n'" by (rule rough_next [OF rough_dvd [OF s(3) n'] d(3)])
  have dvd: "i dvd n" if "k \<noteq> 0" using d(2) that by (cases k) auto
  have pr: "is_prime i" if "k \<noteq> 0" using rough_prime [OF s(3) dvd [OF that] assms(2)] .
  have cover: "p dvd n' \<or> p \<le> (if k = 0 then mx else i)" if "is_prime p" "p dvd N" for p
  proof (cases "k = 0 \<or> p \<le> mx")
    case True
    then show ?thesis using s(4) s(6) [OF that] d(2) by auto
  next
    case False
    then show ?thesis using s(6) [OF that] prime_dvd_power_mult [OF that(1) pr, of k n'] d(2) by auto
  qed
  have "n' \<le> n" using n' s(1) by (simp add: zdvd_imp_le)
  moreover have "n' dvd N" using n' s(2) dvd_trans by blast
  moreover have "(if k = 0 then mx else i) = - 1 \<or> is_prime (if k = 0 then mx else i) \<and> (if k = 0 then mx else i) dvd N"
    using s(5) pr dvd_trans [OF dvd s(2)] by simp
  moreover have "(if k = 0 then mx else i) < i + 1" using s(4) by simp
  ultimately have "search N (i + 1) (if k = 0 then mx else i) n'"
    unfolding search_def using d(4) r cover by blast
  then show ?thesis using d(1) \<open>n' \<le> n\<close> by blast
qed

lemma search_skip:
  assumes "search N i mx n" "1 < d" "d < i" "d dvd i" shows "search N (i + 1) mx n"
  using assms rough_skip [of i n d] by (simp add: search_def)

text \<open>One turn of the \<open>for\<close> loop keeps the state, six numbers further on.\<close>

lemma search_turn:
  assumes "search N i mx n" "5 \<le> i" "i mod 6 = 5"
  shows "\<exists>mx1 n1 mx2 n2. div_out i mx n = Some (mx1, n1) \<and> div_out (i + 2) mx1 n1 = Some (mx2, n2) \<and>
    search N (i + 6) mx2 n2 \<and> n2 \<le> n"
proof -
  obtain k where k: "i = 6 * k + 5" using assms(3) by (metis add.commute mult_div_mod_eq)
  obtain mx1 n1 where a: "div_out i mx n = Some (mx1, n1)" "search N (i + 1) mx1 n1" "n1 \<le> n"
    using search_div_out [OF assms(1)] assms(2) by auto
  have "search N (i + 1 + 1) mx1 n1" by (rule search_skip [OF a(2), of 2]) (use k assms(2) in auto)
  then have "search N (i + 2) mx1 n1" by (simp add: algebra_simps)
  then obtain mx2 n2 where b: "div_out (i + 2) mx1 n1 = Some (mx2, n2)" "search N (i + 2 + 1) mx2 n2" "n2 \<le> n1"
    using search_div_out [of N "i + 2" mx1 n1] assms(2) by auto
  have "search N (i + 2 + 1 + 1) mx2 n2" by (rule search_skip [OF b(2), of 2]) (use k assms(2) in auto)
  then have "search N (i + 2 + 1 + 1 + 1) mx2 n2" by (rule search_skip [of _ _ _ _ 3]) (use k assms(2) in auto)
  then have "search N (i + 2 + 1 + 1 + 1 + 1) mx2 n2" by (rule search_skip [of _ _ _ _ 2]) (use k assms(2) in auto)
  then have "search N (i + 6) mx2 n2" by (simp add: algebra_simps)
  then show ?thesis using a b by (meson order_trans)
qed

lemma no_overflow:
  assumes "rough i n" "i \<le> n" "n < 2 ^ 31 - 1" "5 \<le> i" "i mod 6 = 5"
  shows "i + 6 < 2 ^ 31"
proof (rule ccontr)
  assume "\<not> i + 6 < 2 ^ 31"
  moreover obtain k where k: "i = 6 * k + 5" using assms(5) by (metis add.commute mult_div_mod_eq)
  ultimately have "k = 357913940" using assms(2,3) by simp
  then have i: "i = 2147483645" using k by simp
  then consider "n = 2147483645" | "n = 2147483646" using assms(2,3) i by fastforce
  then have "5 dvd n \<or> 2 dvd n" by cases auto
  then show False using assms(1) i unfolding rough_def by (elim disjE) force+
qed

lemma trial_division_total:
  assumes "search N i mx n" "5 \<le> i" "i mod 6 = 5" "n < 2 ^ 31 - 1"
  shows "\<exists>mx'. trial_division i mx n = Some (mx', 1) \<and> (mx' = - 1 \<or> is_prime mx' \<and> mx' dvd N) \<and>
    (\<forall>p. is_prime p \<and> p dvd N \<longrightarrow> p \<le> mx')"
  using assms
proof (induction "nat (2 ^ 31 - i)" arbitrary: i mx n rule: less_induct)
  case less
  show ?case
  proof (cases "i \<le> n")
    case False
    have "n = 1" using less.prems(1) False unfolding search_def rough_def by (metis dvd_refl order_le_less)
    then show ?thesis using less.prems(1,2) False
      by (auto simp: search_def trial_division.simps is_prime_def)
  next
    case True
    obtain mx1 n1 mx2 n2 where t: "div_out i mx n = Some (mx1, n1)" "div_out (i + 2) mx1 n1 = Some (mx2, n2)"
      "search N (i + 6) mx2 n2" "n2 \<le> n" using search_turn [OF less.prems(1-3)] by blast
    have o: "i + 6 < 2 ^ 31"
      using no_overflow [OF _ True less.prems(4,2,3)] less.prems(1) by (simp add: search_def)
    have "trial_division i mx n = trial_division (i + 6) mx2 n2"
      using True t(1,2) o less.prems(2) by (subst trial_division.simps) simp
    moreover have "nat (2 ^ 31 - (i + 6)) < nat (2 ^ 31 - i)" using o by simp
    ultimately show ?thesis using less.hyps [of "i + 6" mx2 n2] t(3,4) less.prems by simp
  qed
qed

lemma prime_divisor_ex: "1 < n \<Longrightarrow> \<exists>p. is_prime p \<and> p dvd n"
proof -
  assume n: "1 < n"
  let ?P = "\<lambda>k. 1 < k \<and> int k dvd n"
  have "?P (nat n)" using n by simp
  then have l: "?P (LEAST k. ?P k)" by (rule LeastI)
  have "int (LEAST k. ?P k) \<le> q" if "1 < q" "q dvd n" for q
    using Least_le [of ?P "nat q"] that by simp
  then have "rough (int (LEAST k. ?P k)) n" by (simp add: rough_def)
  then show ?thesis using rough_prime l by fastforce
qed

lemma search_start:
  assumes "1 \<le> n"
  shows "\<exists>mx1 n1 mx2 n2. div_out 2 (- 1) n = Some (mx1, n1) \<and> div_out 3 mx1 n1 = Some (mx2, n2) \<and> search n 5 mx2 n2 \<and> n2 \<le> n"
proof -
  have "search n 2 (- 1) n" using assms by (simp add: search_def rough_def)
  then obtain mx1 n1 where a: "div_out 2 (- 1) n = Some (mx1, n1)" "search n 3 mx1 n1" "n1 \<le> n"
    using search_div_out [of n 2 "- 1" n] by auto
  then obtain mx2 n2 where b: "div_out 3 mx1 n1 = Some (mx2, n2)" "search n 4 mx2 n2" "n2 \<le> n1"
    using search_div_out [of n 3 mx1 n1] by auto
  have "search n 5 mx2 n2" using search_skip [OF b(2), of 2] by simp
  then show ?thesis using a b by (meson order_trans)
qed

section \<open>Properties\<close>

text \<open>C25: For every argument from 2 up to \<open>2 ^ 31 - 2\<close>, \<open>find_largest_prime_factor\<close> returns, and its result
  is the largest prime that divides the argument; for 1, which has no prime divisor, it returns \<open>-1\<close>.
  The signed counter of the loop never overflows on these arguments.\<close>

theorem find_largest_prime_factor_correct:
  assumes "1 \<le> n" and "n < 2 ^ 31 - 1"
  shows "\<exists>r. find_largest_prime_factor n = Some r \<and>
    (if n = 1 then r = - 1 else is_prime r \<and> r dvd n \<and> (\<forall>p. is_prime p \<and> p dvd n \<longrightarrow> p \<le> r))"
proof -
  obtain mx1 n1 mx2 n2 where a: "div_out 2 (- 1) n = Some (mx1, n1)" "div_out 3 mx1 n1 = Some (mx2, n2)"
    "search n 5 mx2 n2" "n2 \<le> n" using search_start [OF assms(1)] by blast
  then obtain r where r: "trial_division 5 mx2 n2 = Some (r, 1)" "r = - 1 \<or> is_prime r \<and> r dvd n"
    "\<forall>p. is_prime p \<and> p dvd n \<longrightarrow> p \<le> r" using trial_division_total [OF a(3)] assms(2) by auto
  have "find_largest_prime_factor n = Some r" using a r(1) by (simp add: find_largest_prime_factor_def)
  moreover have "r = - 1" if "n = 1" using r(2) that by (auto simp: is_prime_def dest: zdvd_imp_le)
  moreover have "r \<noteq> - 1" if "n \<noteq> 1" using prime_divisor_ex [of n] r(3) assms(1) that by (force simp: is_prime_def)
  ultimately show ?thesis using r by auto
qed

theorem find_largest_prime_factor_correct_witness:
  "\<exists>r. find_largest_prime_factor 2147483646 = Some r \<and> is_prime r \<and> r dvd 2147483646"
  using find_largest_prime_factor_correct [of 2147483646] by auto

text \<open>C26: On the argument 0, which a user program can pass, the system call never returns.\<close>

theorem find_largest_prime_factor_zero: "find_largest_prime_factor 0 = None"
proof -
  have "div_out 2 (- 1) 0 = None" using div_out_nonzero [of 2 "- 1" 0] by (cases "div_out 2 (- 1) 0") auto
  then show ?thesis by (simp add: find_largest_prime_factor_def)
qed

end
