(* ===== verification/Syscall.thy ===== *)
theory Syscall
  imports Sysfile Prime_Factor
begin

text \<open>
  The process system calls (\<^verbatim>\<open>src/xv6/sysproc.c\<close>), the record of calls and the listings of
  \<^verbatim>\<open>src/xv6/proc.c\<close>, and the dispatcher of \<^verbatim>\<open>src/xv6/syscall.c\<close>.  A local variable that the source
  leaves uninitialised when \<open>argint\<close> fails has the value \<open>junk n\<close>, and a system call declared \<open>void\<close>
  leaves the value \<open>junk 0\<close> in \<open>%eax\<close>.  \<open>Panic ''out of bounds''\<close> is an access outside an array.
\<close>

section \<open>The record of system calls\<close>

definition NUM_OF_SYSCALLS :: nat where "NUM_OF_SYSCALLS = 50"
definition MAX_PID_NUM_SAVED :: nat where "MAX_PID_NUM_SAVED = 1000"
definition MAX_PID_TRACED :: nat where "MAX_PID_TRACED = 1000"
definition MAX_PID_OUTPUT_IN_ONE_LINE :: int where "MAX_PID_OUTPUT_IN_ONE_LINE = 11"

definition push_pid_in_stack :: "int \<Rightarrow> nat \<Rightarrow> 'a kern_scheme \<Rightarrow> 'a kern_scheme outcome" where
  "push_pid_in_stack pid num s =
     (case scan (\<lambda>x. x = 0) (syscalls_pid_stack s ! num) of
        None \<Rightarrow> Panic ''out of bounds''
      | Some i \<Rightarrow>
          if pid < 0 \<or> pid \<ge> int MAX_PID_TRACED then Panic ''out of bounds''
          else
            (let n = wrap32 (pid_num_of_calls s ! nat pid + 1)
             in Ret (s\<lparr>syscalls_pid_stack := (syscalls_pid_stack s)[num := (syscalls_pid_stack s ! num)[i := pid]],
                       pid_num_of_calls := (pid_num_of_calls s)[nat pid := n],
                       syscalls_order_pid_stack :=
                         (syscalls_order_pid_stack s)[num := (syscalls_order_pid_stack s ! num)[i := n]]\<rparr>)))"

text \<open>The loop of \<open>get_callers\<close> from entry \<open>i\<close> on; the first argument counts the entries left in the row.\<close>

fun get_callers_loop :: "nat \<Rightarrow> nat \<Rightarrow> int list \<Rightarrow> int list \<Rightarrow> 'a kern_scheme \<Rightarrow> 'a kern_scheme outcome" where
  "get_callers_loop 0 i pids ords s = Panic ''out of bounds''"
| "get_callers_loop (Suc k) i pids ords s =
     (if pids ! i = 0 then Ret s
      else
        bnd (if int i smod MAX_PID_OUTPUT_IN_ONE_LINE = 0 then cprintf [10] [] s else Ret s) (\<lambda>s.
          if k = 0 then Panic ''out of bounds''
          else
            bnd (cprintf (if pids ! Suc i \<noteq> 0 then cstr ''%d:%d ,'' else cstr ''%d:%d'' @ [10])
                   [ANum (pids ! i), ANum (ords ! i)] s) (\<lambda>s.
              get_callers_loop k (Suc i) pids ords s)))"

definition get_callers :: "int \<Rightarrow> 'a kern_scheme \<Rightarrow> 'a kern_scheme outcome" where
  "get_callers num s =
     (if num < 0 \<or> num \<ge> int NUM_OF_SYSCALLS then Panic ''out of bounds''
      else
        (let pids = syscalls_pid_stack s ! nat num; ords = syscalls_order_pid_stack s ! nat num
         in if pids ! 0 = 0 then cprintf (cstr ''this syscall is not called yet!!!'' @ [10]) [] s
            else
              bnd (cprintf (cstr ''pid: order that pid called this syscall'' @ [10]) [] s) (\<lambda>s.
                get_callers_loop MAX_PID_NUM_SAVED 0 pids ords s)))"

section \<open>Listings\<close>

text \<open>The conversion of a float to \<open>int\<close> truncates; \<open>fl\<close> is the rounding of a float operation.\<close>

definition trunc :: "rat \<Rightarrow> int" where
  "trunc q = (if q < 0 then - \<lfloor>- q\<rfloor> else \<lfloor>q\<rfloor>)"

definition printfloat :: "(rat \<Rightarrow> rat) \<Rightarrow> rat \<Rightarrow> 'a consst_scheme \<Rightarrow> 'a consst_scheme outcome" where
  "printfloat fl num s =
     (let beg = wrap32 (trunc num); fin = wrap32 (wrap32 (trunc (fl (num * 100))) - wrap32 (beg * 100))
      in bnd (cprintf (cstr ''%d'') [ANum beg] s) (\<lambda>s.
         bnd (cprintf (cstr ''.'') [] s) (\<lambda>s.
         bnd (if fin < 10 then cprintf (cstr ''0'') [] s else Ret s) (\<lambda>s.
           cprintf (cstr ''%d'') [ANum fin] s))))"

function get_lenght_loop :: "int \<Rightarrow> int \<Rightarrow> int" where
  "get_lenght_loop num len = (if num > 0 then get_lenght_loop (num sdiv 10) (len + 1) else len)"
  by pat_completeness auto
termination by (relation "measure (\<lambda>(num, len). nat num)") (auto simp: sdiv_nonneg)

declare get_lenght_loop.simps [simp del]

definition get_lenght :: "int \<Rightarrow> int" where
  "get_lenght num = (if num = 0 then 1 else get_lenght_loop num 0)"

text \<open>\<open>for(int i = 0; i < n; i++) cprintf(" ")\<close>\<close>

definition pad :: "int \<Rightarrow> 'a consst_scheme \<Rightarrow> 'a consst_scheme outcome" where
  "pad n s = cprintf (replicate (nat n) 32) [] s"

definition print_col :: "bytes \<Rightarrow> fmt_arg list \<Rightarrow> int \<Rightarrow> 'a consst_scheme \<Rightarrow> 'a consst_scheme outcome" where
  "print_col fmt as n s = bnd (cprintf fmt as s) (pad n)"

fun state_name :: "procstate \<Rightarrow> string" where
  "state_name UNUSED = ''UNUSED''"
| "state_name EMBRYO = ''EMBRYO''"
| "state_name SLEEPING = ''SLEEPING''"
| "state_name RUNNABLE = ''RUNNABLE''"
| "state_name RUNNING = ''RUNNING''"
| "state_name ZOMBIE = ''ZOMBIE''"

text \<open>The pointer \<open>queue\<close> is uninitialised when the number of the queue is not 1, 2 or 3.\<close>

definition queue_name :: "int \<Rightarrow> string option" where
  "queue_name q =
     (if q = 1 then Some ''RoundRobin'' else if q = 2 then Some ''Lottery'' else if q = 3 then Some ''BJF'' else None)"

definition print_proc :: "(rat \<Rightarrow> rat) \<Rightarrow> proc \<Rightarrow> 'a consst_scheme \<Rightarrow> 'a consst_scheme outcome" where
  "print_proc fl p s =
     bnd (print_col (p_name p) [] (11 - int (strlen (p_name p))) s) (\<lambda>s.
     bnd (print_col (cstr ''%d'') [ANum (p_pid p)] (10 - get_lenght (p_pid p)) s) (\<lambda>s.
     bnd (print_col (cstr (state_name (p_state p))) [] (12 - int (length (state_name (p_state p)))) s) (\<lambda>s.
       case queue_name (p_queue p) of
         None \<Rightarrow> Panic ''out of bounds''
       | Some q \<Rightarrow>
           bnd (print_col (cstr q) [] (12 - int (length q)) s) (\<lambda>s.
           bnd (print_col (cstr ''%d'') [ANum (p_entered_queue p)] (20 - get_lenght (p_entered_queue p)) s) (\<lambda>s.
           bnd (print_col (cstr ''%d'') [ANum (p_tickets p)] (12 - get_lenght (p_tickets p) - 1) s) (\<lambda>s.
           bnd (print_col (cstr ''%d'') [ANum (p_priority_ratio p)] (13 - get_lenght (p_priority_ratio p)) s) (\<lambda>s.
           bnd (print_col (cstr ''%d'') [ANum (p_executed_cycle_ratio p)] (14 - get_lenght (p_executed_cycle_ratio p)) s) (\<lambda>s.
           bnd (print_col (cstr ''%d'') [ANum (p_arrival_time_ratio p)] (14 - get_lenght (p_arrival_time_ratio p)) s) (\<lambda>s.
           bnd (printfloat fl (get_rank fl p) s) (\<lambda>s.
           bnd (pad (11 - get_lenght (wrap32 (trunc (get_rank fl p))) - 2) s) (\<lambda>s.
             let e = fl (p_executed_cycle p * 10); n = wrap32 (trunc e)
             in bnd (cprintf (cstr ''%d'') [ANum (if fl (e - rat_of_int n) \<le> 1 / 2 then n else wrap32 (n + 1))] s) (\<lambda>s.
                  cprintf [10] [] s))))))))))))"

fun print_procs :: "(rat \<Rightarrow> rat) \<Rightarrow> proc list \<Rightarrow> 'a consst_scheme \<Rightarrow> 'a consst_scheme outcome" where
  "print_procs fl [] s = Ret s"
| "print_procs fl (p # ps) s =
     bnd (if p_state p = UNUSED then Ret s else print_proc fl p s) (\<lambda>s. print_procs fl ps s)"

definition print_all_procs :: "(rat \<Rightarrow> rat) \<Rightarrow> 'a consst_scheme \<Rightarrow> 'a consst_scheme outcome" where
  "print_all_procs fl s =
     bnd (cprintf (cstr ''name       pid       state       queue       arrival_time        tickets     p_ratio      e_ratio       a_ratio       rank       exec_cycle'' @ [10]) [] s) (\<lambda>s.
     bnd (cprintf (replicate 139 46 @ [10]) [] s) (\<lambda>s.
       print_procs fl (procs s) s))"

section \<open>Process system calls\<close>

datatype sys_result =
    SysRet int   \<comment> \<open>the value returned\<close>
  | SysVoid      \<comment> \<open>a call declared \<open>void\<close>\<close>
  | SysGone      \<comment> \<open>the process is dead\<close>

definition returns :: "(int \<times> 's) outcome \<Rightarrow> (sys_result \<times> 's) outcome" where
  "returns m = bnd m (\<lambda>(r, s). Ret (SysRet r, s))"

definition sys_kill :: "nat \<Rightarrow> 'a ptab_scheme \<Rightarrow> (int \<times> 'a ptab_scheme) outcome" where
  "sys_kill me s = bnd (argint me 0 s) (\<lambda>r. case r of None \<Rightarrow> Ret (- 1, s) | Some pid \<Rightarrow> Ret (kill pid s))"

definition sys_getpid :: "nat \<Rightarrow> 'a ptab_scheme \<Rightarrow> (int \<times> 'a ptab_scheme) outcome" where
  "sys_getpid me s = Ret (mypid me s, s)"

definition sys_sbrk :: "nat \<Rightarrow> 'a ptab_scheme \<Rightarrow> (int \<times> 'a ptab_scheme) outcome" where
  "sys_sbrk me s =
     bnd (argint me 0 s) (\<lambda>r.
       case r of
         None \<Rightarrow> Ret (- 1, s)
       | Some n \<Rightarrow>
           (let addr = sint (p_sz (procs s ! me))
            in bnd (growproc me n s) (\<lambda>(r, s). Ret (if r < 0 then - 1 else addr, s))))"

text \<open>One turn of the loop of \<open>sys_sleep\<close>; \<open>None\<close> says that the caller has gone to sleep.\<close>

definition sys_sleep_run :: "nat \<Rightarrow> u32 \<Rightarrow> int \<Rightarrow> 'a ptab_scheme \<Rightarrow> int option \<times> 'a ptab_scheme" where
  "sys_sleep_run me ticks0 n s =
     (if ticks s - ticks0 < word_of_int n then
        if p_killed (procs s ! me) then (Some (- 1), s) else (None, sleep_enter me TicksChan s)
      else (Some 0, s))"

definition sys_sleep :: "nat \<Rightarrow> 'a ptab_scheme \<Rightarrow> (int \<times> 'a ptab_scheme) outcome" where
  "sys_sleep me s =
     bnd (argint me 0 s) (\<lambda>r.
       case r of
         None \<Rightarrow> Ret (- 1, s)
       | Some n \<Rightarrow> (case sys_sleep_run me (ticks s) n s of (Some r, s) \<Rightarrow> Ret (r, s) | (None, _) \<Rightarrow> Blocked))"

definition sys_uptime :: "'a ptab_scheme \<Rightarrow> (int \<times> 'a ptab_scheme) outcome" where
  "sys_uptime s = Ret (sint (ticks s), s)"

definition sys_find_largest_prime_factor :: "nat \<Rightarrow> 'a kern_scheme \<Rightarrow> (int \<times> 'a kern_scheme) outcome" where
  "sys_find_largest_prime_factor me s =
     (let number = sint (tf_ebx (p_tf (procs s ! me)))
      in bnd (cprintf (cstr ''Kernel: sys_find_largest_prime_factor(%d) is called'' @ [10]) [ANum number] s) (\<lambda>s.
         bnd (cprintf (cstr ''        now calling find_largest_prime_factor(%d)'' @ [10]) [ANum number] s) (\<lambda>s.
           case find_largest_prime_factor number of None \<Rightarrow> Blocked | Some r \<Rightarrow> Ret (r, s))))"

text \<open>An argument whose failed fetch is ignored.\<close>

definition arg_or :: "(nat \<Rightarrow> int) \<Rightarrow> nat \<Rightarrow> nat \<Rightarrow> 'a ptab_scheme \<Rightarrow> int outcome" where
  "arg_or junk me n s = bnd (argint me n s) (\<lambda>r. Ret (case r of None \<Rightarrow> junk (Suc n) | Some v \<Rightarrow> v))"

definition sys_get_callers :: "(nat \<Rightarrow> int) \<Rightarrow> nat \<Rightarrow> 'a kern_scheme \<Rightarrow> 'a kern_scheme outcome" where
  "sys_get_callers junk me s =
     bnd (arg_or junk me 0 s) (\<lambda>number.
     bnd (cprintf (cstr ''Kernel: sys_get_callers(%d) is called'' @ [10]) [ANum number] s) (\<lambda>s.
     bnd (cprintf (cstr ''        now calling get_callers(%d)'' @ [10]) [ANum number] s) (\<lambda>s.
       get_callers number s)))"

definition sys_set_proc_queue :: "(nat \<Rightarrow> int) \<Rightarrow> nat \<Rightarrow> 'a ptab_scheme \<Rightarrow> 'a ptab_scheme outcome" where
  "sys_set_proc_queue junk me s =
     bnd (arg_or junk me 0 s) (\<lambda>pid. bnd (arg_or junk me 1 s) (\<lambda>queue. Ret (set_proc_queue pid queue s)))"

definition sys_set_lottery_params :: "(nat \<Rightarrow> int) \<Rightarrow> nat \<Rightarrow> 'a ptab_scheme \<Rightarrow> 'a ptab_scheme outcome" where
  "sys_set_lottery_params junk me s =
     bnd (arg_or junk me 0 s) (\<lambda>pid. bnd (arg_or junk me 1 s) (\<lambda>t. Ret (set_lottery_params pid t s)))"

definition sys_set_a_proc_bjf_params :: "(nat \<Rightarrow> int) \<Rightarrow> nat \<Rightarrow> 'a ptab_scheme \<Rightarrow> 'a ptab_scheme outcome" where
  "sys_set_a_proc_bjf_params junk me s =
     bnd (arg_or junk me 0 s) (\<lambda>pid. bnd (arg_or junk me 1 s) (\<lambda>pr.
     bnd (arg_or junk me 2 s) (\<lambda>ar. bnd (arg_or junk me 3 s) (\<lambda>er.
       Ret (set_a_proc_bjf_params pid pr ar er s)))))"

definition sys_set_all_bjf_params :: "(nat \<Rightarrow> int) \<Rightarrow> nat \<Rightarrow> 'a ptab_scheme \<Rightarrow> 'a ptab_scheme outcome" where
  "sys_set_all_bjf_params junk me s =
     bnd (arg_or junk me 0 s) (\<lambda>pr. bnd (arg_or junk me 1 s) (\<lambda>ar. bnd (arg_or junk me 2 s) (\<lambda>er.
       Ret (set_all_bjf_params pr ar er s))))"

text \<open>The semaphore system calls do not test the index.\<close>

definition with_sem :: "int \<Rightarrow> 'a kern_scheme \<Rightarrow> (nat \<Rightarrow> 'b outcome) \<Rightarrow> 'b outcome" where
  "with_sem i s k = (if i < 0 \<or> i \<ge> int MAX_SEMAPHORE then Panic ''out of bounds'' else k (nat i))"

definition sys_sem_init :: "(nat \<Rightarrow> int) \<Rightarrow> nat \<Rightarrow> 'a kern_scheme \<Rightarrow> 'a kern_scheme outcome" where
  "sys_sem_init junk me s =
     bnd (arg_or junk me 0 s) (\<lambda>i. bnd (arg_or junk me 1 s) (\<lambda>v.
     with_sem i s (\<lambda>i. Ret (s\<lparr>semtable := (semtable s)[i := sem_init v (semtable s ! i)]\<rparr>))))"

definition sys_sem_acquire :: "(nat \<Rightarrow> int) \<Rightarrow> nat \<Rightarrow> 'a kern_scheme \<Rightarrow> 'a kern_scheme outcome" where
  "sys_sem_acquire junk me s =
     bnd (arg_or junk me 0 s) (\<lambda>i.
     with_sem i s (\<lambda>i.
       case sem_acquire_enter me (semtable s ! i) s of
         (True, sm, s) \<Rightarrow> Ret (s\<lparr>semtable := (semtable s)[i := sm]\<rparr>)
       | (False, _, _) \<Rightarrow> Blocked))"

definition sys_sem_release :: "(nat \<Rightarrow> int) \<Rightarrow> nat \<Rightarrow> 'a kern_scheme \<Rightarrow> 'a kern_scheme outcome" where
  "sys_sem_release junk me s =
     bnd (arg_or junk me 0 s) (\<lambda>i.
     with_sem i s (\<lambda>i.
       case sem_release (semtable s ! i) s of
         (sm, s) \<Rightarrow> Ret (s\<lparr>semtable := (semtable s)[i := sm]\<rparr>)))"

section \<open>The dispatcher\<close>

definition void :: "'s outcome \<Rightarrow> (sys_result \<times> 's) outcome" where
  "void m = bnd m (\<lambda>s. Ret (SysVoid, s))"

text \<open>The table \<open>syscalls[]\<close>; \<open>None\<close> is a number without an entry.\<close>

definition syscall_entry ::
  "(rat \<Rightarrow> rat) \<Rightarrow> (nat \<Rightarrow> int) \<Rightarrow> int \<Rightarrow> (nat \<Rightarrow> 'a kern_scheme \<Rightarrow> (sys_result \<times> 'a kern_scheme) outcome) option" where
  "syscall_entry fl junk num =
     (if num < 1 \<or> 33 < num then None
      else Some
        ([\<lambda>me s. returns (fork me s),
          \<lambda>me s. bnd (exit me s) (\<lambda>s. Ret (SysGone, s)),
          \<lambda>me s. returns (wait me s),
          \<lambda>me s. returns (sys_pipe me s),
          \<lambda>me s. returns (sys_read me s),
          \<lambda>me s. returns (sys_kill me s),
          \<lambda>me s. returns (sys_exec me s),
          \<lambda>me s. returns (sys_fstat me s),
          \<lambda>me s. returns (sys_chdir me s),
          \<lambda>me s. returns (sys_dup me s),
          \<lambda>me s. returns (sys_getpid me s),
          \<lambda>me s. returns (sys_sbrk me s),
          \<lambda>me s. returns (sys_sleep me s),
          \<lambda>me s. returns (sys_uptime s),
          \<lambda>me s. returns (sys_open me s),
          \<lambda>me s. returns (sys_write me s),
          \<lambda>me s. returns (sys_mknod me s),
          \<lambda>me s. returns (sys_unlink me s),
          \<lambda>me s. returns (sys_link me s),
          \<lambda>me s. returns (sys_mkdir me s),
          \<lambda>me s. returns (sys_close me s),
          \<lambda>me s. returns (sys_find_largest_prime_factor me s),
          \<lambda>me s. void (sys_get_callers junk me s),
          \<lambda>me s. returns (sys_change_file_size me s),
          \<lambda>me s. returns (bnd (get_parent_pid me s) (\<lambda>r. Ret (r, s))),
          \<lambda>me s. void (sys_set_proc_queue junk me s),
          \<lambda>me s. void (sys_set_lottery_params junk me s),
          \<lambda>me s. void (sys_set_a_proc_bjf_params junk me s),
          \<lambda>me s. void (sys_set_all_bjf_params junk me s),
          \<lambda>me s. void (print_all_procs fl s),
          \<lambda>me s. void (sys_sem_init junk me s),
          \<lambda>me s. void (sys_sem_acquire junk me s),
          \<lambda>me s. void (sys_sem_release junk me s)] ! (nat num - 1)))"

definition set_eax :: "nat \<Rightarrow> int \<Rightarrow> 'a ptab_scheme \<Rightarrow> 'a ptab_scheme" where
  "set_eax me v s = upd_proc me (\<lambda>p. p\<lparr>p_tf := (p_tf p)\<lparr>tf_eax := word_of_int v\<rparr>\<rparr>) s"

text \<open>\<open>syscall()\<close>; the flag tells whether the process still exists.\<close>

definition syscall ::
  "(rat \<Rightarrow> rat) \<Rightarrow> (nat \<Rightarrow> int) \<Rightarrow> nat \<Rightarrow> 'a kern_scheme \<Rightarrow> (bool \<times> 'a kern_scheme) outcome" where
  "syscall fl junk me s =
     (let num = sint (tf_eax (p_tf (procs s ! me))); pid = p_pid (procs s ! me)
      in case syscall_entry fl junk num of
           Some f \<Rightarrow>
             bnd (push_pid_in_stack pid (nat num) s) (\<lambda>s.
             bnd (f me s) (\<lambda>(r, s).
               case r of
                 SysRet v \<Rightarrow> Ret (True, set_eax me v s)
               | SysVoid \<Rightarrow> Ret (True, set_eax me (junk 0) s)
               | SysGone \<Rightarrow> Ret (False, s)))
         | None \<Rightarrow>
             bnd (cprintf (cstr ''%d %s: unknown sys call %d'' @ [10])
                    [ANum pid, AStr (Some (p_name (procs s ! me))), ANum num] s) (\<lambda>s.
               Ret (True, set_eax me (- 1) s)))"

end
