(* ===== verification/Kbd.thy ===== *)
theory Kbd
  imports Kernel_Prelude
begin

text \<open>
  The keyboard driver (\<^verbatim>\<open>src/xv6/kbd.c\<close> and the tables of \<^verbatim>\<open>src/xv6/kbd.h\<close>): one scan code from the
  controller to a character, with the state of the shift keys in the static variable \<open>shift\<close>.
\<close>

section \<open>Definitions\<close>

definition SHIFT :: u32 where "SHIFT = 1"
definition CTL :: u32 where "CTL = 2"
definition ALT :: u32 where "ALT = 4"
definition CAPSLOCK :: u32 where "CAPSLOCK = 8"
definition NUMLOCK :: u32 where "NUMLOCK = 16"
definition SCROLLLOCK :: u32 where "SCROLLLOCK = 32"
definition E0ESC :: u32 where "E0ESC = 64"

definition shiftcode :: "u8 \<Rightarrow> u32" where
  "shiftcode d =
     (if d = 0x1D then CTL else if d = 0x2A then SHIFT else if d = 0x36 then SHIFT
      else if d = 0x38 then ALT else if d = 0x9D then CTL else if d = 0xB8 then ALT else 0)"

definition togglecode :: "u8 \<Rightarrow> u32" where
  "togglecode d =
     (if d = 0x3A then CAPSLOCK else if d = 0x45 then NUMLOCK else if d = 0x46 then SCROLLLOCK else 0)"

definition normalmap :: bytes where
  "normalmap =
     ([
      0, 27, 49, 50, 51, 52, 53, 54, 55, 56, 57, 48, 45, 61, 8, 9,
      113, 119, 101, 114, 116, 121, 117, 105, 111, 112, 91, 93, 10, 0, 97, 115,
      100, 102, 103, 104, 106, 107, 108, 59, 39, 96, 0, 92, 122, 120, 99, 118,
      98, 110, 109, 44, 46, 47, 0, 42, 0, 32, 0, 0, 0, 0, 0, 0,
      0, 0, 0, 0, 0, 0, 0, 55, 56, 57, 45, 52, 53, 54, 43, 49,
      50, 51, 48, 46, 0, 0, 0, 0]
      @ replicate 168 0)
     [0x9C := 10, 0xB5 := 47, 0xC8 := 226, 0xD0 := 227, 0xC9 := 230, 0xD1 := 231, 0xCB := 228, 0xCD := 229, 0x97 := 224, 0xCF := 225, 0xD2 := 232, 0xD3 := 233]"

definition shiftmap :: bytes where
  "shiftmap =
     ([
      0, 27, 33, 64, 35, 36, 37, 94, 38, 42, 40, 41, 95, 43, 8, 9,
      81, 87, 69, 82, 84, 89, 85, 73, 79, 80, 123, 125, 10, 0, 65, 83,
      68, 70, 71, 72, 74, 75, 76, 58, 34, 126, 0, 124, 90, 88, 67, 86,
      66, 78, 77, 60, 62, 63, 0, 42, 0, 32, 0, 0, 0, 0, 0, 0,
      0, 0, 0, 0, 0, 0, 0, 55, 56, 57, 45, 52, 53, 54, 43, 49,
      50, 51, 48, 46, 0, 0, 0, 0]
      @ replicate 168 0)
     [0x9C := 10, 0xB5 := 47, 0xC8 := 226, 0xD0 := 227, 0xC9 := 230, 0xD1 := 231, 0xCB := 228, 0xCD := 229, 0x97 := 224, 0xCF := 225, 0xD2 := 232, 0xD3 := 233]"

definition ctlmap :: bytes where
  "ctlmap =
     ([
      0, 0, 0, 0, 0, 0, 0, 0, 0, 0, 0, 0, 0, 0, 0, 0,
      17, 23, 5, 18, 20, 25, 21, 9, 15, 16, 0, 0, 13, 0, 1, 19,
      4, 6, 7, 8, 10, 11, 12, 0, 0, 0, 0, 28, 26, 24, 3, 22,
      2, 14, 13, 0, 0, 239, 0, 0]
      @ replicate 200 0)
     [0x9C := 13, 0xB5 := 239, 0xC8 := 226, 0xD0 := 227, 0xC9 := 230, 0xD1 := 231, 0xCB := 228, 0xCD := 229, 0x97 := 224, 0xCF := 225, 0xD2 := 232, 0xD3 := 233]"

definition charcode :: "u32 \<Rightarrow> bytes" where
  "charcode i = (if i = 0 then normalmap else if i = 1 then shiftmap else ctlmap)"

text \<open>\<open>if(shift & CAPSLOCK)\<close>\<close>

definition caps :: "u32 \<Rightarrow> u32 \<Rightarrow> u32" where
  "caps shift c =
     (if shift AND CAPSLOCK \<noteq> 0 then
        if 97 \<le> c \<and> c \<le> 122 then c - 32 else if 65 \<le> c \<and> c \<le> 90 then c + 32 else c
      else c)"

text \<open>\<open>kbdgetc\<close> when the controller has the byte \<open>data\<close>: the value returned and the new \<open>shift\<close>.\<close>

definition kbdgetc :: "u32 \<Rightarrow> u8 \<Rightarrow> int \<times> u32" where
  "kbdgetc shift data =
     (if data = 0xE0 then (0, shift OR E0ESC)
      else if data AND 0x80 \<noteq> 0 then
        (let data = (if shift AND E0ESC \<noteq> 0 then data else data AND 0x7F)
         in (0, shift AND NOT (shiftcode data OR E0ESC)))
      else
        (let (data, shift) = (if shift AND E0ESC \<noteq> 0 then (data OR 0x80, shift AND NOT E0ESC) else (data, shift));
             shift = shift OR shiftcode data;
             shift = shift XOR togglecode data;
             c = ucast (charcode (shift AND (CTL OR SHIFT)) ! unat data)
         in (sint (caps shift c), shift)))"

text \<open>\<open>kbdintr\<close>: the characters that \<open>consoleintr\<close> gets from the scan codes waiting in the controller.\<close>

fun kbd_chars :: "u32 \<Rightarrow> bytes \<Rightarrow> int list \<times> u32" where
  "kbd_chars shift [] = ([], shift)"
| "kbd_chars shift (d # ds) =
     (let (c, shift) = kbdgetc shift d; (cs, shift) = kbd_chars shift ds in (c # cs, shift))"

section \<open>Properties\<close>

text \<open>The scan codes of the letter keys.\<close>

definition letter_keys :: "(u8 \<times> u32) list" where
  "letter_keys =
     [(16, 113), (17, 119), (18, 101), (19, 114), (20, 116), (21, 121), (22, 117), (23, 105), (24, 111), (25, 112), (30, 97), (31, 115), (32, 100), (33, 102), (34, 103), (35, 104), (36, 106), (37, 107), (38, 108), (44, 122), (45, 120), (46, 99), (47, 118), (48, 98), (49, 110), (50, 109)]"

lemma letter_tables:
  "list_all (\<lambda>(k, c). ucast (normalmap ! unat k) = c \<and> ucast (shiftmap ! unat k) = c - 32 \<and> shiftcode k = 0 \<and>
     togglecode k = 0 \<and> k \<noteq> 0xE0 \<and> k AND 0x80 = 0 \<and> 97 \<le> c \<and> c \<le> 122) letter_keys"
  by (simp add: letter_keys_def normalmap_def shiftmap_def shiftcode_def togglecode_def)

lemma and_SHIFT: "shift AND SHIFT = 0 \<or> shift AND SHIFT = 1"
  unfolding SHIFT_def and_one_eq by (cases "even shift") (simp_all add: even_iff_mod_2_eq_zero odd_iff_mod_2_eq_one)

text \<open>C37: A letter key gives its letter: without the control key and outside an escape sequence it gives
  the lower-case letter, or the upper-case one when exactly one of the shift key and caps lock is
  active, and it leaves the state of the shift keys alone.\<close>

theorem kbd_letters:
  assumes "(k, c) \<in> set letter_keys" and "shift AND CTL = 0" and "shift AND E0ESC = 0"
  shows "kbdgetc shift k = (sint (if (shift AND SHIFT \<noteq> 0) \<noteq> (shift AND CAPSLOCK \<noteq> 0) then c - 32 else c), shift)"
proof -
  have k: "ucast (normalmap ! unat k) = c" "ucast (shiftmap ! unat k) = c - 32" "shiftcode k = 0" "togglecode k = 0"
    "k \<noteq> 0xE0" "k AND 0x80 = 0" "97 \<le> c" "c \<le> 122"
    using letter_tables assms(1) by (auto simp: list_all_iff)
  have i: "shift AND (CTL OR SHIFT) = shift AND SHIFT" using assms(2) by (simp add: bit.conj_disj_distrib)
  have "ucast (charcode (shift AND SHIFT) ! unat k) = (if shift AND SHIFT = 0 then c else c - 32)"
    using and_SHIFT [of shift] k(1,2) by (auto simp: charcode_def)
  moreover have "65 \<le> c - 32" "c - 32 \<le> 90" "\<not> 97 \<le> c - 32"
    using k(7,8) by (simp_all add: word_le_nat_alt unat_sub_if_size)
  ultimately show ?thesis using k i assms(3) by (simp add: kbdgetc_def caps_def)
qed

theorem kbd_letters_witness:
  "(30, 97) \<in> set letter_keys \<and> kbdgetc (SHIFT OR CAPSLOCK) 30 = (97, SHIFT OR CAPSLOCK) \<and> kbdgetc SHIFT 30 = (65, SHIFT)"
  using kbd_letters [of 30 97 "SHIFT OR CAPSLOCK"] kbd_letters [of 30 97 SHIFT]
  by (simp add: letter_keys_def SHIFT_def CAPSLOCK_def CTL_def E0ESC_def)

end
