(* ===== verification/Spinlock.thy ===== *)
theory Spinlock
  imports Proc_Table
begin

text \<open>
  Spin-locks and the nesting of interrupt disabling (\<^verbatim>\<open>src/xv6/spinlock.c\<close>, and \<open>mycpu\<close>, \<open>sched\<close> of
  \<^verbatim>\<open>src/xv6/proc.c\<close>) on a machine with several CPUs.  A CPU is known by its local APIC identifier
  \<open>a\<close>, which the hardware supplies; \<open>iflag\<close> is the interrupt flag of its \<open>%eflags\<close>.  A lock is an
  address; a \<open>struct spinlock\<close> is aligned to words, so the address is given without its two low bits.
  \<open>acquire\<close> and \<open>release\<close> are split into their atomic memory operations, so that CPUs can
  interleave between them, and \<open>pushcli\<close> is split where a process can still be moved to another CPU.
\<close>

section \<open>Definitions\<close>

type_synonym lockaddr = "30 word"

record cpu =
  apicid :: u32
  ncli :: int
  intena :: bool

record spinlock =
  sp_locked :: bool
  sp_cpu :: "nat option"

record mp =
  cpus :: "cpu list"
  iflag :: "u32 \<Rightarrow> bool"
  locks :: "lockaddr \<Rightarrow> spinlock"

definition mycpu :: "u32 \<Rightarrow> 'a mp_scheme \<Rightarrow> nat outcome" where
  "mycpu a s =
     (if iflag s a then Panic ''mycpu called with interrupts enabled''
      else
        (case scan (\<lambda>c. apicid c = a) (cpus s) of
           None \<Rightarrow> Panic ''unknown apicid''
         | Some i \<Rightarrow> Ret i))"

definition upd_cpu :: "nat \<Rightarrow> (cpu \<Rightarrow> cpu) \<Rightarrow> 'a mp_scheme \<Rightarrow> 'a mp_scheme" where
  "upd_cpu i f s = s\<lparr>cpus := (cpus s)[i := f (cpus s ! i)]\<rparr>"

definition upd_lock :: "lockaddr \<Rightarrow> (spinlock \<Rightarrow> spinlock) \<Rightarrow> 'a mp_scheme \<Rightarrow> 'a mp_scheme" where
  "upd_lock l f s = s\<lparr>locks := (locks s)(l := f (locks s l))\<rparr>"

definition set_iflag :: "u32 \<Rightarrow> bool \<Rightarrow> 'a mp_scheme \<Rightarrow> 'a mp_scheme" where
  "set_iflag a b s = s\<lparr>iflag := (iflag s)(a := b)\<rparr>"

definition initlock :: spinlock where
  "initlock = \<lparr>sp_locked = False, sp_cpu = None\<rparr>"

text \<open>\<open>pushcli\<close> from its \<open>cli()\<close> on, with the interrupt flag in \<open>eflags\<close> that \<open>readeflags()\<close> has given.  When
  interrupts are on, the process can be preempted between the two and go on on another CPU, so \<open>eflags\<close> need not
  be the flag of CPU \<open>a\<close>; \<open>pushcli\<close> is the call that is not preempted there.\<close>

definition pushcli_cli :: "u32 \<Rightarrow> bool \<Rightarrow> 'a mp_scheme \<Rightarrow> 'a mp_scheme outcome" where
  "pushcli_cli a eflags s =
     (let s = set_iflag a False s
      in bnd (mycpu a s) (\<lambda>i.
           let s = (if ncli (cpus s ! i) = 0 then upd_cpu i (\<lambda>c. c\<lparr>intena := eflags\<rparr>) s else s)
           in Ret (upd_cpu i (\<lambda>c. c\<lparr>ncli := wrap32 (ncli c + 1)\<rparr>) s)))"

definition pushcli :: "u32 \<Rightarrow> 'a mp_scheme \<Rightarrow> 'a mp_scheme outcome" where
  "pushcli a s = (let eflags = iflag s a in pushcli_cli a eflags s)"

definition popcli :: "u32 \<Rightarrow> 'a mp_scheme \<Rightarrow> 'a mp_scheme outcome" where
  "popcli a s =
     (if iflag s a then Panic ''popcli - interruptible''
      else
        bnd (mycpu a s) (\<lambda>i.
          let s = upd_cpu i (\<lambda>c. c\<lparr>ncli := wrap32 (ncli c - 1)\<rparr>) s
          in if ncli (cpus s ! i) < 0 then Panic ''popcli''
             else if ncli (cpus s ! i) = 0 \<and> intena (cpus s ! i) then Ret (set_iflag a True s)
             else Ret s))"

text \<open>The two fields of the lock are read in one step.  This makes no difference to the result: only CPU \<open>a\<close>
  itself stores its own number in \<open>cpu\<close>, and it clears it before it frees the lock.\<close>

definition holding :: "u32 \<Rightarrow> lockaddr \<Rightarrow> 'a mp_scheme \<Rightarrow> (bool \<times> 'a mp_scheme) outcome" where
  "holding a l s =
     bnd (pushcli a s) (\<lambda>s.
     bnd (mycpu a s) (\<lambda>i.
       let r = sp_locked (locks s l) \<and> sp_cpu (locks s l) = Some i
       in bnd (popcli a s) (\<lambda>s. Ret (r, s))))"

text \<open>\<open>acquire\<close>: from the \<open>cli()\<close> of its \<open>pushcli\<close> up to the loop; one \<open>xchg\<close>, which tells whether the lock was free; the rest.\<close>

definition acquire_enter :: "u32 \<Rightarrow> bool \<Rightarrow> lockaddr \<Rightarrow> 'a mp_scheme \<Rightarrow> 'a mp_scheme outcome" where
  "acquire_enter a eflags l s =
     bnd (pushcli_cli a eflags s) (\<lambda>s. bnd (holding a l s) (\<lambda>(h, s). if h then Panic ''acquire'' else Ret s))"

definition acquire_xchg :: "lockaddr \<Rightarrow> 'a mp_scheme \<Rightarrow> bool \<times> 'a mp_scheme" where
  "acquire_xchg l s = (\<not> sp_locked (locks s l), upd_lock l (\<lambda>k. k\<lparr>sp_locked := True\<rparr>) s)"

definition acquire_owner :: "u32 \<Rightarrow> lockaddr \<Rightarrow> 'a mp_scheme \<Rightarrow> 'a mp_scheme outcome" where
  "acquire_owner a l s = bnd (mycpu a s) (\<lambda>i. Ret (upd_lock l (\<lambda>k. k\<lparr>sp_cpu := Some i\<rparr>) s))"

text \<open>\<open>release\<close>: the check and \<open>lk->cpu = 0\<close>; the store that frees the lock; \<open>popcli\<close>.\<close>

definition release_enter :: "u32 \<Rightarrow> lockaddr \<Rightarrow> 'a mp_scheme \<Rightarrow> 'a mp_scheme outcome" where
  "release_enter a l s =
     bnd (holding a l s) (\<lambda>(h, s).
       if \<not> h then Panic ''release'' else Ret (upd_lock l (\<lambda>k. k\<lparr>sp_cpu := None\<rparr>) s))"

definition release_store :: "lockaddr \<Rightarrow> 'a mp_scheme \<Rightarrow> 'a mp_scheme" where
  "release_store l s = upd_lock l (\<lambda>k. k\<lparr>sp_locked := False\<rparr>) s"

text \<open>The checks of \<open>sched\<close> before it switches, for a process in state \<open>st\<close>.\<close>

definition sched_check :: "u32 \<Rightarrow> lockaddr \<Rightarrow> procstate \<Rightarrow> 'a mp_scheme \<Rightarrow> 'a mp_scheme outcome" where
  "sched_check a ptable_lock st s =
     bnd (holding a ptable_lock s) (\<lambda>(h, s).
       if \<not> h then Panic ''sched ptable.lock''
       else
         bnd (mycpu a s) (\<lambda>i.
           if ncli (cpus s ! i) \<noteq> 1 then Panic ''sched locks''
           else if st = RUNNING then Panic ''sched running''
           else if iflag s a then Panic ''sched interruptible''
           else Ret s))"

text \<open>\<open>getcallerpcs\<close>: follow the saved \<open>%ebp\<close> from the frame of the caller, at most ten times.\<close>

fun pcs_loop :: "nat \<Rightarrow> u32 \<Rightarrow> memory \<Rightarrow> u32 list" where
  "pcs_loop 0 ebp m = []"
| "pcs_loop (Suc n) ebp m =
     (if ebp = 0 \<or> ebp < KERNBASE \<or> ebp = 0xffffffff then replicate (Suc n) 0
      else load32 m (ebp + 4) # pcs_loop n (load32 m ebp) m)"

definition getcallerpcs :: "u32 \<Rightarrow> memory \<Rightarrow> u32 list" where
  "getcallerpcs v m = pcs_loop 10 (v - 8) m"

section \<open>Nesting\<close>

lemma upd_cpu_simps [simp]:
  "cpus (upd_cpu i f s) = (cpus s)[i := f (cpus s ! i)]" "iflag (upd_cpu i f s) = iflag s" "locks (upd_cpu i f s) = locks s"
  by (simp_all add: upd_cpu_def)

lemma set_iflag_simps [simp]:
  "cpus (set_iflag a b s) = cpus s" "iflag (set_iflag a b s) = (iflag s)(a := b)" "locks (set_iflag a b s) = locks s"
  by (simp_all add: set_iflag_def)

lemma upd_lock_simps [simp]:
  "cpus (upd_lock l f s) = cpus s" "iflag (upd_lock l f s) = iflag s" "locks (upd_lock l f s) = (locks s)(l := f (locks s l))"
  by (simp_all add: upd_lock_def)

text \<open>A CPU of the table whose interrupts are off while it is inside a \<open>pushcli\<close>.\<close>

definition cpu_ok :: "u32 \<Rightarrow> nat \<Rightarrow> 'a mp_scheme \<Rightarrow> bool" where
  "cpu_ok a i s \<longleftrightarrow>
     scan (\<lambda>c. apicid c = a) (cpus s) = Some i \<and> 0 \<le> ncli (cpus s ! i) \<and> ncli (cpus s ! i) < 2 ^ 31 \<and>
     (0 < ncli (cpus s ! i) \<longrightarrow> \<not> iflag s a)"

text \<open>The state after a matched pair, but for the interrupt flag: only \<open>intena\<close> of an outermost pair has changed.\<close>

definition settle :: "bool \<Rightarrow> nat \<Rightarrow> 'a mp_scheme \<Rightarrow> 'a mp_scheme" where
  "settle e i s = upd_cpu i (\<lambda>c. c\<lparr>intena := (if ncli c = 0 then e else intena c)\<rparr>) s"

lemma map_upd_same: "g c = g (cs ! j) \<Longrightarrow> map g (cs[j := c]) = map g cs"
  by (induction cs arbitrary: j) (auto split: nat.splits)

lemma scan_upd_same:
  assumes "apicid c = apicid (cs ! j)"
  shows "scan (\<lambda>c. apicid c = b) (cs[j := c]) = scan (\<lambda>c. apicid c = b) cs"
proof -
  have "scan (\<lambda>c. apicid c = b) xs = scan (\<lambda>x. x = b) (map apicid xs)" for xs by (induction xs) auto
  with map_upd_same [of apicid c cs j, OF assms] show ?thesis by metis
qed

lemma pushcli_eq:
  assumes "scan (\<lambda>c. apicid c = a) (cpus s) = Some i"
  shows "pushcli_cli a e s = Ret (upd_cpu i (\<lambda>c. c\<lparr>ncli := wrap32 (ncli c + 1)\<rparr>) (set_iflag a False (settle e i s)))"
proof -
  have "i < length (cpus s)" using assms by (rule scan_SomeD)
  with assms show ?thesis
    by (cases s) (auto simp: pushcli_cli_def mycpu_def Let_def settle_def upd_cpu_def set_iflag_def)
qed

lemma popcli_eq:
  assumes "scan (\<lambda>c. apicid c = a) (cpus s) = Some i" "\<not> iflag s a" "0 < ncli (cpus s ! i)" "ncli (cpus s ! i) < 2 ^ 31"
  shows "popcli a s =
    Ret (set_iflag a (ncli (cpus s ! i) = 1 \<and> intena (cpus s ! i)) (upd_cpu i (\<lambda>c. c\<lparr>ncli := ncli c - 1\<rparr>) s))"
proof -
  have "i < length (cpus s)" using assms(1) by (rule scan_SomeD)
  with assms show ?thesis
    by (cases s) (auto simp: popcli_def mycpu_def Let_def upd_cpu_def set_iflag_def fun_eq_iff)
qed

text \<open>
  What a step of CPU \<open>a\<close>, the \<open>i\<close>-th of the table, does to the machine when it only nests \<open>d\<close> deeper.
\<close>

definition idx :: "'a mp_scheme \<Rightarrow> u32 \<Rightarrow> nat option" where
  "idx s a = scan (\<lambda>c. apicid c = a) (cpus s)"

definition nests :: "u32 \<Rightarrow> nat \<Rightarrow> int \<Rightarrow> 'a mp_scheme \<Rightarrow> 'a mp_scheme \<Rightarrow> bool" where
  "nests a i d s s' \<longleftrightarrow>
     idx s' = idx s \<and> (\<forall>j. ncli (cpus s' ! j) = ncli (cpus s ! j) + (if j = i then d else 0)) \<and>
     locks s' = locks s \<and> (\<forall>b. b \<noteq> a \<longrightarrow> iflag s' b = iflag s b) \<and>
     (0 < ncli (cpus s' ! i) \<longrightarrow> \<not> iflag s' a) \<and> mp.more s' = mp.more s"

lemma idx_inj: "idx s a = Some i \<Longrightarrow> idx s b = Some i \<Longrightarrow> a = b"
  unfolding idx_def by (drule scan_SomeD(2))+ simp

lemma cpu_ok_idx: "cpu_ok a i s \<longleftrightarrow> idx s a = Some i \<and> 0 \<le> ncli (cpus s ! i) \<and> ncli (cpus s ! i) < 2 ^ 31 \<and> (0 < ncli (cpus s ! i) \<longrightarrow> \<not> iflag s a)"
  by (simp add: cpu_ok_def idx_def)

lemma nests_trans: "nests a i d s s' \<Longrightarrow> nests a i e s' s'' \<Longrightarrow> nests a i (d + e) s s''"
  by (auto simp: nests_def)

lemma pushcli_nests:
  assumes "cpu_ok a i s" "ncli (cpus s ! i) + 1 < 2 ^ 31"
  shows "\<exists>s'. pushcli_cli a e s = Ret s' \<and> nests a i 1 s s' \<and> \<not> iflag s' a \<and> cpu_ok a i s' \<and>
    (ncli (cpus s ! i) = 0 \<longrightarrow> intena (cpus s' ! i) = e)"
proof -
  have i: "i < length (cpus s)" "scan (\<lambda>c. apicid c = a) (cpus s) = Some i" using assms scan_SomeD(1) by (auto simp: cpu_ok_def)
  then show ?thesis
    unfolding pushcli_eq [OF i(2)] nests_def idx_def fun_eq_iff cpu_ok_def using assms(2) assms(1) [unfolded cpu_ok_def]
    by (auto simp: settle_def scan_upd_same nth_list_update upd_cpu_def set_iflag_def)
qed

lemma popcli_nests:
  assumes "cpu_ok a i s" "0 < ncli (cpus s ! i)"
  shows "\<exists>s'. popcli a s = Ret s' \<and> nests a i (- 1) s s' \<and> cpu_ok a i s' \<and> (ncli (cpus s ! i) = 1 \<longrightarrow> iflag s' a = intena (cpus s ! i))"
proof -
  have i: "i < length (cpus s)" "scan (\<lambda>c. apicid c = a) (cpus s) = Some i" "\<not> iflag s a" "ncli (cpus s ! i) < 2 ^ 31"
    using assms scan_SomeD(1) by (auto simp: cpu_ok_def)
  then show ?thesis
    unfolding popcli_eq [OF i(2,3) assms(2) i(4)] nests_def idx_def fun_eq_iff cpu_ok_def using assms(2)
    by (auto simp: scan_upd_same nth_list_update upd_cpu_def set_iflag_def)
qed

lemma nests_ok: "cpu_ok a i s \<Longrightarrow> nests a i d s s' \<Longrightarrow> 0 \<le> ncli (cpus s ! i) + d \<Longrightarrow> ncli (cpus s ! i) + d < 2 ^ 31 \<Longrightarrow> cpu_ok a i s'"
  by (auto simp: nests_def cpu_ok_idx)

lemma mycpu_idx: "\<not> iflag s a \<Longrightarrow> idx s a = Some i \<Longrightarrow> mycpu a s = Ret i"
  by (simp add: mycpu_def idx_def)

text \<open>A matched pair gives back the interrupt flag that \<open>pushcli\<close> has read, or that the CPU had when it is nested.\<close>

lemma push_pop:
  assumes "cpu_ok a i s" "ncli (cpus s ! i) + 1 < 2 ^ 31"
  shows "\<exists>s'. pushcli_cli a e s = Ret s' \<and> nests a i 1 s s' \<and> \<not> iflag s' a \<and> cpu_ok a i s' \<and>
    popcli a s' = Ret (set_iflag a (if ncli (cpus s ! i) = 0 then e else iflag s a) (settle e i s))"
proof -
  have i: "scan (\<lambda>c. apicid c = a) (cpus s) = Some i" using assms(1) by (simp add: cpu_ok_def)
  obtain s' where s': "pushcli_cli a e s = Ret s'" "nests a i 1 s s'" "\<not> iflag s' a" "cpu_ok a i s'"
    using pushcli_nests [OF assms] by blast
  have eq: "s' = upd_cpu i (\<lambda>c. c\<lparr>ncli := wrap32 (ncli c + 1)\<rparr>) (set_iflag a False (settle e i s))"
    using s'(1) unfolding pushcli_eq [OF i] by simp
  have n: "ncli (cpus s' ! i) = ncli (cpus s ! i) + 1" using s'(2) by (simp add: nests_def)
  have len: "i < length (cpus s)" using scan_SomeD(1) [OF i] .
  have ok: "0 \<le> ncli (cpus s ! i)" "0 < ncli (cpus s ! i) \<longrightarrow> \<not> iflag s a" using assms(1) by (auto simp: cpu_ok_def)
  have "popcli a s' = Ret (set_iflag a (ncli (cpus s' ! i) = 1 \<and> intena (cpus s' ! i)) (upd_cpu i (\<lambda>c. c\<lparr>ncli := ncli c - 1\<rparr>) s'))"
    by (rule popcli_eq) (use s'(3,4) n ok assms(2) in \<open>simp_all add: cpu_ok_def\<close>)
  also have "\<dots> = Ret (set_iflag a (if ncli (cpus s ! i) = 0 then e else iflag s a) (settle e i s))"
    using len ok assms(2) by (cases s) (auto simp: eq settle_def upd_cpu_def set_iflag_def)
  finally show ?thesis using s' by blast
qed

lemma settle_nests:
  assumes "cpu_ok a i s"
  shows "nests a i 0 s (set_iflag a (if ncli (cpus s ! i) = 0 then e else iflag s a) (settle e i s))"
proof -
  have "i < length (cpus s)" using assms scan_SomeD(1) by (auto simp: cpu_ok_def)
  then show ?thesis using assms
    by (auto simp: nests_def settle_def idx_def fun_eq_iff scan_upd_same cpu_ok_def nth_list_update set_iflag_def upd_cpu_def)
qed

lemma holding_eq:
  assumes "cpu_ok a i s" "ncli (cpus s ! i) + 1 < 2 ^ 31"
  shows "\<exists>s'. holding a l s = Ret (sp_locked (locks s l) \<and> sp_cpu (locks s l) = Some i, s') \<and> nests a i 0 s s' \<and> iflag s' a = iflag s a"
proof -
  obtain s' where s: "pushcli_cli a (iflag s a) s = Ret s'" "nests a i 1 s s'" "\<not> iflag s' a"
    "popcli a s' = Ret (set_iflag a (if ncli (cpus s ! i) = 0 then iflag s a else iflag s a) (settle (iflag s a) i s))"
    using push_pop [OF assms] by blast
  have "mycpu a s' = Ret i" using mycpu_idx [OF s(3)] s(2) assms by (simp add: nests_def cpu_ok_idx)
  with s settle_nests [OF assms(1), of "iflag s a"] show ?thesis by (auto simp: holding_def pushcli_def nests_def)
qed

lemma acquire_enter_eq:
  assumes "cpu_ok a i s" "ncli (cpus s ! i) + 2 < 2 ^ 31"
  shows "\<exists>s'. acquire_enter a e l s =
    (if sp_locked (locks s l) \<and> sp_cpu (locks s l) = Some i then Panic ''acquire'' else Ret s') \<and> nests a i 1 s s' \<and> \<not> iflag s' a"
proof -
  obtain s' where s': "pushcli_cli a e s = Ret s'" "nests a i 1 s s'" "\<not> iflag s' a" "cpu_ok a i s'"
    using pushcli_nests [OF assms(1), of e] assms(2) by auto
  have "ncli (cpus s' ! i) + 1 < 2 ^ 31" using s'(2) assms(2) by (simp add: nests_def)
  then obtain s'' where "holding a l s' = Ret (sp_locked (locks s' l) \<and> sp_cpu (locks s' l) = Some i, s'')" "nests a i 0 s' s''" "iflag s'' a = iflag s' a"
    using holding_eq [OF s'(4)] by blast
  then show ?thesis using s' nests_trans [OF s'(2), of 0 s''] by (auto simp: acquire_enter_def nests_def)
qed

lemma release_enter_eq:
  assumes "cpu_ok a i s" "ncli (cpus s ! i) + 1 < 2 ^ 31"
  shows "\<exists>s'. release_enter a l s =
    (if sp_locked (locks s l) \<and> sp_cpu (locks s l) = Some i then Ret (upd_lock l (\<lambda>k. k\<lparr>sp_cpu := None\<rparr>) s') else Panic ''release'')
    \<and> nests a i 0 s s'"
  using holding_eq [OF assms, of l] by (auto simp: release_enter_def)

section \<open>Interleaved CPUs\<close>

text \<open>
  Where each CPU is in \<open>acquire\<close> or \<open>release\<close>, and which locks it has acquired and not begun to
  release.  Every constructor of \<open>spin_step\<close> is one atomic piece of the two functions, run by any CPU;
  \<open>irq\<close> is a \<open>cli\<close> or \<open>sti\<close> outside every critical section, as in \<open>scheduler\<close> and in user mode.
\<close>

datatype phase = Running | Spinning lockaddr | Taken lockaddr | Leaving lockaddr | Popping

record spinsys = mp +
  phase :: "u32 \<Rightarrow> phase"
  held :: "u32 \<Rightarrow> lockaddr list"

definition move :: "u32 \<Rightarrow> phase \<Rightarrow> lockaddr list \<Rightarrow> spinsys \<Rightarrow> spinsys" where
  "move a p h s = s\<lparr>phase := (phase s)(a := p), held := (held s)(a := h)\<rparr>"

inductive spin_step :: "spinsys \<Rightarrow> spinsys \<Rightarrow> bool" where
  enter: "phase s a = Running \<Longrightarrow> acquire_enter a e l s = Ret s' \<Longrightarrow> spin_step s (move a (Spinning l) (held s a) s')"
| spin: "phase s a = Spinning l \<Longrightarrow> acquire_xchg l s = (False, s') \<Longrightarrow> spin_step s s'"
| take: "phase s a = Spinning l \<Longrightarrow> acquire_xchg l s = (True, s') \<Longrightarrow> spin_step s (move a (Taken l) (held s a) s')"
| own: "phase s a = Taken l \<Longrightarrow> acquire_owner a l s = Ret s' \<Longrightarrow> spin_step s (move a Running (l # held s a) s')"
| leave: "phase s a = Running \<Longrightarrow> release_enter a l s = Ret s' \<Longrightarrow>
    spin_step s (move a (Leaving l) (remove1 l (held s a)) s')"
| free: "phase s a = Leaving l \<Longrightarrow> spin_step s (move a Popping (held s a) (release_store l s))"
| pop: "phase s a = Popping \<Longrightarrow> popcli a s = Ret s' \<Longrightarrow> spin_step s (move a Running (held s a) s')"
| irq: "phase s a = Running \<Longrightarrow> idx s a = Some i \<Longrightarrow> ncli (cpus s ! i) = 0 \<Longrightarrow> spin_step s (set_iflag a b s)"

definition spin_start :: "spinsys \<Rightarrow> bool" where
  "spin_start s \<longleftrightarrow> (\<forall>c \<in> set (cpus s). ncli c = 0) \<and> locks s = (\<lambda>_. initlock) \<and> phase s = (\<lambda>_. Running) \<and> held s = (\<lambda>_. [])"

inductive spin_reach :: "spinsys \<Rightarrow> bool" where
  boot: "spin_start s \<Longrightarrow> spin_reach s"
| step: "spin_reach s \<Longrightarrow> spin_step s s' \<Longrightarrow> spin_reach s'"

definition owns :: "spinsys \<Rightarrow> u32 \<Rightarrow> lockaddr \<Rightarrow> bool" where
  "owns s a l \<longleftrightarrow> l \<in> set (held s a) \<or> phase s a = Taken l \<or> phase s a = Leaving l"

definition busy :: "phase \<Rightarrow> int" where
  "busy p = (if p = Running then 0 else 1)"

definition spin_inv :: "spinsys \<Rightarrow> bool" where
  "spin_inv s \<longleftrightarrow>
     (\<forall>a. idx s a = None \<longrightarrow> phase s a = Running \<and> held s a = []) \<and>
     (\<forall>a i. idx s a = Some i \<longrightarrow> ncli (cpus s ! i) = int (length (held s a)) + busy (phase s a) \<and> (0 < ncli (cpus s ! i) \<longrightarrow> \<not> iflag s a)) \<and>
     (\<forall>a. distinct (held s a) \<and> (\<forall>l. phase s a = Taken l \<or> phase s a = Leaving l \<longrightarrow> l \<notin> set (held s a))) \<and>
     (\<forall>l. sp_locked (locks s l) \<longleftrightarrow> (\<exists>a. owns s a l)) \<and>
     (\<forall>l a b. a \<noteq> b \<longrightarrow> owns s a l \<longrightarrow> \<not> owns s b l) \<and>
     (\<forall>l a i. idx s a = Some i \<longrightarrow> (sp_cpu (locks s l) = Some i \<longleftrightarrow> l \<in> set (held s a)))"

lemma spin_invD:
  assumes "spin_inv s"
  shows "idx s a = None \<Longrightarrow> phase s a = Running \<and> held s a = []"
    "idx s a = Some i \<Longrightarrow> ncli (cpus s ! i) = int (length (held s a)) + busy (phase s a)"
    "idx s a = Some i \<Longrightarrow> 0 < ncli (cpus s ! i) \<Longrightarrow> \<not> iflag s a"
    "distinct (held s a)"
    "phase s a = Taken l \<or> phase s a = Leaving l \<Longrightarrow> l \<notin> set (held s a)"
    "sp_locked (locks s l) \<longleftrightarrow> (\<exists>a. owns s a l)"
    "a \<noteq> b \<Longrightarrow> owns s a l \<Longrightarrow> \<not> owns s b l"
    "idx s a = Some i \<Longrightarrow> sp_cpu (locks s l) = Some i \<longleftrightarrow> l \<in> set (held s a)"
  using assms unfolding spin_inv_def by (elim conjE; blast)+

lemma spin_invI:
  assumes "\<And>a. idx s a = None \<Longrightarrow> phase s a = Running \<and> held s a = []"
    and "\<And>a i. idx s a = Some i \<Longrightarrow> ncli (cpus s ! i) = int (length (held s a)) + busy (phase s a)"
    and "\<And>a i. idx s a = Some i \<Longrightarrow> 0 < ncli (cpus s ! i) \<Longrightarrow> \<not> iflag s a"
    and "\<And>a. distinct (held s a)"
    and "\<And>a l. phase s a = Taken l \<or> phase s a = Leaving l \<Longrightarrow> l \<notin> set (held s a)"
    and "\<And>l. sp_locked (locks s l) \<longleftrightarrow> (\<exists>a. owns s a l)"
    and "\<And>a b l. a \<noteq> b \<Longrightarrow> owns s a l \<Longrightarrow> \<not> owns s b l"
    and "\<And>a i l. idx s a = Some i \<Longrightarrow> sp_cpu (locks s l) = Some i \<longleftrightarrow> l \<in> set (held s a)"
  shows "spin_inv s"
  unfolding spin_inv_def by (intro conjI allI impI; (rule assms; assumption)?) (use assms in blast)+

lemma busy_simps [simp]: "busy Running = 0" "busy (Spinning l) = 1" "busy (Taken l) = 1" "busy (Leaving l) = 1" "busy Popping = 1"
  by (simp_all add: busy_def)

lemma busy_nonneg: "0 \<le> busy p"
  by (simp add: busy_def)

text \<open>There are fewer locks than an \<open>int\<close> counts, so the depth of nesting does not overflow.\<close>

lemma held_bound: "distinct (h :: lockaddr list) \<Longrightarrow> length h \<le> 2 ^ 30"
  using card_mono [of "UNIV :: lockaddr set" "set h"] by (simp add: distinct_card card_word)

lemma spin_inv_cpu_ok:
  assumes "spin_inv s" "idx s a = Some i"
  shows "cpu_ok a i s" "ncli (cpus s ! i) + 2 < 2 ^ 31" "ncli (cpus s ! i) + 1 < 2 ^ 31"
proof -
  have "int (length (held s a)) \<le> 2 ^ 30" using held_bound [OF spin_invD(4) [OF assms(1), of a]] by simp
  moreover have "busy (phase s a) \<le> 1" by (simp add: busy_def)
  ultimately have b: "ncli (cpus s ! i) \<le> 2 ^ 30 + 1" using spin_invD(2) [OF assms] by simp
  then show "ncli (cpus s ! i) + 2 < 2 ^ 31" "ncli (cpus s ! i) + 1 < 2 ^ 31" by simp_all
  show "cpu_ok a i s" using b assms spin_invD(2,3) [OF assms] by (simp add: cpu_ok_idx busy_nonneg)
qed

lemma move_simps [simp]:
  "cpus (move a p h s) = cpus s" "iflag (move a p h s) = iflag s" "locks (move a p h s) = locks s" "idx (move a p h s) = idx s"
  "phase (move a p h s) = (phase s)(a := p)" "held (move a p h s) = (held s)(a := h)"
  by (simp_all add: move_def idx_def fun_eq_iff)

lemma owns_move: "owns (move a p h s) b l \<longleftrightarrow> (if b = a then l \<in> set h \<or> p = Taken l \<or> p = Leaving l else owns s b l)"
  by (simp add: owns_def)

lemma owns_upd [simp]:
  "owns (upd_lock k f s) a l = owns s a l" "idx (upd_lock k f s) = idx s"
  "phase (upd_lock k f s) = phase s" "held (upd_lock k f s) = held s"
  by (simp_all add: owns_def upd_lock_def idx_def fun_eq_iff)

text \<open>Steps of a CPU not in the table are panics; those of the others keep the invariant.\<close>

lemma not_running_idx: "spin_inv s \<Longrightarrow> phase s a \<noteq> Running \<Longrightarrow> \<exists>i. idx s a = Some i"
  using spin_invD(1) by (cases "idx s a") auto

lemma enter_idx: "acquire_enter a e l s = Ret s' \<Longrightarrow> \<exists>i. idx s a = Some i"
  by (cases "idx s a") (auto simp: acquire_enter_def pushcli_cli_def mycpu_def idx_def Let_def)

lemma release_idx: "release_enter a l s = Ret s' \<Longrightarrow> \<exists>i. idx s a = Some i"
  by (cases "idx s a") (auto simp: release_enter_def holding_def pushcli_def pushcli_cli_def mycpu_def idx_def Let_def)

lemma nests_sys:
  fixes s :: spinsys
  assumes "nests a i d s s'"
  shows "phase s' = phase s" "held s' = held s" "idx s' = idx s" "locks s' = locks s" "owns s' b l = owns s b l"
  using assms by (cases s; cases s'; auto simp: nests_def owns_def)+

lemma inv_nest:
  assumes "spin_inv s" "idx s a = Some i" "nests a i d s s'" "busy p = busy (phase s a) + d"
    and "\<And>l. p \<noteq> Taken l \<and> p \<noteq> Leaving l" "\<And>l. phase s a \<noteq> Taken l \<and> phase s a \<noteq> Leaving l"
  shows "spin_inv (move a p (held s a) s')"
proof -
  have own: "owns (move a p (held s a) s') b l = owns s b l" for b l
    using assms(5,6) nests_sys(5) [OF assms(3)] by (auto simp: owns_move owns_def)
  have n: "ncli (cpus s' ! j) = ncli (cpus s ! j) + (if j = i then d else 0)" for j using assms(3) by (simp add: nests_def)
  have cpu: "ncli (cpus s' ! j) = int (length (held s b)) + busy (if b = a then p else phase s b) \<and> (0 < ncli (cpus s' ! j) \<longrightarrow> \<not> iflag s' b)"
    if j: "idx s b = Some j" for b j
  proof (cases "b = a")
    case True
    with j assms(2) have "j = i" by simp
    then show ?thesis using True assms(3,4) n [of j] spin_invD(2) [OF assms(1) j] by (simp add: nests_def)
  next
    case False
    then have "j \<noteq> i" using j assms(2) idx_inj by blast
    then show ?thesis using False j n [of j] spin_invD(2,3) [OF assms(1) j] assms(3) by (simp add: nests_def)
  qed
  show ?thesis
    unfolding spin_inv_def own move_simps nests_sys [OF assms(3)]
    using assms(5) spin_invD [OF assms(1)] assms(2) cpu
    by (intro conjI allI impI) (auto split: if_splits)
qed

lemma inv_lock:
  assumes "spin_inv s" "idx s a = Some i" "int (length h) + busy p = int (length (held s a)) + busy (phase s a)" "distinct h"
    and "\<And>k. p = Taken k \<or> p = Leaving k \<Longrightarrow> k \<notin> set h"
    and owned: "\<And>k. k \<noteq> l \<Longrightarrow> k \<in> set h \<or> p = Taken k \<or> p = Leaving k \<longleftrightarrow> owns s a k"
    and here: "sp_locked (f (locks s l)) \<longleftrightarrow> l \<in> set h \<or> p = Taken l \<or> p = Leaving l" "\<And>b. b \<noteq> a \<Longrightarrow> \<not> owns s b l"
    and cpu: "\<And>b j. idx s b = Some j \<Longrightarrow> sp_cpu (f (locks s l)) = Some j \<longleftrightarrow> b = a \<and> l \<in> set h"
    and rest: "\<And>k. k \<noteq> l \<Longrightarrow> k \<in> set h \<longleftrightarrow> k \<in> set (held s a)"
  shows "spin_inv (move a p h (upd_lock l f s))"
proof -
  have own: "owns (move a p h (upd_lock l f s)) b k = (if k = l then b = a \<and> sp_locked (f (locks s l)) else owns s b k)" for b k
    using owned here by (auto simp: owns_move)
  note inv = spin_invD [OF assms(1)]
  show ?thesis
  proof (rule spin_invI, unfold own move_simps owns_upd upd_lock_simps, goal_cases)
    case (1 b)
    then show ?case using inv(1) assms(2) by auto
  next
    case (2 b j)
    then show ?case using inv(2) [of b j] assms(3) by simp
  next
    case (3 b j)
    then show ?case using inv(3) by blast
  next
    case (4 b)
    then show ?case using inv(4) assms(4) by simp
  next
    case (5 b k)
    then show ?case using inv(5) [of b k] assms(5) by (auto split: if_splits)
  next
    case (6 k)
    then show ?case using inv(6) [of k] by simp
  next
    case (7 b c k)
    then show ?case using inv(7) [of b c k] by (auto split: if_splits)
  next
    case (8 b j k)
    then show ?case using inv(8) [of b j k] cpu [of b j] rest [of k] here(2) [of b] by (cases "k = l"; cases "b = a") (auto simp: owns_def)
  qed
qed

lemma step_enter:
  assumes "spin_inv s" "phase s a = Running" "acquire_enter a e l s = Ret s'"
  shows "spin_inv (move a (Spinning l) (held s a) s')"
proof -
  obtain i where i: "idx s a = Some i" using enter_idx [OF assms(3)] by blast
  have "nests a i 1 s s'" using acquire_enter_eq [OF spin_inv_cpu_ok(1,2) [OF assms(1) i], of e l] assms(3) by (auto split: if_splits)
  then show ?thesis using inv_nest [OF assms(1) i] assms(2) by simp
qed

lemma step_pop:
  assumes "spin_inv s" "phase s a = Popping" "popcli a s = Ret s'"
  shows "spin_inv (move a Running (held s a) s')"
proof -
  obtain i where i: "idx s a = Some i" using not_running_idx [OF assms(1), of a] assms(2) by auto
  have "0 < ncli (cpus s ! i)" using spin_invD(2) [OF assms(1) i] assms(2) by simp
  then have "nests a i (- 1) s s'" using popcli_nests [OF spin_inv_cpu_ok(1) [OF assms(1) i]] assms(3) by auto
  then show ?thesis using inv_nest [OF assms(1) i] assms(2) by simp
qed

lemma step_irq:
  assumes "spin_inv s" "phase s a = Running" "idx s a = Some i" "ncli (cpus s ! i) = 0"
  shows "spin_inv (set_iflag a b s)"
proof -
  have "nests a i 0 s (set_iflag a b s)" using assms(4) by (simp add: nests_def idx_def fun_eq_iff set_iflag_def)
  then have "spin_inv (move a Running (held s a) (set_iflag a b s))" using inv_nest [OF assms(1,3)] assms(2) by simp
  moreover have "move a Running (held s a) (set_iflag a b s) = set_iflag a b s"
    using assms(2) by (cases s) (auto simp: move_def set_iflag_def)
  ultimately show ?thesis by simp
qed

lemma step_take:
  assumes "spin_inv s" "phase s a = Spinning l" "acquire_xchg l s = (True, s')"
  shows "spin_inv (move a (Taken l) (held s a) s')"
proof -
  obtain i where i: "idx s a = Some i" using not_running_idx [OF assms(1), of a] assms(2) by auto
  have free: "\<not> owns s b l" for b using assms(3) spin_invD(6) [OF assms(1), of l] by (auto simp: acquire_xchg_def)
  have "spin_inv (move a (Taken l) (held s a) (upd_lock l (\<lambda>k. k\<lparr>sp_locked := True\<rparr>) s))"
    using assms(2) free [of a] free spin_invD(4) [OF assms(1)] spin_invD(8) [OF assms(1), of _ _ l]
    by (intro inv_lock [OF assms(1) i]) (auto simp: owns_def)
  then show ?thesis using assms(3) by (simp add: acquire_xchg_def)
qed

lemma step_spin:
  assumes "spin_inv s" "acquire_xchg l s = (False, s')"
  shows "s' = s"
  using assms(2) by (cases s) (auto simp: acquire_xchg_def upd_lock_def fun_eq_iff)

lemma step_own:
  assumes "spin_inv s" "phase s a = Taken l" "acquire_owner a l s = Ret s'"
  shows "spin_inv (move a Running (l # held s a) s')"
proof -
  obtain i where i: "idx s a = Some i" using not_running_idx [OF assms(1), of a] assms(2) by auto
  have "\<not> iflag s a" using spin_invD(2,3) [OF assms(1) i] assms(2) by simp
  then have s': "s' = upd_lock l (\<lambda>k. k\<lparr>sp_cpu := Some i\<rparr>) s" using assms(3) mycpu_idx [OF _ i] by (simp add: acquire_owner_def)
  have mine: "owns s a l" using assms(2) by (simp add: owns_def)
  have inj: "i = j \<longleftrightarrow> b = a" if "idx s b = Some j" for b j using that i idx_inj by auto
  show ?thesis unfolding s'
    using assms(2) mine inj spin_invD(4) [OF assms(1)] spin_invD(5) [OF assms(1), of a l] spin_invD(6) [OF assms(1), of l]
      spin_invD(7) [OF assms(1), of a _ l]
    by (intro inv_lock [OF assms(1) i]) (auto simp: owns_def)
qed

lemma step_leave:
  assumes "spin_inv s" "phase s a = Running" "release_enter a l s = Ret s'"
  shows "spin_inv (move a (Leaving l) (remove1 l (held s a)) s')"
proof -
  obtain i where i: "idx s a = Some i" using release_idx [OF assms(3)] by blast
  obtain t where t: "nests a i 0 s t" "s' = upd_lock l (\<lambda>k. k\<lparr>sp_cpu := None\<rparr>) t" "sp_locked (locks s l)" "sp_cpu (locks s l) = Some i"
    using release_enter_eq [OF spin_inv_cpu_ok(1,3) [OF assms(1) i], of l] assms(3) by (auto split: if_splits)
  note f = nests_sys [OF t(1)]
  have "spin_inv (move a Running (held s a) t)" using inv_nest [OF assms(1) i t(1)] assms(2) by simp
  moreover have "move a Running (held s a) t = t" using f assms(2) by (cases t) (auto simp: move_def)
  ultimately have inv: "spin_inv t" by simp
  have mem: "l \<in> set (held t a)" using spin_invD(8) [OF assms(1) i, of l] t(4) f by simp
  have len: "length (held t a) = Suc (length (remove1 l (held t a)))" using mem length_pos_if_in_set [OF mem] by (simp add: length_remove1)
  have "spin_inv (move a (Leaving l) (remove1 l (held t a)) s')"
    unfolding t(2) using t(3) i f assms(2) mem spin_invD(4) [OF inv, of a] spin_invD(7) [OF inv, of a _ l] len
    by (intro inv_lock [OF inv, of a i]) (auto simp: owns_def)
  then show ?thesis using f by simp
qed

lemma step_free:
  assumes "spin_inv s" "phase s a = Leaving l"
  shows "spin_inv (move a Popping (held s a) (release_store l s))"
proof -
  obtain i where i: "idx s a = Some i" using not_running_idx [OF assms(1), of a] assms(2) by auto
  have mine: "owns s a l" using assms(2) by (simp add: owns_def)
  have "l \<notin> set (held s b)" for b
    using spin_invD(7) [OF assms(1) _ mine, of b] spin_invD(5) [OF assms(1), of a l] assms(2) by (cases "b = a") (auto simp: owns_def)
  then show ?thesis unfolding release_store_def
    using assms(2) mine spin_invD(4) [OF assms(1)] spin_invD(5) [OF assms(1), of a l] spin_invD(7) [OF assms(1), of a _ l]
      spin_invD(8) [OF assms(1), of _ _ l]
    by (intro inv_lock [OF assms(1) i]) (auto simp: owns_def)
qed

lemma spin_step_inv: "spin_step s s' \<Longrightarrow> spin_inv s \<Longrightarrow> spin_inv s'"
proof (induction rule: spin_step.induct)
  case (spin s a l s')
  then show ?case using step_spin by blast
qed (blast intro: step_enter step_take step_own step_leave step_free step_pop step_irq)+

lemma spin_reach_inv: "spin_reach s \<Longrightarrow> spin_inv s"
proof (induction rule: spin_reach.induct)
  case (boot s)
  have "ncli (cpus s ! i) = 0" if "idx s a = Some i" for a i
    using boot scan_SomeD(1) [OF that [unfolded idx_def]] by (simp add: spin_start_def)
  with boot show ?case by (auto simp: spin_inv_def spin_start_def owns_def initlock_def)
qed (rule spin_step_inv)

lemma inv_acquire_enter:
  assumes "spin_inv s" "idx s a = Some i"
  shows "if l \<in> set (held s a) then acquire_enter a e l s = Panic ''acquire'' else \<exists>s'. acquire_enter a e l s = Ret s'"
proof -
  have "l \<in> set (held s a) \<Longrightarrow> sp_locked (locks s l)" using spin_invD(6) [OF assms(1), of l] by (auto simp: owns_def)
  then show ?thesis
    using acquire_enter_eq [OF spin_inv_cpu_ok(1,2) [OF assms], of e l] spin_invD(8) [OF assms, of l] by auto
qed

lemma inv_release_enter:
  assumes "spin_inv s" "idx s a = Some i"
  shows "if l \<in> set (held s a) then \<exists>s'. release_enter a l s = Ret s' else release_enter a l s = Panic ''release''"
proof -
  have "l \<in> set (held s a) \<Longrightarrow> sp_locked (locks s l)" using spin_invD(6) [OF assms(1), of l] by (auto simp: owns_def)
  then show ?thesis
    using release_enter_eq [OF spin_inv_cpu_ok(1,3) [OF assms], of l] spin_invD(8) [OF assms, of l] by auto
qed

text \<open>C4: However the CPUs interleave inside \<open>acquire\<close> and \<open>release\<close>, no two of them own the same lock,
  from the successful \<open>xchg\<close> to the store that frees the lock; a CPU that holds a lock runs with its
  interrupts off; and on a CPU outside the two functions \<open>acquire\<close> panics exactly for the locks it
  already holds, and \<open>release\<close> exactly for those it does not.\<close>

theorem spinlock_mutual_exclusion:
  assumes "spin_reach s"
  shows "(a \<noteq> b \<longrightarrow> owns s a l \<longrightarrow> \<not> owns s b l) \<and>
    (owns s a l \<longrightarrow> \<not> iflag s a \<and> sp_locked (locks s l)) \<and>
    (idx s a = Some i \<longrightarrow>
       (if l \<in> set (held s a) then acquire_enter a e l s = Panic ''acquire'' else \<exists>s'. acquire_enter a e l s = Ret s') \<and>
       (if l \<in> set (held s a) then \<exists>s'. release_enter a l s = Ret s' else release_enter a l s = Panic ''release''))"
proof -
  have inv: "spin_inv s" using assms by (rule spin_reach_inv)
  have "\<not> iflag s a" if own: "owns s a l"
  proof -
    obtain j where j: "idx s a = Some j" using spin_invD(1) [OF inv, of a] own by (cases "idx s a") (auto simp: owns_def)
    have "0 < ncli (cpus s ! j)" using spin_invD(2) [OF inv j] own by (auto simp: owns_def busy_def)
    then show ?thesis using spin_invD(3) [OF inv j] by blast
  qed
  then show ?thesis
    using spin_invD(6,7) [OF inv] inv_acquire_enter [OF inv] inv_release_enter [OF inv] by blast
qed

text \<open>C29: On a CPU at any depth of nesting below the largest \<open>int\<close>, \<open>pushcli\<close> (from its \<open>cli\<close> on) turns interrupts off,
  and the matching \<open>popcli\<close> gives the CPU back its depth.  A nested pair leaves interrupts off and the recorded flag
  as it was.  An outermost pair leaves interrupts as the flag that \<open>readeflags\<close> gave says; this is the flag the CPU
  had, and nothing but the recorded flag of that CPU changes, unless the process was preempted after \<open>readeflags\<close>
  and moved to this CPU.  The pair changes no other CPU (its depth, its recorded flag and its interrupt flag) and no
  lock.\<close>

theorem pushcli_popcli:
  assumes "cpu_ok a i s" "ncli (cpus s ! i) < 2 ^ 31 - 1"
  shows "\<exists>s' s''. pushcli_cli a e s = Ret s' \<and> \<not> iflag s' a \<and> popcli a s' = Ret s'' \<and>
    iflag s'' = (iflag s)(a := (if ncli (cpus s ! i) = 0 then e else False)) \<and>
    cpus s'' = (cpus s)[i := (cpus s ! i)\<lparr>intena := (if ncli (cpus s ! i) = 0 then e else intena (cpus s ! i))\<rparr>] \<and>
    locks s'' = locks s \<and> (e = iflag s a \<longrightarrow> pushcli a s = Ret s' \<and> iflag s'' = iflag s)"
proof -
  have "ncli (cpus s ! i) + 1 < 2 ^ 31" using assms(2) by simp
  from push_pop [OF assms(1) this] obtain s' where s': "pushcli_cli a e s = Ret s'" "\<not> iflag s' a"
    "popcli a s' = Ret (set_iflag a (if ncli (cpus s ! i) = 0 then e else iflag s a) (settle e i s))" by blast
  have off: "ncli (cpus s ! i) \<noteq> 0 \<Longrightarrow> \<not> iflag s a" using assms(1) by (auto simp: cpu_ok_def)
  show ?thesis
    by (intro exI [of _ s'] exI, intro conjI, rule s'(1), rule s'(2), rule s'(3))
      (use off s'(1) in \<open>auto simp: settle_def pushcli_def fun_eq_iff\<close>)
qed

text \<open>Two CPUs; the second, with interrupts on, has taken lock 7.\<close>

definition two_cpus :: spinsys where
  "two_cpus =
     \<lparr>cpus = [\<lparr>apicid = 0, ncli = 0, intena = False\<rparr>, \<lparr>apicid = 1, ncli = 0, intena = False\<rparr>],
      iflag = (\<lambda>a. True), locks = (\<lambda>_. initlock), phase = (\<lambda>_. Running), held = (\<lambda>_. [])\<rparr>"

theorem pushcli_popcli_witness:
  "\<exists>s' s''. pushcli 1 two_cpus = Ret s' \<and> \<not> iflag s' 1 \<and> popcli 1 s' = Ret s'' \<and> iflag s'' 1 \<and> cpus s'' ! 0 = cpus two_cpus ! 0"
proof -
  have "cpu_ok 1 1 two_cpus" "ncli (cpus two_cpus ! 1) < 2 ^ 31 - 1" "iflag two_cpus 1" by (simp_all add: cpu_ok_def two_cpus_def)
  from pushcli_popcli [OF this(1,2), of True] this(3) show ?thesis by auto
qed

lemma two_cpus_taken:
  "\<exists>s'. spin_reach s' \<and> owns s' 1 7 \<and> idx s' 1 = Some 1 \<and> phase s' 1 = Taken 7"
proof -
  have start: "spin_start two_cpus" by (simp add: spin_start_def two_cpus_def)
  obtain s1 where s1: "acquire_enter 1 True 7 two_cpus = Ret s1" "locks s1 = locks two_cpus" "idx s1 = idx two_cpus"
    using acquire_enter_eq [of 1 1 two_cpus True 7] by (auto simp: cpu_ok_def two_cpus_def initlock_def nests_def)
  define s2 where "s2 = move 1 (Spinning 7) (held two_cpus 1) s1"
  have r2: "spin_reach s2" unfolding s2_def
    by (rule spin_reach.step [OF spin_reach.boot [OF start] spin_step.enter [OF _ s1(1)]]) (simp add: two_cpus_def)
  define s3 where "s3 = move 1 (Taken 7) (held s2 1) (snd (acquire_xchg 7 s2))"
  have "spin_step s2 s3" unfolding s3_def
    by (rule spin_step.take) (simp_all add: s2_def acquire_xchg_def s1(2) two_cpus_def initlock_def)
  then have "spin_reach s3" using r2 spin_reach.step by blast
  moreover have "owns s3 1 7" "idx s3 1 = Some 1" "phase s3 1 = Taken 7"
    by (simp_all add: s3_def owns_move acquire_xchg_def s2_def s1(3)) (simp add: idx_def two_cpus_def)
  ultimately show ?thesis by blast
qed

theorem spinlock_mutual_exclusion_witness:
  "\<exists>s. spin_reach s \<and> owns s 1 7 \<and> \<not> owns s 0 7 \<and> \<not> iflag s 1 \<and> sp_locked (locks s 7)"
proof -
  obtain s where s: "spin_reach s" "owns s 1 7" using two_cpus_taken by blast
  then show ?thesis using spinlock_mutual_exclusion [OF s(1), of 1 0 7] by auto
qed

end
