(* ===== verification/Trap.thy ===== *)
theory Trap
  imports Syscall Kbd Spinlock
begin

text \<open>
  Interrupts, faults and system calls: \<open>trap\<close> of \<^verbatim>\<open>src/xv6/trap.c\<close> with the handlers it calls,
  \<open>kbdintr\<close>, \<open>uartintr\<close> of \<^verbatim>\<open>src/xv6/uart.c\<close>, and \<open>procdump\<close> of \<^verbatim>\<open>src/xv6/proc.c\<close>.  \<open>c\<close> is the number of
  the CPU and \<open>cpu_proc s c\<close> its process.  What the devices deliver is an argument: the scan codes in
  the keyboard controller, the bytes in the serial port, the faulting address in \<open>cr2\<close>.  The disk is
  the memory disk, whose \<open>ideintr\<close> does nothing; acknowledging the local APIC changes no modelled state.
\<close>

section \<open>Definitions\<close>

definition T_SYSCALL :: u32 where "T_SYSCALL = 64"
definition T_IRQ0 :: u32 where "T_IRQ0 = 32"
definition IRQ_TIMER :: u32 where "IRQ_TIMER = 0"
definition IRQ_KBD :: u32 where "IRQ_KBD = 1"
definition IRQ_COM1 :: u32 where "IRQ_COM1 = 4"
definition IRQ_IDE :: u32 where "IRQ_IDE = 14"
definition IRQ_SPURIOUS :: u32 where "IRQ_SPURIOUS = 31"

text \<open>\<open>procdump\<close>.\<close>

definition dump_state :: "procstate \<Rightarrow> string" where
  "dump_state st =
     (case st of UNUSED \<Rightarrow> ''unused'' | EMBRYO \<Rightarrow> ''embryo'' | SLEEPING \<Rightarrow> ''sleep '' | RUNNABLE \<Rightarrow> ''runble''
        | RUNNING \<Rightarrow> ''run   '' | ZOMBIE \<Rightarrow> ''zombie'')"

fun dump_pcs :: "u32 list \<Rightarrow> 'a consst_scheme \<Rightarrow> 'a consst_scheme outcome" where
  "dump_pcs [] s = Ret s"
| "dump_pcs (pc # pcs) s =
     (if pc = 0 then Ret s else bnd (cprintf (cstr '' %p'') [ANum (sint pc)] s) (\<lambda>s. dump_pcs pcs s))"

fun procdump_loop :: "proc list \<Rightarrow> 'a consst_scheme \<Rightarrow> 'a consst_scheme outcome" where
  "procdump_loop [] s = Ret s"
| "procdump_loop (p # ps) s =
     (if p_state p = UNUSED then procdump_loop ps s
      else
        bnd (cprintf (cstr ''%d %s %s'') [ANum (p_pid p), AStr (Some (cstr (dump_state (p_state p)))), AStr (Some (p_name p))] s) (\<lambda>s.
        bnd (if p_state p = SLEEPING then dump_pcs (getcallerpcs (ctx_ebp (p_context p) + 8) (mem s)) s else Ret s) (\<lambda>s.
        bnd (cprintf [10] [] s) (\<lambda>s. procdump_loop ps s))))"

definition procdump :: "'a consst_scheme \<Rightarrow> 'a consst_scheme outcome" where
  "procdump s = procdump_loop (procs s) s"

text \<open>A burst of console input, and then the listing when it was asked for.\<close>

definition console_input :: "int list \<Rightarrow> 'a consst_scheme \<Rightarrow> 'a consst_scheme outcome" where
  "console_input cs s = bnd (consoleintr cs False s) (\<lambda>(d, s). if d then procdump s else Ret s)"

record kbd_port =
  kbd_shift :: u32
  kbd_codes :: bytes

definition kbdintr :: "kbd_port \<Rightarrow> 'a consst_scheme \<Rightarrow> (kbd_port \<times> 'a consst_scheme) outcome" where
  "kbdintr k s =
     (let (cs, shift) = kbd_chars (kbd_shift k) (kbd_codes k)
      in bnd (console_input cs s) (\<lambda>s. Ret (\<lparr>kbd_shift = shift, kbd_codes = []\<rparr>, s)))"

definition uartintr :: "bytes \<Rightarrow> 'a consst_scheme \<Rightarrow> 'a consst_scheme outcome" where
  "uartintr received s = console_input (if uart s then map uint received else []) s"

text \<open>The timer, on every CPU; the first one counts.\<close>

definition timer_tick :: "nat \<Rightarrow> 'a ptab_scheme \<Rightarrow> 'a ptab_scheme" where
  "timer_tick c s = (if c = 0 then wakeup TicksChan (s\<lparr>ticks := ticks s + 1\<rparr>) else s)"

record trap_input =
  in_kbd :: kbd_port
  in_received :: bytes
  in_cr2 :: u32

text \<open>The \<open>switch\<close> of \<open>trap\<close>, for a trap other than a system call.  A panic ends the run and carries its message only, so
  the line printed just before \<open>panic("trap")\<close> is left out; \<open>lapiceoi\<close> acknowledges the interrupt to the hardware.
  With the disk in memory \<open>ideintr\<close> does nothing.\<close>

definition trap_device ::
  "nat \<Rightarrow> trap_input \<Rightarrow> trapframe \<Rightarrow> 'a kern_scheme \<Rightarrow> (kbd_port \<times> 'a kern_scheme) outcome" where
  "trap_device c i tf s =
     (let n = tf_trapno tf; k = in_kbd i
      in if n = T_IRQ0 + IRQ_TIMER then Ret (k, timer_tick c s)
         else if n = T_IRQ0 + IRQ_IDE then Ret (k, s)
         else if n = T_IRQ0 + IRQ_IDE + 1 then Ret (k, s)
         else if n = T_IRQ0 + IRQ_KBD then kbdintr k s
         else if n = T_IRQ0 + IRQ_COM1 then bnd (uartintr (in_received i) s) (\<lambda>s. Ret (k, s))
         else if n = T_IRQ0 + 7 \<or> n = T_IRQ0 + IRQ_SPURIOUS then
           bnd (cprintf (cstr ''cpu%d: spurious interrupt at %x:%x'' @ [10])
                 [ANum (int c), ANum (uint (tf_cs tf)), ANum (sint (tf_eip tf))] s) (\<lambda>s. Ret (k, s))
         else
           (case cpu_proc s c of
              None \<Rightarrow> Panic ''trap''
            | Some me \<Rightarrow>
                if tf_cs tf AND 3 = 0 then Panic ''trap''
                else
                  bnd (cprintf (cstr ''pid %d %s: trap %d err %d on cpu %d eip 0x%x addr 0x%x--kill proc'' @ [10])
                        [ANum (p_pid (procs s ! me)), AStr (Some (p_name (procs s ! me))), ANum (sint n), ANum (sint (tf_err tf)),
                         ANum (int c), ANum (sint (tf_eip tf)), ANum (sint (in_cr2 i))] s) (\<lambda>s.
                    Ret (k, upd_proc me (\<lambda>p. p\<lparr>p_killed := True\<rparr>) s))))"

text \<open>How \<open>trap\<close> ends: it returns to the interrupted code, the process is gone, or it has given up the
  CPU and goes on with \<open>trap_resumed\<close> when it is scheduled again.\<close>

datatype trap_end = Resume | Gone | Yielded

definition kill_check :: "nat \<Rightarrow> trapframe \<Rightarrow> 'a kern_scheme \<Rightarrow> bool" where
  "kill_check me tf s \<longleftrightarrow> p_killed (procs s ! me) \<and> ucast (tf_cs tf AND 3) = DPL_USER"

definition trap_leave ::
  "(rat \<Rightarrow> rat) \<Rightarrow> nat \<Rightarrow> trapframe \<Rightarrow> 'a kern_scheme \<Rightarrow> (trap_end \<times> 'a kern_scheme) outcome" where
  "trap_leave fl c tf s =
     (case cpu_proc s c of
        None \<Rightarrow> Ret (Resume, s)
      | Some me \<Rightarrow>
          if kill_check me tf s then bnd (exit me s) (\<lambda>s. Ret (Gone, s))
          else if p_state (procs s ! me) = RUNNING \<and> tf_trapno tf = T_IRQ0 + IRQ_TIMER then Ret (Yielded, yield_enter fl me s)
          else Ret (Resume, s))"

definition trap_resumed :: "nat \<Rightarrow> trapframe \<Rightarrow> 'a kern_scheme \<Rightarrow> (trap_end \<times> 'a kern_scheme) outcome" where
  "trap_resumed c tf s =
     (case cpu_proc s c of
        None \<Rightarrow> Ret (Resume, s)
      | Some me \<Rightarrow> if kill_check me tf s then bnd (exit me s) (\<lambda>s. Ret (Gone, s)) else Ret (Resume, s))"

definition trap_syscall ::
  "(rat \<Rightarrow> rat) \<Rightarrow> (nat \<Rightarrow> int) \<Rightarrow> nat \<Rightarrow> trapframe \<Rightarrow> 'a kern_scheme \<Rightarrow> (trap_end \<times> 'a kern_scheme) outcome" where
  "trap_syscall fl junk me tf s =
     (if p_killed (procs s ! me) then bnd (exit me s) (\<lambda>s. Ret (Gone, s))
      else
        bnd (syscall fl junk me (upd_proc me (\<lambda>p. p\<lparr>p_tf := tf\<rparr>) s)) (\<lambda>(alive, s).
          if \<not> alive then Ret (Gone, s)
          else if p_killed (procs s ! me) then bnd (exit me s) (\<lambda>s. Ret (Gone, s))
          else Ret (Resume, s)))"

definition trap ::
  "(rat \<Rightarrow> rat) \<Rightarrow> (nat \<Rightarrow> int) \<Rightarrow> nat \<Rightarrow> trap_input \<Rightarrow> trapframe \<Rightarrow> 'a kern_scheme \<Rightarrow> (trap_end \<times> kbd_port \<times> 'a kern_scheme) outcome" where
  "trap fl junk c i tf s =
     (if tf_trapno tf = T_SYSCALL then
        (case cpu_proc s c of
           None \<Rightarrow> Panic ''trap''
         | Some me \<Rightarrow> bnd (trap_syscall fl junk me tf s) (\<lambda>(e, s). Ret (e, in_kbd i, s)))
      else
        bnd (trap_device c i tf s) (\<lambda>(k, s).
        bnd (trap_leave fl c tf s) (\<lambda>(e, s). Ret (e, k, s))))"

section \<open>Properties\<close>

text \<open>C32: The timer preempts and keeps time.  A timer interrupt on a CPU that runs process \<open>me\<close>, unless \<open>me\<close>
  has been killed and is in user mode, makes \<open>me\<close> runnable and gives up the CPU; the tick count goes up
  by one on the first CPU and on no other, and there every process that slept on the ticks is made
  runnable; every other process keeps its state.\<close>

theorem timer_interrupt:
  assumes "tf_trapno tf = T_IRQ0 + IRQ_TIMER" "cpu_proc s c = Some me" "me < length (procs s)"
    and "p_state (procs s ! me) = RUNNING" "\<not> kill_check me tf s"
  shows "\<exists>s'. trap fl junk c i tf s = Ret (Yielded, in_kbd i, s') \<and>
    p_state (procs s' ! me) = RUNNABLE \<and> ticks s' = (if c = 0 then ticks s + 1 else ticks s) \<and>
    (\<forall>j < length (procs s). j \<noteq> me \<longrightarrow>
       procs s' ! j = (if c = 0 then wake_one TicksChan (procs s ! j) else procs s ! j))"
proof -
  have "kill_check me tf (timer_tick c s) = kill_check me tf s" "p_state (procs (timer_tick c s) ! me) = RUNNING"
    using assms(3,4) by (auto simp: kill_check_def timer_tick_def wakeup_def wake_one_def)
  moreover have "cpu_proc (timer_tick c s) c = Some me" using assms(2) by (auto simp: timer_tick_def wakeup_def)
  ultimately have "trap fl junk c i tf s = Ret (Yielded, in_kbd i, yield_enter fl me (timer_tick c s))"
    using assms(1,5) by (simp add: trap_def trap_device_def trap_leave_def T_SYSCALL_def T_IRQ0_def IRQ_TIMER_def)
  then show ?thesis using assms(3) by (auto simp: yield_enter_def timer_tick_def wakeup_def)
qed

text \<open>The first CPU runs entry 0, which was in user mode; entry 1 sleeps on the ticks.\<close>

definition timed_kern :: kern where
  "timed_kern = zero_kern\<lparr>procs := [zero_proc\<lparr>p_state := RUNNING\<rparr>, zero_proc\<lparr>p_state := SLEEPING, p_chan := Some TicksChan\<rparr>],
     cpu_proc := [0 \<mapsto> 0]\<rparr>"

theorem timer_interrupt_witness:
  "\<exists>s'. trap (\<lambda>x. x) (\<lambda>_. 0) 0 \<lparr>in_kbd = \<lparr>kbd_shift = 0, kbd_codes = []\<rparr>, in_received = [], in_cr2 = 0\<rparr>
      (zero_trapframe\<lparr>tf_trapno := 32, tf_cs := 27\<rparr>) timed_kern = Ret (Yielded, \<lparr>kbd_shift = 0, kbd_codes = []\<rparr>, s') \<and>
    ticks s' = 1 \<and> p_state (procs s' ! 1) = RUNNABLE"
proof -
  let ?i = "\<lparr>in_kbd = \<lparr>kbd_shift = 0, kbd_codes = []\<rparr>, in_received = [], in_cr2 = 0\<rparr>"
  let ?tf = "zero_trapframe\<lparr>tf_trapno := 32, tf_cs := 27\<rparr>"
  have "\<exists>s'. trap (\<lambda>x. x) (\<lambda>_. 0) 0 ?i ?tf timed_kern = Ret (Yielded, in_kbd ?i, s') \<and>
    p_state (procs s' ! 0) = RUNNABLE \<and> ticks s' = (if 0 = (0 :: nat) then ticks timed_kern + 1 else ticks timed_kern) \<and>
    (\<forall>j < length (procs timed_kern). j \<noteq> 0 \<longrightarrow>
       procs s' ! j = (if 0 = (0 :: nat) then wake_one TicksChan (procs timed_kern ! j) else procs timed_kern ! j))"
    by (rule timer_interrupt) (simp_all add: timed_kern_def kill_check_def T_IRQ0_def IRQ_TIMER_def zero_proc_def)
  then show ?thesis by (auto simp: timed_kern_def zero_kern_def wake_one_def)
qed

end
