(* ===== verification/Proc_Invariant.thy ===== *)
theory Proc_Invariant
  imports Proc_Life
begin

text \<open>
  The process table under every interleaving.  \<open>ptable_step\<close> is one stretch of code under
  \<open>ptable.lock\<close>, run by the process of some CPU or by its scheduler; a stretch that ends in \<open>sched()\<close>
  also contains the end of the scheduler's iteration, which runs under the same lock.  The invariant
  is on the part of an entry that it needs, a \<open>pview\<close>.
\<close>

section \<open>The view of an entry\<close>

record pview =
  v_state :: procstate
  v_pid :: int
  v_parent :: "nat option"
  v_chan :: "chan option"

definition view :: "proc \<Rightarrow> pview" where
  "view p = \<lparr>v_state = p_state p, v_pid = p_pid p, v_parent = p_parent p, v_chan = p_chan p\<rparr>"

definition views :: "'a ptab_scheme \<Rightarrow> pview list" where
  "views s = map view (procs s)"

lemma view_simps [simp]:
  "v_state (view p) = p_state p" "v_pid (view p) = p_pid p" "v_parent (view p) = p_parent p" "v_chan (view p) = p_chan p"
  by (simp_all add: view_def)

lemma length_views [simp]: "length (views s) = length (procs s)"
  by (simp add: views_def)

lemma views_nth [simp]: "i < length (procs s) \<Longrightarrow> views s ! i = view (procs s ! i)"
  by (simp add: views_def)

lemma views_upd_proc:
  "i < length (procs s) \<Longrightarrow> view (f (procs s ! i)) = g (views s ! i) \<Longrightarrow>
     views (upd_proc i f s) = (views s)[i := g (views s ! i)]"
  by (simp add: views_def map_update)

lemma views_upd_same: "(\<And>p. view (f p) = view p) \<Longrightarrow> views (upd_proc i f s) = views s"
  by (simp add: views_def map_update list_update_same_conv) (metis list_update_id map_update)

section \<open>The invariant\<close>

definition alive :: "pview \<Rightarrow> bool" where
  "alive v \<longleftrightarrow> v_state v \<in> {SLEEPING, RUNNABLE, RUNNING}"

definition pids_ok :: "pview list \<Rightarrow> int \<Rightarrow> bool" where
  "pids_ok vs np \<longleftrightarrow> 0 < np \<and>
     (\<forall>i < length vs. v_state (vs ! i) \<noteq> UNUSED \<longrightarrow> 0 < v_pid (vs ! i) \<and> v_pid (vs ! i) < np) \<and>
     (\<forall>i < length vs. \<forall>j < length vs. i \<noteq> j \<and> v_state (vs ! i) \<noteq> UNUSED \<and> v_state (vs ! j) \<noteq> UNUSED \<longrightarrow>
        v_pid (vs ! i) \<noteq> v_pid (vs ! j))"

definition parents_ok :: "pview list \<Rightarrow> nat option \<Rightarrow> bool" where
  "parents_ok vs ini \<longleftrightarrow>
     (\<forall>i < length vs. \<forall>k. v_parent (vs ! i) = Some k \<longrightarrow> k < length vs \<and> alive (vs ! k)) \<and>
     (\<forall>i < length vs. v_state (vs ! i) = UNUSED \<longrightarrow> v_parent (vs ! i) = None) \<and>
     (\<forall>i < length vs. (alive (vs ! i) \<or> v_state (vs ! i) = ZOMBIE) \<and> ini \<noteq> Some i \<longrightarrow> v_parent (vs ! i) \<noteq> None) \<and>
     (\<exists>k < length vs. ini = Some k \<and> alive (vs ! k))"

definition cpus_ok :: "pview list \<Rightarrow> (nat \<Rightarrow> nat option) \<Rightarrow> bool" where
  "cpus_ok vs cpu \<longleftrightarrow>
     (\<forall>c i. cpu c = Some i \<longrightarrow> i < length vs \<and> v_state (vs ! i) = RUNNING) \<and>
     (\<forall>i < length vs. v_state (vs ! i) = RUNNING \<longrightarrow> (\<exists>c. cpu c = Some i)) \<and>
     (\<forall>c c' i. c \<noteq> c' \<and> cpu c = Some i \<longrightarrow> cpu c' \<noteq> Some i)"

definition ptable_ok :: "'a ptab_scheme \<Rightarrow> bool" where
  "ptable_ok s \<longleftrightarrow>
     pids_ok (views s) (nextpid s) \<and> parents_ok (views s) (initproc s) \<and> cpus_ok (views s) (cpu_proc s)"

section \<open>The steps\<close>

text \<open>
  \<open>ptable_step s s'\<close>.  A process that runs on a CPU allocates an entry, fills it from its own and makes it
  runnable or gives it back, dies, reaps a child or goes to sleep; any thread wakes sleepers or kills;
  an idle CPU picks a process; \<open>other\<close> is any code that changes nothing of this.  The process identifiers are not used up (\<open>nextpid\<close> is not about to wrap).
\<close>

inductive ptable_step :: "'a ptab_scheme \<Rightarrow> 'a ptab_scheme \<Rightarrow> bool" where
  alloc: "allocproc s = Ret (r, s') \<Longrightarrow> nextpid s < 2 ^ 31 - 1 \<Longrightarrow> ptable_step s s'"
| copy: "cpu_proc s c = Some me \<Longrightarrow> np < length (procs s) \<Longrightarrow> p_state (procs s ! np) = EMBRYO \<Longrightarrow>
    ptable_step s (fork_copy me np pgdir s)"
| ready: "np < length (procs s) \<Longrightarrow> p_state (procs s ! np) = EMBRYO \<Longrightarrow> p_parent (procs s ! np) \<noteq> None \<Longrightarrow>
    ptable_step s (fork_ready np s)"
| undo: "np < length (procs s) \<Longrightarrow> p_state (procs s ! np) = EMBRYO \<Longrightarrow> p_parent (procs s ! np) = None \<Longrightarrow>
    fork_undo np s = Ret s' \<Longrightarrow> ptable_step s s'"
| zombie: "cpu_proc s c = Some me \<Longrightarrow> initproc s \<noteq> Some me \<Longrightarrow>
    ptable_step s (scheduler_return c (exit_zombie me s))"
| reap: "cpu_proc s c = Some me \<Longrightarrow> wait_run me s = Ret (Some pid, s') \<Longrightarrow> ptable_step s s'"
| waits: "cpu_proc s c = Some me \<Longrightarrow> wait_run me s = Ret (None, s') \<Longrightarrow> ptable_step s (scheduler_return c s')"
| sleeps: "cpu_proc s c = Some me \<Longrightarrow> ptable_step s (scheduler_return c (sleep_enter me ch s))"
| leaves: "cpu_proc s c = Some me \<Longrightarrow> ptable_step s (sleep_leave me s)"
| wakes: "ptable_step s (wakeup ch s)"
| kills: "kill pid s = (r, s') \<Longrightarrow> ptable_step s s'"
| yields: "cpu_proc s c = Some me \<Longrightarrow> ptable_step s (scheduler_return c (yield_enter fl me s))"
| dispatch: "cpu_proc s c = None \<Longrightarrow> scheduler_dispatch fl c s = Ret (r, s') \<Longrightarrow> ptable_step s s'"
| grows: "growproc me n s = Ret (r, s') \<Longrightarrow> ptable_step s s'"
| ticks: "ptable_step s (wakeup TicksChan (s\<lparr>ticks := ticks s + 1\<rparr>))"
| queue: "ptable_step s (set_proc_queue pid q s)"
| lottery: "ptable_step s (set_lottery_params pid t s)"
| bjf: "ptable_step s (set_a_proc_bjf_params pid pr ar er s)"
| bjf_all: "ptable_step s (set_all_bjf_params pr ar er s)"
| other: "views s' = views s \<Longrightarrow> nextpid s' = nextpid s \<Longrightarrow> initproc s' = initproc s \<Longrightarrow> cpu_proc s' = cpu_proc s \<Longrightarrow>
    ptable_step s s'"

lemma ptable_okI:
  assumes "pids_ok (views s) (nextpid s)" "parents_ok (views s) (initproc s)" "cpus_ok (views s) (cpu_proc s)"
  shows "ptable_ok s"
  using assms by (simp add: ptable_ok_def)

text \<open>A step that changes no view, no allocation and no CPU keeps the invariant.\<close>

lemma ptable_ok_cong:
  "views s' = views s \<Longrightarrow> nextpid s' = nextpid s \<Longrightarrow> initproc s' = initproc s \<Longrightarrow> cpu_proc s' = cpu_proc s \<Longrightarrow>
     ptable_ok s' = ptable_ok s"
  by (simp add: ptable_ok_def)

text \<open>A sleeper that becomes runnable.\<close>

definition wake_view :: "pview \<Rightarrow> pview \<Rightarrow> bool" where
  "wake_view v v' \<longleftrightarrow> v' = v \<or> v_state v = SLEEPING \<and> v' = v\<lparr>v_state := RUNNABLE\<rparr>"

lemma wake_views:
  assumes "pids_ok vs np" "parents_ok vs ini" "cpus_ok vs cpu" "list_all2 wake_view vs vs'"
  shows "pids_ok vs' np" "parents_ok vs' ini" "cpus_ok vs' cpu"
proof -
  have l: "length vs' = length vs" using assms(4) by (simp add: list_all2_lengthD)
  have w: "wake_view (vs ! i) (vs' ! i)" if "i < length vs" for i using list_all2_nthD [OF assms(4) that] .
  have f: "v_pid (vs' ! i) = v_pid (vs ! i)" "v_parent (vs' ! i) = v_parent (vs ! i)" "alive (vs' ! i) = alive (vs ! i)"
    "(v_state (vs' ! i) = UNUSED) = (v_state (vs ! i) = UNUSED)" "(v_state (vs' ! i) = ZOMBIE) = (v_state (vs ! i) = ZOMBIE)"
    "(v_state (vs' ! i) = RUNNING) = (v_state (vs ! i) = RUNNING)"
    if "i < length vs" for i using w [OF that] by (auto simp: wake_view_def alive_def)
  show "pids_ok vs' np" using assms(1) by (simp add: pids_ok_def l f)
  show "parents_ok vs' ini" using assms(2) by (simp add: parents_ok_def l f cong: conj_cong)
  show "cpus_ok vs' cpu" using assms(3) by (simp add: cpus_ok_def l f cong: conj_cong)
qed

section \<open>One entry changes\<close>

lemma pids_upd:
  assumes "pids_ok vs np" "i < length vs"
    "v_state v \<noteq> UNUSED \<Longrightarrow> v_pid v = v_pid (vs ! i) \<and> v_state (vs ! i) \<noteq> UNUSED"
  shows "pids_ok (vs[i := v]) np"
  using assms by (auto simp: pids_ok_def nth_list_update)

lemma pids_new:
  assumes "pids_ok vs np" "i < length vs" "v_pid v = np"
  shows "pids_ok (vs[i := v]) (np + 1)"
  using assms by (fastforce simp: pids_ok_def nth_list_update)

lemma parentsD:
  assumes "parents_ok vs ini" "j < length vs"
  shows "v_parent (vs ! j) = Some k \<Longrightarrow> k < length vs \<and> alive (vs ! k)"
    and "v_state (vs ! j) = UNUSED \<Longrightarrow> v_parent (vs ! j) = None"
    and "alive (vs ! j) \<or> v_state (vs ! j) = ZOMBIE \<Longrightarrow> ini \<noteq> Some j \<Longrightarrow> v_parent (vs ! j) \<noteq> None"
  using assms by (auto simp: parents_ok_def)

lemma parents_upd:
  assumes "parents_ok vs ini" "i < length vs"
    "v_state v = UNUSED \<Longrightarrow> v_parent v = None"
    "alive v \<or> v_state v = ZOMBIE \<Longrightarrow> ini \<noteq> Some i \<Longrightarrow> v_parent v \<noteq> None"
    "\<And>k. v_parent v = Some k \<Longrightarrow> k < length vs \<and> k \<noteq> i \<and> alive (vs ! k) \<or> v_parent (vs ! i) = Some k"
    "alive v \<or> \<not> alive (vs ! i) \<or> ini \<noteq> Some i \<and> (\<forall>j < length vs. v_parent (vs ! j) \<noteq> Some i)"
  shows "parents_ok (vs[i := v]) ini"
proof -
  obtain k0 where k0: "k0 < length vs" "ini = Some k0" "alive (vs ! k0)" using assms(1) by (auto simp: parents_ok_def)
  have al: "k < length vs \<and> alive (vs[i := v] ! k)" if "j < length vs" "v_parent (vs ! j) = Some k" for j k
    using parentsD(1) [OF assms(1) that] assms(2,6) that by (cases "k = i") auto
  have 1: "k < length vs \<and> alive (vs[i := v] ! k)" if "j < length vs" "v_parent (vs[i := v] ! j) = Some k" for j k
  proof (cases "j = i")
    case True
    then show ?thesis using that assms(2) assms(5) [of k] al [OF assms(2), of k] by auto
  qed (use that al in auto)
  have 2: "v_parent (vs[i := v] ! j) = None" if "j < length vs" "v_state (vs[i := v] ! j) = UNUSED" for j
    using that assms(2,3) parentsD(2) [OF assms(1), of j] by (cases "j = i") auto
  have 3: "v_parent (vs[i := v] ! j) \<noteq> None"
    if "j < length vs" "alive (vs[i := v] ! j) \<or> v_state (vs[i := v] ! j) = ZOMBIE" "ini \<noteq> Some j" for j
    using that assms(2,4) parentsD(3) [OF assms(1), of j] by (cases "j = i") auto
  have "alive (vs[i := v] ! k0)" using k0 assms(2,6) by (cases "k0 = i") auto
  then show ?thesis unfolding parents_ok_def length_list_update using 1 2 3 k0 by blast
qed

lemma cpusD:
  assumes "cpus_ok vs cpu"
  shows "cpu c = Some i \<Longrightarrow> i < length vs \<and> v_state (vs ! i) = RUNNING"
    and "i < length vs \<Longrightarrow> v_state (vs ! i) = RUNNING \<Longrightarrow> \<exists>c. cpu c = Some i"
    and "cpu c = Some i \<Longrightarrow> c \<noteq> c' \<Longrightarrow> cpu c' \<noteq> Some i"
  using assms by (simp_all add: cpus_ok_def)

lemma cpusI:
  assumes "\<And>c i. cpu c = Some i \<Longrightarrow> i < length vs \<and> v_state (vs ! i) = RUNNING"
    and "\<And>i. i < length vs \<Longrightarrow> v_state (vs ! i) = RUNNING \<Longrightarrow> \<exists>c. cpu c = Some i"
    and "\<And>c c' i. cpu c = Some i \<Longrightarrow> c \<noteq> c' \<Longrightarrow> cpu c' \<noteq> Some i"
  shows "cpus_ok vs cpu"
  unfolding cpus_ok_def using assms by blast

lemma cpus_same:
  assumes "cpus_ok vs cpu" "i < length vs" "v_state v = RUNNING \<longleftrightarrow> v_state (vs ! i) = RUNNING"
  shows "cpus_ok (vs[i := v]) cpu"
  using assms by (auto simp: cpus_ok_def nth_list_update)

lemma cpus_leave:
  assumes "cpus_ok vs cpu" "cpu c = Some i" "v_state v \<noteq> RUNNING"
  shows "cpus_ok (vs[i := v]) (cpu(c := None))"
proof (rule cpusI)
  have i: "i < length vs" using cpusD(1) [OF assms(1,2)] by simp
  show "j < length (vs[i := v]) \<and> v_state (vs[i := v] ! j) = RUNNING" if "(cpu(c := None)) c' = Some j" for c' j
    using that cpusD(1) [OF assms(1), of c' j] cpusD(3) [OF assms(1,2), of c'] by (auto split: if_splits)
  show "\<exists>c'. (cpu(c := None)) c' = Some j" if "j < length (vs[i := v])" "v_state (vs[i := v] ! j) = RUNNING" for j
  proof -
    have "j \<noteq> i" using that(2) assms(3) i by auto
    then have "j < length vs \<and> v_state (vs ! j) = RUNNING" using that by auto
    then obtain c' where "cpu c' = Some j" using cpusD(2) [OF assms(1)] by blast
    then show ?thesis using \<open>j \<noteq> i\<close> assms(2) by (intro exI [of _ c']) auto
  qed
  show "(cpu(c := None)) c2 \<noteq> Some j" if "(cpu(c := None)) c1 = Some j" "c1 \<noteq> c2" for c1 c2 j
    using that cpusD(3) [OF assms(1), of c1 j c2] by (auto split: if_splits)
qed

lemma cpus_enter:
  assumes "cpus_ok vs cpu" "cpu c = None" "i < length vs" "v_state (vs ! i) \<noteq> RUNNING" "v_state v = RUNNING"
  shows "cpus_ok (vs[i := v]) (cpu(c := Some i))"
proof (rule cpusI)
  have i: "cpu c' \<noteq> Some i" for c' using cpusD(1) [OF assms(1), of c' i] assms(4) by blast
  show "j < length (vs[i := v]) \<and> v_state (vs[i := v] ! j) = RUNNING" if "(cpu(c := Some i)) c' = Some j" for c' j
    using that cpusD(1) [OF assms(1), of c' j] i [of c'] assms(3,5) by (auto split: if_splits)
  show "\<exists>c'. (cpu(c := Some i)) c' = Some j" if "j < length (vs[i := v])" "v_state (vs[i := v] ! j) = RUNNING" for j
  proof (cases "j = i")
    case False
    then have "j < length vs \<and> v_state (vs ! j) = RUNNING" using that by auto
    then obtain c' where "cpu c' = Some j" using cpusD(2) [OF assms(1)] by blast
    then show ?thesis using assms(2) by (intro exI [of _ c']) auto
  qed auto
  show "(cpu(c := Some i)) c2 \<noteq> Some j" if "(cpu(c := Some i)) c1 = Some j" "c1 \<noteq> c2" for c1 c2 j
    using that i cpusD(3) [OF assms(1), of c1 j c2] by (auto split: if_splits)
qed

section \<open>Every step keeps the invariant\<close>

lemma running_on:
  assumes "ptable_ok s" "cpu_proc s c = Some me"
  shows "me < length (procs s)" "p_state (procs s ! me) = RUNNING"
  using cpusD(1) [of "views s" "cpu_proc s" c me] assms by (auto simp: ptable_ok_def)

lemma step_alloc:
  assumes "ptable_ok s" "allocproc s = Ret (r, s')" "nextpid s < 2 ^ 31 - 1"
  shows "ptable_ok s'"
proof (cases "scan (\<lambda>p. p_state p = UNUSED) (procs s)")
  case None
  then show ?thesis using assms by (simp add: allocproc_def)
next
  case (Some i)
  have i: "i < length (procs s)" "p_state (procs s ! i) = UNUSED" using scan_SomeD [OF Some] by auto
  have np: "0 < nextpid s" and par: "p_parent (procs s ! i) = None"
    using assms(1) i by (auto simp: ptable_ok_def pids_ok_def parents_ok_def)
  let ?t = "(upd_proc i (\<lambda>p. p\<lparr>p_state := EMBRYO, p_pid := nextpid s\<rparr>) s)\<lparr>nextpid := nextpid s + 1\<rparr>"
  obtain stk u where k: "kalloc ?t = (stk, u)" by (cases "kalloc ?t")
  note m = mem_only_ptab [OF kalloc_mem_only [OF k]]
  obtain st where st: "st \<in> {UNUSED, EMBRYO}" and s': "views s' = (views s)[i := (views s ! i)\<lparr>v_state := st, v_pid := nextpid s\<rparr>]"
    and rest: "nextpid s' = nextpid s + 1" "initproc s' = initproc s" "cpu_proc s' = cpu_proc s"
  proof (cases "stk = 0")
    case True
    have "views s' = (views s)[i := (views s ! i)\<lparr>v_state := UNUSED, v_pid := nextpid s\<rparr>]"
      "nextpid s' = nextpid s + 1" "initproc s' = initproc s" "cpu_proc s' = cpu_proc s"
      using assms(2,3) Some k m i True np by (auto simp: allocproc_def Let_def views_def map_update view_def)
    then show ?thesis using that [of UNUSED] by simp
  next
    case False
    have "views s' = (views s)[i := (views s ! i)\<lparr>v_state := EMBRYO, v_pid := nextpid s\<rparr>]"
      "nextpid s' = nextpid s + 1" "initproc s' = initproc s" "cpu_proc s' = cpu_proc s"
      using assms(2,3) Some k m i False np
      by (auto simp: allocproc_def Let_def views_def map_update view_def new_proc_fields_def)
    then show ?thesis using that [of EMBRYO] by simp
  qed
  have "pids_ok (views s') (nextpid s')" unfolding s' rest
    using pids_new [of "views s" "nextpid s" i] assms(1) i by (simp add: ptable_ok_def)
  moreover have "parents_ok (views s') (initproc s')" unfolding s' rest
    by (rule parents_upd) (use assms(1) i st par in \<open>auto simp: ptable_ok_def alive_def\<close>)
  moreover have "cpus_ok (views s') (cpu_proc s')" unfolding s' rest
    by (rule cpus_same) (use assms(1) i st in \<open>auto simp: ptable_ok_def\<close>)
  ultimately show ?thesis by (rule ptable_okI)
qed

text \<open>The entry of a running process leaves its CPU.\<close>

lemma step_off_cpu:
  assumes "ptable_ok s" "cpu_proc s c = Some me" "views s' = (views s)[me := v]" "nextpid s' = nextpid s"
    "initproc s' = initproc s" "cpu_proc s' = (cpu_proc s)(c := None)"
    "v_pid v = p_pid (procs s ! me)" "v_parent v = p_parent (procs s ! me)" "v_state v \<in> {SLEEPING, RUNNABLE}"
  shows "ptable_ok s'"
proof (rule ptable_okI)
  note r = running_on [OF assms(1,2)]
  have ok: "pids_ok (views s) (nextpid s)" "parents_ok (views s) (initproc s)" "cpus_ok (views s) (cpu_proc s)"
    using assms(1) by (auto simp: ptable_ok_def)
  show "pids_ok (views s') (nextpid s')" unfolding assms(3,4)
    by (rule pids_upd) (use ok r assms in auto)
  show "parents_ok (views s') (initproc s')" unfolding assms(3,5)
    using parentsD [OF ok(2), of me] r assms(7-9) by (intro parents_upd) (use ok in \<open>auto simp: alive_def\<close>)
  show "cpus_ok (views s') (cpu_proc s')" unfolding assms(3,6)
    by (rule cpus_leave [OF ok(3) assms(2)]) (use assms(9) in auto)
qed

text \<open>The entry keeps its CPU and does not die.\<close>

lemma step_entry:
  assumes "ptable_ok s" "i < length (procs s)" "views s' = (views s)[i := v]" "nextpid s' = nextpid s"
    "initproc s' = initproc s" "cpu_proc s' = cpu_proc s"
    "v_state v \<noteq> UNUSED \<Longrightarrow> v_pid v = p_pid (procs s ! i) \<and> p_state (procs s ! i) \<noteq> UNUSED"
    "v_state v = UNUSED \<Longrightarrow> v_parent v = None"
    "alive v \<or> v_state v = ZOMBIE \<Longrightarrow> initproc s \<noteq> Some i \<Longrightarrow> v_parent v \<noteq> None"
    "\<And>k. v_parent v = Some k \<Longrightarrow> k < length (procs s) \<and> k \<noteq> i \<and> alive (views s ! k) \<or> p_parent (procs s ! i) = Some k"
    "alive v \<or> \<not> alive (views s ! i)" "v_state v = RUNNING \<longleftrightarrow> p_state (procs s ! i) = RUNNING"
  shows "ptable_ok s'"
proof (rule ptable_okI)
  have ok: "pids_ok (views s) (nextpid s)" "parents_ok (views s) (initproc s)" "cpus_ok (views s) (cpu_proc s)"
    using assms(1) by (auto simp: ptable_ok_def)
  show "pids_ok (views s') (nextpid s')" unfolding assms(3,4)
    by (rule pids_upd [OF ok(1)]) (use assms in auto)
  show "parents_ok (views s') (initproc s')" unfolding assms(3,5)
    by (rule parents_upd [OF ok(2)]) (use assms in auto)
  show "cpus_ok (views s') (cpu_proc s')" unfolding assms(3,6)
    by (rule cpus_same [OF ok(3)]) (use assms in auto)
qed

lemma scheduler_return_simps [simp]:
  "views (scheduler_return c s) = views s" "nextpid (scheduler_return c s) = nextpid s"
  "initproc (scheduler_return c s) = initproc s" "cpu_proc (scheduler_return c s) = (cpu_proc s)(c := None)"
  "procs (scheduler_return c s) = procs s"
  by (simp_all add: scheduler_return_def views_def)

lemma step_sleeps:
  assumes "ptable_ok s" "cpu_proc s c = Some me"
  shows "ptable_ok (scheduler_return c (sleep_enter me ch s))"
proof (rule step_off_cpu [OF assms])
  show "views (scheduler_return c (sleep_enter me ch s)) =
      (views s)[me := (views s ! me)\<lparr>v_chan := Some ch, v_state := SLEEPING\<rparr>]"
    using running_on [OF assms] by (simp add: sleep_enter_def views_def map_update view_def)
qed (use running_on [OF assms] in \<open>simp_all add: sleep_enter_def\<close>)

lemma step_yields:
  assumes "ptable_ok s" "cpu_proc s c = Some me"
  shows "ptable_ok (scheduler_return c (yield_enter fl me s))"
proof (rule step_off_cpu [OF assms])
  show "views (scheduler_return c (yield_enter fl me s)) = (views s)[me := (views s ! me)\<lparr>v_state := RUNNABLE\<rparr>]"
    using running_on [OF assms] by (simp add: yield_enter_def views_def map_update view_def)
qed (use running_on [OF assms] in \<open>simp_all add: yield_enter_def\<close>)

lemma step_leaves:
  assumes "ptable_ok s" "cpu_proc s c = Some me" shows "ptable_ok (sleep_leave me s)"
proof (rule step_entry [OF assms(1) running_on(1) [OF assms]])
  note r = running_on [OF assms]
  show "views (sleep_leave me s) = (views s)[me := (views s ! me)\<lparr>v_chan := None\<rparr>]"
    using r by (simp add: sleep_leave_def views_def map_update view_def)
  show "initproc s \<noteq> Some me \<Longrightarrow> v_parent ((views s ! me)\<lparr>v_chan := None\<rparr>) \<noteq> None"
    using parentsD(3) [of "views s" "initproc s" me] assms(1) r by (simp add: ptable_ok_def alive_def)
qed (use running_on [OF assms] in \<open>simp_all add: sleep_leave_def alive_def\<close>)

lemma step_copy:
  assumes "ptable_ok s" "cpu_proc s c = Some me" "np < length (procs s)" "p_state (procs s ! np) = EMBRYO"
  shows "ptable_ok (fork_copy me np pgdir s)"
proof (rule step_entry [OF assms(1,3)])
  note r = running_on [OF assms(1,2)]
  show "views (fork_copy me np pgdir s) = (views s)[np := (views s ! np)\<lparr>v_parent := Some me\<rparr>]"
    using assms(3) by (simp add: fork_copy_def Let_def views_def map_update view_def)
  show "v_parent ((views s ! np)\<lparr>v_parent := Some me\<rparr>) = Some k \<Longrightarrow>
      k < length (procs s) \<and> k \<noteq> np \<and> alive (views s ! k) \<or> p_parent (procs s ! np) = Some k" for k
    using r assms(4) by (auto simp: alive_def)
qed (use assms in \<open>simp_all add: fork_copy_def Let_def alive_def\<close>)

lemma step_ready:
  assumes "ptable_ok s" "np < length (procs s)" "p_state (procs s ! np) = EMBRYO" "p_parent (procs s ! np) \<noteq> None"
  shows "ptable_ok (fork_ready np s)"
proof (rule step_entry [OF assms(1,2)])
  show "views (fork_ready np s) = (views s)[np := (views s ! np)\<lparr>v_state := RUNNABLE\<rparr>]"
    using assms(2) by (simp add: fork_ready_def views_def map_update view_def)
qed (use assms in \<open>simp_all add: fork_ready_def alive_def\<close>)

lemma step_undo:
  assumes "ptable_ok s" "np < length (procs s)" "p_state (procs s ! np) = EMBRYO" "p_parent (procs s ! np) = None"
    "fork_undo np s = Ret s'"
  shows "ptable_ok s'"
proof -
  obtain t where t: "kfree (p_kstack (procs s ! np)) s = Ret t" "s' = upd_proc np (\<lambda>p. p\<lparr>p_kstack := 0, p_state := UNUSED\<rparr>) t"
    using assms(5) by (auto simp: fork_undo_def)
  note m = mem_only_ptab [OF kfree_mem_only [OF t(1)]]
  show ?thesis
  proof (rule step_entry [OF assms(1,2)])
    show "views s' = (views s)[np := (views s ! np)\<lparr>v_state := UNUSED\<rparr>]"
      using assms(2) m t(2) by (simp add: views_def map_update view_def)
  qed (use assms m t(2) in \<open>simp_all add: alive_def\<close>)
qed

text \<open>A dead entry is nobody's parent, so it can be given back.\<close>

lemma wait_reap_table:
  assumes "wait_reap i s = Ret (pid, s')" "i < length (procs s)"
  shows "views s' = (views s)[i := (views s ! i)\<lparr>v_pid := 0, v_parent := None, v_state := UNUSED\<rparr>]"
    "nextpid s' = nextpid s" "initproc s' = initproc s" "cpu_proc s' = cpu_proc s" "pid = p_pid (procs s ! i)"
proof -
  obtain t u where t: "kfree (p_kstack (procs s ! i)) s = Ret t"
    and u: "freevm (p_pgdir (procs (upd_proc i (\<lambda>p. p\<lparr>p_kstack := 0\<rparr>) t) ! i)) (upd_proc i (\<lambda>p. p\<lparr>p_kstack := 0\<rparr>) t) = Ret u"
    and s': "s' = upd_proc i (\<lambda>p. p\<lparr>p_pid := 0, p_parent := None, p_name := (p_name p)[0 := 0], p_killed := False, p_state := UNUSED\<rparr>) u"
    and pid: "pid = p_pid (procs s ! i)"
    using assms(1) by (auto simp: wait_reap_def Let_def)
  note m = mem_only_ptab [OF kfree_mem_only [OF t]] and n = mem_only_ptab [OF freevm_mem_only [OF u]]
  show "views s' = (views s)[i := (views s ! i)\<lparr>v_pid := 0, v_parent := None, v_state := UNUSED\<rparr>]"
    using assms(2) m n s' by (simp add: views_def map_update view_def)
  show "nextpid s' = nextpid s" "initproc s' = initproc s" "cpu_proc s' = cpu_proc s" using m n s' by simp_all
  show "pid = p_pid (procs s ! i)" by (rule pid)
qed

lemma step_reap:
  assumes "ptable_ok s" "wait_run me s = Ret (Some pid, s')" shows "ptable_ok s'"
proof (cases "scan (\<lambda>p. p_parent p = Some me \<and> p_state p = ZOMBIE) (procs s)")
  case None
  then show ?thesis using assms by (auto simp: wait_run_def split: if_splits)
next
  case (Some i)
  then have i: "i < length (procs s)" "p_state (procs s ! i) = ZOMBIE" using scan_SomeD [OF Some] by auto
  have w: "wait_reap i s = Ret (pid, s')" using assms(2) Some by (auto simp: wait_run_def)
  note r = wait_reap_table [OF w i(1)]
  show ?thesis by (rule step_entry [OF assms(1) i(1) r(1-4)]) (use i in \<open>simp_all add: alive_def\<close>)
qed

lemma step_waits:
  assumes "ptable_ok s" "cpu_proc s c = Some me" "wait_run me s = Ret (None, s')"
  shows "ptable_ok (scheduler_return c s')"
proof -
  have "s' = sleep_enter me (ProcChan me) s"
    using assms(3) by (auto simp: wait_run_def split: option.splits if_splits)
  then show ?thesis using step_sleeps [OF assms(1,2)] by simp
qed

lemma step_wake:
  assumes "ptable_ok s" "list_all2 wake_view (views s) (views s')" "nextpid s' = nextpid s" "initproc s' = initproc s"
    "cpu_proc s' = cpu_proc s"
  shows "ptable_ok s'"
  using wake_views [of "views s" "nextpid s" "initproc s" "cpu_proc s" "views s'"] assms by (simp add: ptable_ok_def)

lemma wake_view_refl [simp]: "wake_view v v"
  by (simp add: wake_view_def)

lemma views_wakeup1: "list_all2 wake_view (views s) (views (wakeup1 ch s))"
  by (simp add: views_def list_all2_conv_all_nth wake_view_def wake_one_def view_def)

lemma step_kill:
  assumes "ptable_ok s" "kill pid s = (r, s')" shows "ptable_ok s'"
proof (cases "scan (\<lambda>p. p_pid p = pid) (procs s)")
  case None
  then show ?thesis using assms by (simp add: kill_def)
next
  case (Some i)
  then have i: "i < length (procs s)" using scan_SomeD [OF Some] by auto
  have s': "s' = upd_proc i (\<lambda>p. p\<lparr>p_killed := True, p_state := (if p_state p = SLEEPING then RUNNABLE else p_state p)\<rparr>) s"
    using assms(2) Some by (simp add: kill_def)
  have "wake_view (views s ! j) (views s' ! j)" if "j < length (procs s)" for j
    using that i by (cases "j = i") (auto simp: s' wake_view_def view_def)
  then have "list_all2 wake_view (views s) (views s')" by (simp add: s' list_all2_conv_all_nth)
  then show ?thesis by (rule step_wake [OF assms(1)]) (simp_all add: s')
qed

lemma view_fix_queues: "views (fix_queues s) = views s" "cpu_proc (fix_queues s) = cpu_proc s"
  "nextpid (fix_queues s) = nextpid s" "initproc (fix_queues s) = initproc s"
  by (auto simp: views_def fix_queues_def fix_one_def view_def)

lemma step_dispatch:
  assumes "ptable_ok s" "cpu_proc s c = None" "scheduler_dispatch fl c s = Ret (r, s')"
  shows "ptable_ok s'"
proof (cases r)
  case None
  then have "s' = fix_queues s"
    using assms(3) by (auto simp: scheduler_dispatch_def scheduler_choose_def Let_def split: option.splits)
  then show ?thesis using assms(1) ptable_ok_cong [of "fix_queues s" s] by (simp add: view_fix_queues)
next
  case (Some i)
  note d = scheduler_dispatch_cases [OF assms(3) [unfolded Some]]
  have "p_state (procs (fix_queues s) ! i) = RUNNABLE" by (rule choice_level_state [OF d(2)])
  then have st: "p_state (procs s ! i) = RUNNABLE" using d(1) by (simp add: fix_queues_nth)
  have v: "views s' = (views s)[i := (views s ! i)\<lparr>v_state := RUNNING\<rparr>]"
    using d view_fix_queues(1) [of s] by (simp add: Let_def views_def map_update) (simp add: view_def fix_queues_nth fix_one_def)
  have r: "nextpid s' = nextpid s" "initproc s' = initproc s" "cpu_proc s' = (cpu_proc s)(c := Some i)"
    using d(3) by (simp_all add: Let_def view_fix_queues)
  have ok: "pids_ok (views s) (nextpid s)" "parents_ok (views s) (initproc s)" "cpus_ok (views s) (cpu_proc s)"
    using assms(1) by (auto simp: ptable_ok_def)
  show ?thesis
  proof (rule ptable_okI)
    show "pids_ok (views s') (nextpid s')" unfolding v r by (rule pids_upd [OF ok(1)]) (use d(1) st in auto)
    show "parents_ok (views s') (initproc s')" unfolding v r
      using parentsD(3) [OF ok(2), of i] by (intro parents_upd [OF ok(2)]) (use d(1) st in \<open>auto simp: alive_def\<close>)
    show "cpus_ok (views s') (cpu_proc s')" unfolding v r by (rule cpus_enter [OF ok(3) assms(2)]) (use d(1) st in auto)
  qed
qed

text \<open>Exit: the children of \<open>me\<close> go to the first process, sleepers are woken, and \<open>me\<close> dies.\<close>

definition adopt :: "nat \<Rightarrow> nat option \<Rightarrow> pview \<Rightarrow> pview" where
  "adopt me ini v = (if v_parent v = Some me then v\<lparr>v_parent := ini\<rparr> else v)"

lemma wake_view_trans: "wake_view u v \<Longrightarrow> wake_view v w \<Longrightarrow> wake_view u w"
  by (auto simp: wake_view_def)

lemma adopt_wake: "wake_view u v \<Longrightarrow> wake_view (adopt me ini u) (adopt me ini v)"
  by (auto simp: wake_view_def adopt_def)

lemma wakeup1_proc_views:
  "j < length (procs s) \<Longrightarrow> wake_view (views s ! j) (views (wakeup1_proc p s) ! j)"
  "length (procs (wakeup1_proc p s)) = length (procs s)" "nextpid (wakeup1_proc p s) = nextpid s"
  "initproc (wakeup1_proc p s) = initproc s" "cpu_proc (wakeup1_proc p s) = cpu_proc s"
  using list_all2_nthD [OF views_wakeup1 [of s]] by (auto simp: wakeup1_proc_def split: option.splits)

lemma reparent_views:
  assumes "distinct is" "\<forall>i \<in> set is. i < length (procs s)"
  shows "length (procs (reparent me is s)) = length (procs s) \<and> nextpid (reparent me is s) = nextpid s \<and>
    initproc (reparent me is s) = initproc s \<and> cpu_proc (reparent me is s) = cpu_proc s \<and>
    (\<forall>j < length (procs s). wake_view (if j \<in> set is then adopt me (initproc s) (views s ! j) else views s ! j)
       (views (reparent me is s) ! j))"
  using assms
proof (induction "is" arbitrary: s)
  case (Cons i "is")
  show ?case
  proof (cases "p_parent (procs s ! i) = Some me")
    case False
    then have "adopt me (initproc s) (views s ! i) = views s ! i" using Cons.prems by (simp add: adopt_def)
    then show ?thesis using Cons.IH [of s] Cons.prems False by auto
  next
    case True
    let ?a = "upd_proc i (\<lambda>p. p\<lparr>p_parent := initproc s\<rparr>) s"
    let ?t = "if p_state (procs ?a ! i) = ZOMBIE then wakeup1_proc (initproc ?a) ?a else ?a"
    have i: "i < length (procs s)" using Cons.prems by simp
    have va: "views ?a ! j = (if j = i then adopt me (initproc s) (views s ! j) else views s ! j)" if "j < length (procs s)" for j
      using that i True by (simp add: adopt_def view_def nth_list_update)
    have t: "length (procs ?t) = length (procs s)" "nextpid ?t = nextpid s" "initproc ?t = initproc s" "cpu_proc ?t = cpu_proc s"
      by (auto simp: wakeup1_proc_views)
    have vt: "wake_view (views ?a ! j) (views ?t ! j)" if "j < length (procs s)" for j
      using wakeup1_proc_views(1) [of j ?a "initproc ?a"] that by simp
    have ih: "length (procs (reparent me is ?t)) = length (procs ?t) \<and> nextpid (reparent me is ?t) = nextpid ?t \<and>
      initproc (reparent me is ?t) = initproc ?t \<and> cpu_proc (reparent me is ?t) = cpu_proc ?t \<and>
      (\<forall>j < length (procs ?t). wake_view (if j \<in> set is then adopt me (initproc ?t) (views ?t ! j) else views ?t ! j)
         (views (reparent me is ?t) ! j))"
      by (rule Cons.IH) (use Cons.prems t in auto)
    note ih5 = ih [THEN conjunct2, THEN conjunct2, THEN conjunct2, THEN conjunct2, unfolded t, rule_format]
    have r: "reparent me (i # is) s = reparent me is ?t" using True by (simp add: Let_def)
    have "wake_view (if j \<in> set (i # is) then adopt me (initproc s) (views s ! j) else views s ! j) (views (reparent me (i # is) s) ! j)"
      if "j < length (procs s)" for j
    proof -
      have "wake_view (if j \<in> set is then adopt me (initproc s) (views ?a ! j) else views ?a ! j)
          (if j \<in> set is then adopt me (initproc s) (views ?t ! j) else views ?t ! j)"
        using vt [OF that] adopt_wake by simp
      moreover have "(if j \<in> set (i # is) then adopt me (initproc s) (views s ! j) else views s ! j) =
          (if j \<in> set is then adopt me (initproc s) (views ?a ! j) else views ?a ! j)"
        using Cons.prems va [OF that] by auto
      ultimately show ?thesis using wake_view_trans [OF _ ih5 [OF that]] unfolding r by simp
    qed
    then show ?thesis using ih t unfolding r by simp
  qed
qed simp

lemma adopt_ok:
  assumes "pids_ok vs np" "parents_ok vs ini" "cpus_ok vs cpu" "ini \<noteq> Some me"
  shows "pids_ok (map (adopt me ini) vs) np" "parents_ok (map (adopt me ini) vs) ini" "cpus_ok (map (adopt me ini) vs) cpu"
    "j < length vs \<Longrightarrow> v_parent (map (adopt me ini) vs ! j) \<noteq> Some me"
proof -
  have a: "v_state (adopt me ini v) = v_state v" "v_pid (adopt me ini v) = v_pid v" "alive (adopt me ini v) = alive v" for v
    by (simp_all add: adopt_def alive_def)
  show "pids_ok (map (adopt me ini) vs) np" using assms(1) by (simp add: pids_ok_def a)
  show "cpus_ok (map (adopt me ini) vs) cpu" using assms(3) by (simp add: cpus_ok_def a cong: conj_cong)
  show "j < length vs \<Longrightarrow> v_parent (map (adopt me ini) vs ! j) \<noteq> Some me" using assms(4) by (simp add: adopt_def)
  obtain k0 where k0: "k0 < length vs" "ini = Some k0" "alive (vs ! k0)" using assms(2) by (auto simp: parents_ok_def)
  have p: "k < length vs \<and> alive (vs ! k)" if "i < length vs" "v_parent (adopt me ini (vs ! i)) = Some k" for i k
    using that parentsD(1) [OF assms(2) that(1), of k] k0 by (auto simp: adopt_def split: if_splits)
  have n: "v_parent (adopt me ini (vs ! i)) \<noteq> None"
    if "i < length vs" "alive (vs ! i) \<or> v_state (vs ! i) = ZOMBIE" "ini \<noteq> Some i" for i
    using parentsD(3) [OF assms(2) that] k0 by (simp add: adopt_def)
  have u: "v_parent (adopt me ini (vs ! i)) = None" if "i < length vs" "v_state (vs ! i) = UNUSED" for i
    using parentsD(2) [OF assms(2) that] by (simp add: adopt_def)
  have "alive (map (adopt me ini) vs ! k0)" using k0(1,3) by (simp add: a)
  then have "\<exists>k < length vs. ini = Some k \<and> alive (map (adopt me ini) vs ! k)" using k0 by blast
  moreover have "\<forall>i < length vs. \<forall>k. v_parent (map (adopt me ini) vs ! i) = Some k \<longrightarrow> k < length vs \<and> alive (map (adopt me ini) vs ! k)"
    using p by (metis a(3) nth_map)
  moreover have "\<forall>i < length vs. v_state (map (adopt me ini) vs ! i) = UNUSED \<longrightarrow> v_parent (map (adopt me ini) vs ! i) = None"
    using u by (simp add: a)
  moreover have "\<forall>i < length vs. (alive (map (adopt me ini) vs ! i) \<or> v_state (map (adopt me ini) vs ! i) = ZOMBIE) \<and> ini \<noteq> Some i \<longrightarrow>
      v_parent (map (adopt me ini) vs ! i) \<noteq> None"
    using n by (simp add: a)
  ultimately show "parents_ok (map (adopt me ini) vs) ini" unfolding parents_ok_def length_map by blast
qed

lemma exit_zombie_views:
  assumes "me < length (procs s)"
  shows "\<exists>vs. list_all2 wake_view (map (adopt me (initproc s)) (views s)) vs \<and>
    views (exit_zombie me s) = vs[me := (vs ! me)\<lparr>v_state := ZOMBIE\<rparr>] \<and> nextpid (exit_zombie me s) = nextpid s \<and>
    initproc (exit_zombie me s) = initproc s \<and> cpu_proc (exit_zombie me s) = cpu_proc s"
proof -
  let ?t = "wakeup1_proc (p_parent (procs s ! me)) s"
  let ?u = "reparent me [0..<length (procs ?t)] ?t"
  note t = wakeup1_proc_views [where s = s and p = "p_parent (procs s ! me)"]
  have u: "length (procs ?u) = length (procs ?t) \<and> nextpid ?u = nextpid ?t \<and> initproc ?u = initproc ?t \<and> cpu_proc ?u = cpu_proc ?t \<and>
    (\<forall>j < length (procs ?t). wake_view (if j \<in> set [0..<length (procs ?t)] then adopt me (initproc ?t) (views ?t ! j) else views ?t ! j)
       (views ?u ! j))" by (rule reparent_views) auto
  note u5 = u [THEN conjunct2, THEN conjunct2, THEN conjunct2, THEN conjunct2, unfolded t(2,4), rule_format]
  have "wake_view (adopt me (initproc s) (views s ! j)) (views ?u ! j)" if "j < length (procs s)" for j
    by (rule wake_view_trans [OF adopt_wake [OF t(1) [OF that]]])
      (use u5 [OF that] that in \<open>simp add: t(2,4) del: views_nth\<close>)
  then have "list_all2 wake_view (map (adopt me (initproc s)) (views s)) (views ?u)"
    using u t(2) by (simp add: list_all2_conv_all_nth)
  moreover have "views (exit_zombie me s) = (views ?u)[me := (views ?u ! me)\<lparr>v_state := ZOMBIE\<rparr>]"
    using assms u t(2) by (simp add: exit_zombie_def Let_def views_def map_update view_def)
  ultimately show ?thesis using u t by (auto simp: exit_zombie_def Let_def)
qed

lemma step_zombie:
  assumes "ptable_ok s" "cpu_proc s c = Some me" "initproc s \<noteq> Some me"
  shows "ptable_ok (scheduler_return c (exit_zombie me s))"
proof -
  have me: "me < length (procs s)" using running_on [OF assms(1,2)] by simp
  have ok: "pids_ok (views s) (nextpid s)" "parents_ok (views s) (initproc s)" "cpus_ok (views s) (cpu_proc s)"
    using assms(1) by (auto simp: ptable_ok_def)
  note a = adopt_ok [OF ok assms(3)]
  obtain vs where w: "list_all2 wake_view (map (adopt me (initproc s)) (views s)) vs"
    and e: "views (exit_zombie me s) = vs[me := (vs ! me)\<lparr>v_state := ZOMBIE\<rparr>]" "nextpid (exit_zombie me s) = nextpid s"
      "initproc (exit_zombie me s) = initproc s" "cpu_proc (exit_zombie me s) = cpu_proc s"
    using exit_zombie_views [OF me] by blast
  have l: "length vs = length (procs s)" using list_all2_lengthD [OF w] by simp
  note v = wake_views [OF a(1-3) w]
  have noc: "v_parent (vs ! j) \<noteq> Some me" if "j < length vs" for j
    using a(4) [of j] list_all2_nthD [OF w, of j] that l by (auto simp: wake_view_def)
  have st: "v_state (vs ! me) = RUNNING" using cpusD(1) [OF v(3) assms(2)] by simp
  show ?thesis
  proof (rule ptable_okI; simp only: scheduler_return_simps e)
    show "pids_ok (vs[me := (vs ! me)\<lparr>v_state := ZOMBIE\<rparr>]) (nextpid s)"
      by (rule pids_upd [OF v(1)]) (use me l st in auto)
    show "parents_ok (vs[me := (vs ! me)\<lparr>v_state := ZOMBIE\<rparr>]) (initproc s)"
      using parentsD(3) [OF v(2), of me] me l st noc assms(3)
      by (intro parents_upd [OF v(2)]) (auto simp: alive_def)
    show "cpus_ok (vs[me := (vs ! me)\<lparr>v_state := ZOMBIE\<rparr>]) ((cpu_proc s)(c := None))"
      by (rule cpus_leave [OF v(3) assms(2)]) simp
  qed
qed

lemma growproc_views:
  assumes "growproc me n s = Ret (r, s')"
  shows "views s' = views s" "nextpid s' = nextpid s" "initproc s' = initproc s" "cpu_proc s' = cpu_proc s"
proof -
  obtain sz t where t: "mem_only s t" "s' = t \<or> s' = upd_proc me (\<lambda>p. p\<lparr>p_sz := sz\<rparr>) t"
    using assms unfolding growproc_def Let_def
    by (auto split: if_splits dest!: allocuvm_mem_only deallocuvm_mem_only) (metis mem_only_refl)+
  have "views (upd_proc me (\<lambda>p. p\<lparr>p_sz := sz\<rparr>) t) = views t" by (rule views_upd_same) (simp add: view_def)
  then show "views s' = views s" "nextpid s' = nextpid s" "initproc s' = initproc s" "cpu_proc s' = cpu_proc s"
    using t(2) mem_only_ptab [OF t(1)] by (auto simp: views_def)
qed

lemma views_map_same: "(\<And>p. view (f p) = view p) \<Longrightarrow> views (s\<lparr>procs := map f (procs s)\<rparr>) = views s"
  by (simp add: views_def)

lemma ptable_step_ok: "ptable_step s s' \<Longrightarrow> ptable_ok s \<Longrightarrow> ptable_ok s'"
proof (induction rule: ptable_step.induct)
  case (wakes s ch)
  then show ?case by (rule step_wake) (simp_all add: wakeup_def views_wakeup1)
next
  case (grows me n s r s')
  then show ?case using ptable_ok_cong [of s' s] growproc_views [OF grows(1)] by simp
next
  case (ticks s)
  have "ptable_ok (s\<lparr>ticks := ticks s + 1\<rparr>)"
    using ticks ptable_ok_cong [of "s\<lparr>ticks := ticks s + 1\<rparr>" s] by (simp add: views_def)
  then show ?case by (rule step_wake) (simp_all add: wakeup_def views_wakeup1)
next
  case (queue s pid q)
  then show ?case using ptable_ok_cong [of "set_proc_queue pid q s" s]
    by (simp add: set_proc_queue_def map_pid_def views_map_same view_def)
next
  case (lottery s pid t)
  then show ?case using ptable_ok_cong [of "set_lottery_params pid t s" s]
    by (simp add: set_lottery_params_def map_pid_def views_map_same view_def)
next
  case (bjf s pid pr ar er)
  then show ?case using ptable_ok_cong [of "set_a_proc_bjf_params pid pr ar er s" s]
    by (simp add: set_a_proc_bjf_params_def map_pid_def bjf_fields_def views_map_same view_def)
next
  case (bjf_all s pr ar er)
  then show ?case using ptable_ok_cong [of "set_all_bjf_params pr ar er s" s]
    by (simp add: set_all_bjf_params_def bjf_fields_def views_map_same view_def)
next
  case (other s' s)
  then show ?case using ptable_ok_cong [of s' s] by simp
qed (auto intro: step_alloc step_copy step_ready step_undo step_zombie step_reap step_waits step_sleeps step_leaves
    step_kill step_yields step_dispatch)

section \<open>From the first process on\<close>

lemma scan_replicate: "P x \<Longrightarrow> 0 < n \<Longrightarrow> scan P (replicate n x) = Some 0"
  by (cases n) auto

lemma namei_root:
  assumes "namei me [47] s = Ret (r, s')"
  shows "procs s' = procs s" "nextpid s' = nextpid s" "initproc s' = initproc s" "cpu_proc s' = cpu_proc s"
  using assms
  by (auto simp: namei_def namex_def namex_loop.simps skipelem_def Let_def iget_def upd_inode_def split: option.splits)

lemma allocproc_table:
  assumes "allocproc s = Ret (Some i, s')"
  shows "scan (\<lambda>p. p_state p = UNUSED) (procs s) = Some i" "nextpid s' = wrap32 (nextpid s + 1)" "initproc s' = initproc s"
    "cpu_proc s' = cpu_proc s" "views s' = (views s)[i := (views s ! i)\<lparr>v_state := EMBRYO, v_pid := nextpid s\<rparr>]"
proof -
  show sc: "scan (\<lambda>p. p_state p = UNUSED) (procs s) = Some i"
    using assms by (auto simp: allocproc_def Let_def split: option.splits if_splits prod.splits)
  let ?t = "(upd_proc i (\<lambda>p. p\<lparr>p_state := EMBRYO, p_pid := nextpid s\<rparr>) s)\<lparr>nextpid := wrap32 (nextpid s + 1)\<rparr>"
  obtain stk u where k: "kalloc ?t = (stk, u)" by (cases "kalloc ?t")
  note m = mem_only_ptab [OF kalloc_mem_only [OF k]]
  have i: "i < length (procs s)" using scan_SomeD(1) [OF sc] .
  show "nextpid s' = wrap32 (nextpid s + 1)" "initproc s' = initproc s" "cpu_proc s' = cpu_proc s"
    "views s' = (views s)[i := (views s ! i)\<lparr>v_state := EMBRYO, v_pid := nextpid s\<rparr>]"
    using assms sc k m i by (auto simp: allocproc_def Let_def views_def map_update view_def new_proc_fields_def split: if_splits)
qed

definition booted :: "'a ptab_scheme \<Rightarrow> bool" where
  "booted s \<longleftrightarrow>
     views s = (replicate NPROC (view zero_proc))[0 := (view zero_proc)\<lparr>v_pid := 1, v_state := RUNNABLE\<rparr>] \<and>
     nextpid s = 2 \<and> initproc s = Some 0 \<and> cpu_proc s = (\<lambda>_. None)"

text \<open>\<open>userinit\<close> on a zeroed table makes the first process.\<close>

lemma userinit_booted:
  assumes "userinit code s = Ret s'" "procs s = replicate NPROC zero_proc" "nextpid s = 1" "cpu_proc s = (\<lambda>_. None)"
  shows "booted s'"
proof -
  let ?upd = "\<lambda>p. p\<lparr>p_sz := PGSIZE, p_tf := user_trapframe, p_name := safestrcpy (p_name p) (cstr ''initcode'') 16\<rparr>"
  obtain i s1 pgdir s2 s3 cwd s4 where a: "allocproc s = Ret (Some i, s1)"
    and k: "setupkvm (s1\<lparr>initproc := Some i\<rparr>) = Ret (pgdir, s2)"
    and v: "inituvm pgdir code (upd_proc i (\<lambda>p. p\<lparr>p_pgdir := pgdir\<rparr>) s2) = Ret s3"
    and n: "namei i [47] (upd_proc i ?upd s3) = Ret (cwd, s4)"
    and s': "s' = upd_proc i (\<lambda>p. p\<lparr>p_cwd := cwd, p_state := RUNNABLE\<rparr>) s4"
    using assms(1) by (auto simp: userinit_def Let_def split: option.splits if_splits)
  note t = allocproc_table [OF a]
  have i: "i = 0" using t(1) assms(2) by (simp add: scan_replicate zero_proc_def NPROC_def)
  note m2 = mem_only_ptab [OF setupkvm_mem_only [OF k]] and m3 = mem_only_ptab [OF inituvm_mem_only [OF v]] and m4 = namei_root [OF n]
  have len: "0 < length (procs s1)" using arg_cong [OF t(5), of length] assms(2) by (simp add: NPROC_def)
  have "views s' = (views s1)[0 := (views s1 ! 0)\<lparr>v_state := RUNNABLE\<rparr>]"
    using s' m2 m3 m4 i len by (simp add: views_def map_update view_def)
  then have "views s' = (replicate NPROC (view zero_proc))[0 := (view zero_proc)\<lparr>v_pid := 1, v_state := RUNNABLE\<rparr>]"
    using t(5) i assms(2,3) by (simp add: views_def NPROC_def)
  moreover have "nextpid s' = 2" "initproc s' = Some 0" "cpu_proc s' = (\<lambda>_. None)"
    using s' m2 m3 m4 i t assms by simp_all
  ultimately show ?thesis by (simp add: booted_def)
qed

inductive ptable_reach :: "'a ptab_scheme \<Rightarrow> bool" where
  boot: "booted s \<Longrightarrow> ptable_reach s"
| step: "ptable_reach s \<Longrightarrow> ptable_step s s' \<Longrightarrow> ptable_reach s'"

lemma booted_ok: "booted s \<Longrightarrow> ptable_ok s"
proof -
  assume b: "booted s"
  have v: "view zero_proc = \<lparr>v_state = UNUSED, v_pid = 0, v_parent = None, v_chan = None\<rparr>"
    by (simp add: view_def zero_proc_def)
  have n: "views s ! j = (if j = 0 then (view zero_proc)\<lparr>v_pid := 1, v_state := RUNNABLE\<rparr> else view zero_proc)"
    if "j < NPROC" for j using b that by (simp add: booted_def nth_list_update)
  have l: "length (procs s) = NPROC" using b length_views [of s] by (simp add: booted_def)
  have rest: "nextpid s = 2" "initproc s = Some 0" "cpu_proc s = (\<lambda>_. None)" using b by (auto simp: booted_def)
  have p0: "0 < NPROC" by (simp add: NPROC_def)
  show ?thesis
  proof (rule ptable_okI)
    show "pids_ok (views s) (nextpid s)" using rest by (auto simp: pids_ok_def n l v simp del: views_nth)
    show "parents_ok (views s) (initproc s)"
      using rest p0 by (auto simp: parents_ok_def n l v alive_def simp del: views_nth)
    show "cpus_ok (views s) (cpu_proc s)" using rest by (auto simp: cpus_ok_def n l v simp del: views_nth)
  qed
qed

lemma ptable_reach_ok: "ptable_reach s \<Longrightarrow> ptable_ok s"
  by (induction rule: ptable_reach.induct) (auto intro: booted_ok ptable_step_ok)

section \<open>Properties\<close>

text \<open>C3: In every state that the process table reaches from the first process on, whatever the
  interleaving of fork, exit, wait, sleep, wakeup, kill and the schedulers of all CPUs: entries in use
  have different process identifiers; a process runs on at most one CPU, the processes on the CPUs are
  exactly those in state RUNNING; and every process but the first, dead ones included, has a parent
  that is alive, so that every dead process can be waited for.\<close>

theorem process_table_sound:
  assumes "ptable_reach s"
  shows "(\<forall>i < length (procs s). \<forall>j < length (procs s). i \<noteq> j \<and> p_state (procs s ! i) \<noteq> UNUSED \<and> p_state (procs s ! j) \<noteq> UNUSED \<longrightarrow>
       p_pid (procs s ! i) \<noteq> p_pid (procs s ! j)) \<and>
     (\<forall>i < length (procs s). p_state (procs s ! i) = RUNNING \<longleftrightarrow> (\<exists>c. cpu_proc s c = Some i)) \<and>
     (\<forall>c c' i. c \<noteq> c' \<and> cpu_proc s c = Some i \<longrightarrow> cpu_proc s c' \<noteq> Some i) \<and>
     (\<forall>i < length (procs s). p_state (procs s ! i) \<in> {SLEEPING, RUNNABLE, RUNNING, ZOMBIE} \<and> initproc s \<noteq> Some i \<longrightarrow>
       (\<exists>k < length (procs s). p_parent (procs s ! i) = Some k \<and> p_state (procs s ! k) \<in> {SLEEPING, RUNNABLE, RUNNING}))"
proof -
  have ok: "pids_ok (views s) (nextpid s)" "parents_ok (views s) (initproc s)" "cpus_ok (views s) (cpu_proc s)"
    using ptable_reach_ok [OF assms] by (auto simp: ptable_ok_def)
  have pids: "\<forall>i < length (procs s). \<forall>j < length (procs s). i \<noteq> j \<and> p_state (procs s ! i) \<noteq> UNUSED \<and> p_state (procs s ! j) \<noteq> UNUSED \<longrightarrow>
       p_pid (procs s ! i) \<noteq> p_pid (procs s ! j)" using ok(1) by (simp add: pids_ok_def)
  have run: "p_state (procs s ! i) = RUNNING \<longleftrightarrow> (\<exists>c. cpu_proc s c = Some i)" if "i < length (procs s)" for i
    using cpusD(1) [OF ok(3), of _ i] cpusD(2) [OF ok(3), of i] that by auto
  have par: "\<exists>k < length (procs s). p_parent (procs s ! i) = Some k \<and> p_state (procs s ! k) \<in> {SLEEPING, RUNNABLE, RUNNING}"
    if "i < length (procs s)" "p_state (procs s ! i) \<in> {SLEEPING, RUNNABLE, RUNNING, ZOMBIE}" "initproc s \<noteq> Some i" for i
    using parentsD(1) [OF ok(2), of i] parentsD(3) [OF ok(2), of i] that by (auto simp: alive_def)
  show ?thesis using pids run par cpusD(3) [OF ok(3)] by blast
qed

definition first_process :: ptab where
  "first_process = \<lparr>mem = \<lambda>_. 0, freelist = 0, use_lock = True, kend = 0, kdata = 0,
     procs = (replicate NPROC zero_proc)[0 := zero_proc\<lparr>p_pid := 1, p_state := RUNNABLE\<rparr>],
     nextpid = 2, initproc = Some 0, ticks = 0, cpu_proc = \<lambda>_. None\<rparr>"

theorem process_table_sound_witness:
  "\<exists>s :: ptab. ptable_reach s \<and> (\<forall>c c' i. c \<noteq> c' \<and> cpu_proc s c = Some i \<longrightarrow> cpu_proc s c' \<noteq> Some i)"
proof -
  have "booted first_process" by (simp add: booted_def first_process_def views_def map_update view_def)
  then have r: "ptable_reach first_process" by (rule ptable_reach.boot)
  show ?thesis using process_table_sound [OF r] r by blast
qed

end
