(* ===== verification/Kernel_Steps.thy ===== *)
theory Kernel_Steps
  imports Proc_Invariant
begin

text \<open>
  The steps of the rest of the kernel, as a component that owns some wait channels sees them: every stretch of
  code that changes the process table (\<^verbatim>\<open>src/xv6/proc.c\<close>), run by processes that are not inside a sleep of
  the component, on wait channels of others.  Such a step neither wakes the sleepers of the component nor puts
  another process on its channels.
\<close>

section \<open>Sleepers of a component\<close>

text \<open>The process is inside a sleep on one of the channels \<open>own\<close>: asleep, or woken and not yet back from \<open>sleep\<close>,
  which clears the channel.\<close>

definition waits_on :: "(chan \<Rightarrow> bool) \<Rightarrow> pview \<Rightarrow> bool" where
  "waits_on own v \<longleftrightarrow> (case v_chan v of None \<Rightarrow> False | Some ch \<Rightarrow> own ch)"

definition waiters_alive :: "(chan \<Rightarrow> bool) \<Rightarrow> 'a ptab_scheme \<Rightarrow> bool" where
  "waiters_alive own s \<longleftrightarrow> (\<forall>v \<in> set (views s). waits_on own v \<longrightarrow> alive v)"

definition undisturbed :: "(chan \<Rightarrow> bool) \<Rightarrow> pview \<Rightarrow> pview \<Rightarrow> bool" where
  "undisturbed own v v' \<longleftrightarrow>
     (if waits_on own v then v_chan v' = v_chan v \<and> (v_state v' = SLEEPING \<longleftrightarrow> v_state v = SLEEPING) \<and> (alive v \<longrightarrow> alive v')
      else \<not> waits_on own v')"

definition quiet :: "(chan \<Rightarrow> bool) \<Rightarrow> 'a ptab_scheme \<Rightarrow> 'a ptab_scheme \<Rightarrow> bool" where
  "quiet own s s' \<longleftrightarrow> list_all2 (undisturbed own) (views s) (views s')"

section \<open>The steps\<close>

inductive rest_step :: "(chan \<Rightarrow> bool) \<Rightarrow> 'a ptab_scheme \<Rightarrow> 'a ptab_scheme \<Rightarrow> bool" for own where
  alloc: "allocproc s = Ret (r, s') \<Longrightarrow> nextpid s < 2 ^ 31 - 1 \<Longrightarrow> rest_step own s s'"
| copy: "cpu_proc s c = Some me \<Longrightarrow> np < length (procs s) \<Longrightarrow> p_state (procs s ! np) = EMBRYO \<Longrightarrow>
    rest_step own s (fork_copy me np pgdir s)"
| ready: "np < length (procs s) \<Longrightarrow> p_state (procs s ! np) = EMBRYO \<Longrightarrow> p_parent (procs s ! np) \<noteq> None \<Longrightarrow>
    rest_step own s (fork_ready np s)"
| undo: "np < length (procs s) \<Longrightarrow> p_state (procs s ! np) = EMBRYO \<Longrightarrow> p_parent (procs s ! np) = None \<Longrightarrow>
    fork_undo np s = Ret s' \<Longrightarrow> rest_step own s s'"
| zombie: "cpu_proc s c = Some me \<Longrightarrow> \<not> waits_on own (views s ! me) \<Longrightarrow> initproc s \<noteq> Some me \<Longrightarrow>
    rest_step own s (scheduler_return c (exit_zombie me s))"
| reap: "cpu_proc s c = Some me \<Longrightarrow> wait_run me s = Ret (Some pid, s') \<Longrightarrow> rest_step own s s'"
| waits: "cpu_proc s c = Some me \<Longrightarrow> \<not> waits_on own (views s ! me) \<Longrightarrow> wait_run me s = Ret (None, s') \<Longrightarrow>
    rest_step own s (scheduler_return c s')"
| sleeps: "cpu_proc s c = Some me \<Longrightarrow> \<not> waits_on own (views s ! me) \<Longrightarrow> \<not> own ch \<Longrightarrow>
    rest_step own s (scheduler_return c (sleep_enter me ch s))"
| leaves: "cpu_proc s c = Some me \<Longrightarrow> \<not> waits_on own (views s ! me) \<Longrightarrow> rest_step own s (sleep_leave me s)"
| wakes: "\<not> own ch \<Longrightarrow> rest_step own s (wakeup ch s)"
| kills: "kill pid s = (r, s') \<Longrightarrow> \<forall>v \<in> set (views s). v_pid v = pid \<longrightarrow> \<not> waits_on own v \<Longrightarrow> rest_step own s s'"
| yields: "cpu_proc s c = Some me \<Longrightarrow> rest_step own s (scheduler_return c (yield_enter fl me s))"
| dispatch: "cpu_proc s c = None \<Longrightarrow> scheduler_dispatch fl c s = Ret (r, s') \<Longrightarrow> rest_step own s s'"
| grows: "growproc me n s = Ret (r, s') \<Longrightarrow> rest_step own s s'"
| ticks: "rest_step own s (wakeup TicksChan (s\<lparr>ticks := ticks s + 1\<rparr>))"
| queue: "rest_step own s (set_proc_queue pid q s)"
| lottery: "rest_step own s (set_lottery_params pid t s)"
| bjf: "rest_step own s (set_a_proc_bjf_params pid pr ar er s)"
| bjf_all: "rest_step own s (set_all_bjf_params pr ar er s)"
| other: "views s' = views s \<Longrightarrow> nextpid s' = nextpid s \<Longrightarrow> initproc s' = initproc s \<Longrightarrow> cpu_proc s' = cpu_proc s \<Longrightarrow>
    rest_step own s s'"

lemma rest_ptable_step: "rest_step own s s' \<Longrightarrow> ptable_step s s'"
  by (induction rule: rest_step.induct) (blast intro: ptable_step.intros)+

section \<open>A step of the rest of the kernel is quiet\<close>

lemma undisturbed_refl [simp]: "undisturbed own v v"
  by (simp add: undisturbed_def)

lemma undisturbed_trans: "undisturbed own u v \<Longrightarrow> undisturbed own v w \<Longrightarrow> undisturbed own u w"
  by (auto simp: undisturbed_def waits_on_def split: if_splits)

lemma quiet_refl [simp]: "quiet own s s"
  by (simp add: quiet_def list.rel_refl)

lemma quiet_trans: "quiet own s t \<Longrightarrow> quiet own t u \<Longrightarrow> quiet own s u"
  unfolding quiet_def by (rule list_all2_trans [OF undisturbed_trans])

lemma quietI: "length (procs s') = length (procs s) \<Longrightarrow> (\<And>j. j < length (procs s) \<Longrightarrow> undisturbed own (views s ! j) (views s' ! j)) \<Longrightarrow> quiet own s s'"
  by (simp add: quiet_def list_all2_conv_all_nth del: views_nth)

lemma quietD:
  assumes "quiet own s s'"
  shows "length (procs s') = length (procs s)" "j < length (procs s) \<Longrightarrow> undisturbed own (views s ! j) (views s' ! j)"
  using list_all2_lengthD [OF assms [unfolded quiet_def]] list_all2_nthD [OF assms [unfolded quiet_def], of j] by simp_all

lemma quiet_views: "views s' = views s \<Longrightarrow> quiet own s s'"
  by (simp add: quiet_def list.rel_refl)

lemma quiet_entry:
  assumes "views s' = (views s)[i := v]" "i < length (procs s) \<Longrightarrow> undisturbed own (views s ! i) v"
  shows "quiet own s s'"
proof (cases "i < length (procs s)")
  case True
  then show ?thesis using assms by (auto simp: quiet_def list_all2_conv_all_nth nth_list_update simp del: views_nth)
qed (use assms in \<open>simp add: quiet_views list_update_beyond\<close>)

lemma quiet_wakeup1: "\<not> own ch \<Longrightarrow> quiet own s (wakeup1 ch s)"
  by (rule quietI) (auto simp: undisturbed_def waits_on_def wake_one_def)

lemma quiet_wakeup1_proc: "\<forall>j. \<not> own (ProcChan j) \<Longrightarrow> quiet own s (wakeup1_proc p s)"
  by (auto simp: wakeup1_proc_def quiet_wakeup1 split: option.splits)

lemma quiet_upd_same:
  "(\<And>p. v_chan (view (f p)) = v_chan (view p)) \<Longrightarrow> (\<And>p. v_state (view (f p)) = v_state (view p)) \<Longrightarrow> quiet own s (upd_proc i f s)"
  by (rule quiet_entry [of _ _ i "view (f (procs s ! i))"]) (auto simp: views_def map_update undisturbed_def waits_on_def alive_def)

lemma quiet_reparent: "\<forall>j. \<not> own (ProcChan j) \<Longrightarrow> quiet own s (reparent me is s)"
proof (induction "is" arbitrary: s)
  case (Cons i "is")
  let ?s1 = "upd_proc i (\<lambda>p. p\<lparr>p_parent := initproc s\<rparr>) s"
  have "quiet own s ?s1" by (rule quiet_upd_same) simp_all
  then show ?case
    using Cons.IH [OF Cons.prems, of s] Cons.IH [OF Cons.prems, of ?s1] Cons.IH [OF Cons.prems, of "wakeup1_proc (initproc ?s1) ?s1"]
      quiet_wakeup1_proc [OF Cons.prems, of ?s1 "initproc ?s1"] by (auto simp: Let_def intro: quiet_trans)
qed simp

lemma quiet_exit_zombie:
  assumes "\<forall>j. \<not> own (ProcChan j)" "\<not> waits_on own (views s ! me)" "me < length (procs s)"
  shows "quiet own s (exit_zombie me s)"
proof -
  let ?t = "wakeup1_proc (p_parent (procs s ! me)) s"
  let ?u = "reparent me [0..<length (procs ?t)] ?t"
  have q: "quiet own s ?u" by (rule quiet_trans [OF quiet_wakeup1_proc quiet_reparent]) (rule assms(1))+
  note l = quietD(1) [OF q]
  have "\<not> waits_on own (views ?u ! me)" using quietD(2) [OF q assms(3)] assms(2) by (simp add: undisturbed_def del: views_nth)
  then have "quiet own ?u (upd_proc me (\<lambda>p. p\<lparr>p_state := ZOMBIE\<rparr>) ?u)"
    by (intro quiet_entry [of _ _ me "(views ?u ! me)\<lparr>v_state := ZOMBIE\<rparr>"])
      (use assms(3) l in \<open>auto simp: undisturbed_def waits_on_def views_def map_update view_def\<close>)
  then show ?thesis using q by (auto simp: exit_zombie_def Let_def intro: quiet_trans)
qed

lemma quiet_dead_entry:
  assumes "waiters_alive own s" "i < length (procs s)" "\<not> alive (views s ! i)" "views s' = (views s)[i := v]" "v_chan v = v_chan (views s ! i)"
  shows "quiet own s s'"
proof (rule quiet_entry [OF assms(4)])
  have "views s ! i \<in> set (views s)" using assms(2) by (simp del: views_nth)
  then have "\<not> waits_on own (views s ! i)" using assms(1,3) unfolding waiters_alive_def by blast
  then show "undisturbed own (views s ! i) v" using assms(5) by (simp add: undisturbed_def waits_on_def del: views_nth)
qed

lemma allocproc_views:
  assumes "allocproc s = Ret (r, s')"
  shows "views s' = views s \<or> (\<exists>i v. i < length (procs s) \<and> p_state (procs s ! i) = UNUSED \<and> views s' = (views s)[i := v] \<and> v_chan v = p_chan (procs s ! i))"
proof (cases "scan (\<lambda>p. p_state p = UNUSED) (procs s)")
  case None
  then show ?thesis using assms by (simp add: allocproc_def)
next
  case (Some i)
  have i: "i < length (procs s)" "p_state (procs s ! i) = UNUSED" using scan_SomeD [OF Some] by auto
  let ?t = "(upd_proc i (\<lambda>p. p\<lparr>p_state := EMBRYO, p_pid := nextpid s\<rparr>) s)\<lparr>nextpid := wrap32 (nextpid s + 1)\<rparr>"
  obtain stk u where k: "kalloc ?t = (stk, u)" by (cases "kalloc ?t")
  note m = mem_only_ptab [OF kalloc_mem_only [OF k]]
  have "views s' = (views s)[i := (views s ! i)\<lparr>v_state := (if stk = 0 then UNUSED else EMBRYO), v_pid := nextpid s\<rparr>]"
    using assms Some k m i by (auto simp: allocproc_def Let_def views_def map_update view_def new_proc_fields_def split: if_splits)
  then show ?thesis using i by (intro disjI2 exI conjI) (auto simp: view_def)
qed

lemma quiet_alloc:
  assumes "waiters_alive own s" "allocproc s = Ret (r, s')" shows "quiet own s s'"
  using allocproc_views [OF assms(2)] quiet_dead_entry [OF assms(1), of _ s'] by (auto simp: quiet_views alive_def)

lemma quiet_reap:
  assumes "waiters_alive own s" "wait_run me s = Ret (Some pid, s')" shows "quiet own s s'"
proof (cases "scan (\<lambda>p. p_parent p = Some me \<and> p_state p = ZOMBIE) (procs s)")
  case None
  then show ?thesis using assms by (auto simp: wait_run_def split: if_splits)
next
  case (Some i)
  then have i: "i < length (procs s)" "p_state (procs s ! i) = ZOMBIE" using scan_SomeD [OF Some] by auto
  have w: "wait_reap i s = Ret (pid, s')" using assms(2) Some by (auto simp: wait_run_def)
  show ?thesis by (rule quiet_dead_entry [OF assms(1) i(1) _ wait_reap_table(1) [OF w i(1)]]) (use i in \<open>simp_all add: alive_def\<close>)
qed

lemma quiet_sleep:
  assumes "\<not> waits_on own (views s ! me)" "\<not> own ch"
  shows "quiet own s (scheduler_return c (sleep_enter me ch s))"
proof (rule quiet_entry)
  show "views (scheduler_return c (sleep_enter me ch s)) = (views s)[me := (view (procs s ! me))\<lparr>v_chan := Some ch, v_state := SLEEPING\<rparr>]"
    by (simp add: sleep_enter_def views_def map_update view_def)
qed (use assms in \<open>auto simp: undisturbed_def waits_on_def\<close>)

lemma quiet_kill:
  assumes "kill pid s = (r, s')" "\<forall>v \<in> set (views s). v_pid v = pid \<longrightarrow> \<not> waits_on own v" shows "quiet own s s'"
proof (cases "scan (\<lambda>p. p_pid p = pid) (procs s)")
  case None
  then show ?thesis using assms by (simp add: kill_def)
next
  case (Some i)
  then have i: "i < length (procs s)" "p_pid (procs s ! i) = pid" using scan_SomeD [OF Some] by auto
  have "view (procs s ! i) \<in> set (views s)" using i(1) by (simp add: views_def)
  then have "\<not> waits_on own (view (procs s ! i))" using assms(2) i(2) by auto
  then show ?thesis using assms(1) Some i(1)
    by (intro quiet_entry [of s' s i "view (procs s' ! i)"]) (auto simp: kill_def views_def map_update undisturbed_def waits_on_def)
qed

lemma quiet_dispatch:
  assumes "scheduler_dispatch fl c s = Ret (r, s')" shows "quiet own s s'"
proof (cases r)
  case None
  then have "s' = fix_queues s"
    using assms by (auto simp: scheduler_dispatch_def scheduler_choose_def Let_def split: option.splits)
  then show ?thesis by (simp add: quiet_views view_fix_queues)
next
  case (Some i)
  note d = scheduler_dispatch_cases [OF assms [unfolded Some]]
  have "p_state (procs (fix_queues s) ! i) = RUNNABLE" by (rule choice_level_state [OF d(2)])
  then have st: "p_state (procs s ! i) = RUNNABLE" using d(1) by (simp add: fix_queues_nth)
  have v: "views s' = (views s)[i := (views s ! i)\<lparr>v_state := RUNNING\<rparr>]"
    using d view_fix_queues(1) [of s] by (simp add: Let_def views_def map_update) (simp add: view_def fix_queues_nth fix_one_def)
  show ?thesis by (rule quiet_entry [OF v]) (use st in \<open>simp add: undisturbed_def waits_on_def alive_def\<close>)
qed

text \<open>The entry \<open>np\<close> of a child that its parent is still filling in.\<close>

lemma quiet_fork:
  assumes "waiters_alive own s" "np < length (procs s)" "p_state (procs s ! np) = EMBRYO"
  shows "quiet own s (fork_copy me np pgdir s)" "quiet own s (fork_ready np s)" "fork_undo np s = Ret s' \<Longrightarrow> quiet own s s'"
proof -
  have na: "\<not> alive (views s ! np)" using assms(2,3) by (simp add: alive_def)
  show "quiet own s (fork_copy me np pgdir s)"
    by (rule quiet_dead_entry [OF assms(1,2) na, of _ "(views s ! np)\<lparr>v_parent := Some me\<rparr>"])
      (use assms(2) in \<open>simp_all add: fork_copy_def Let_def views_def map_update view_def\<close>)
  show "quiet own s (fork_ready np s)"
    by (rule quiet_dead_entry [OF assms(1,2) na, of _ "(views s ! np)\<lparr>v_state := RUNNABLE\<rparr>"])
      (use assms(2) in \<open>simp_all add: fork_ready_def views_def map_update view_def\<close>)
  assume "fork_undo np s = Ret s'"
  then obtain t where t: "kfree (p_kstack (procs s ! np)) s = Ret t" "s' = upd_proc np (\<lambda>p. p\<lparr>p_kstack := 0, p_state := UNUSED\<rparr>) t"
    by (auto simp: fork_undo_def)
  note m = mem_only_ptab [OF kfree_mem_only [OF t(1)]]
  show "quiet own s s'"
    by (rule quiet_dead_entry [OF assms(1,2) na, of _ "(views s ! np)\<lparr>v_state := UNUSED\<rparr>"])
      (use assms(2) m t(2) in \<open>simp_all add: views_def map_update view_def\<close>)
qed

lemma quiet_yield:
  assumes "ptable_ok s" "cpu_proc s c = Some me" shows "quiet own s (scheduler_return c (yield_enter fl me s))"
  by (rule quiet_entry [of _ _ me "(views s ! me)\<lparr>v_state := RUNNABLE\<rparr>"])
    (use running_on [OF assms] in \<open>auto simp: yield_enter_def views_def map_update view_def undisturbed_def waits_on_def alive_def\<close>)

lemma quiet_leave: "\<not> waits_on own (views s ! me) \<Longrightarrow> quiet own s (sleep_leave me s)"
proof (rule quiet_entry)
  show "views (sleep_leave me s) = (views s)[me := (view (procs s ! me))\<lparr>v_chan := None\<rparr>]"
    by (simp add: sleep_leave_def views_def map_update view_def)
qed (auto simp: undisturbed_def waits_on_def)

lemma quiet_ticks:
  assumes "\<not> own TicksChan" shows "quiet own s (wakeup TicksChan (s\<lparr>ticks := ticks s + 1\<rparr>))"
proof -
  have "quiet own s (s\<lparr>ticks := ticks s + 1\<rparr>)" by (rule quiet_views) (simp add: views_def)
  then show ?thesis using quiet_wakeup1 [of own TicksChan "s\<lparr>ticks := ticks s + 1\<rparr>"] assms by (auto simp: wakeup_def intro: quiet_trans)
qed

lemmas setter_defs = set_proc_queue_def set_lottery_params_def set_a_proc_bjf_params_def set_all_bjf_params_def map_pid_def bjf_fields_def

lemma quiet_setters:
  "quiet own s (set_proc_queue pid q s)" "quiet own s (set_lottery_params pid t s)" "quiet own s (set_a_proc_bjf_params pid pr ar er s)"
  "quiet own s (set_all_bjf_params pr ar er s)"
  by (rule quiet_views, simp add: setter_defs views_map_same view_def)+

lemma rest_step_quiet:
  assumes "rest_step own s s'" "ptable_ok s" "waiters_alive own s" "\<forall>j. \<not> own (ProcChan j)" "\<not> own TicksChan"
  shows "quiet own s s'"
  using assms
proof (induction rule: rest_step.induct)
  case (zombie s c me)
  then have "quiet own s (exit_zombie me s)" using running_on(1) [of s c me] by (intro quiet_exit_zombie) auto
  then show ?case by (simp add: quiet_def)
next
  case (waits s c me s')
  then have "s' = sleep_enter me (ProcChan me) s" by (auto simp: wait_run_def split: option.splits if_splits)
  then show ?case using waits quiet_sleep [of own s me "ProcChan me" c] by simp
next
  case (wakes ch s)
  then show ?case by (simp add: wakeup_def quiet_wakeup1)
next
  case (grows me n s r s')
  then show ?case by (simp add: quiet_views growproc_views)
qed (auto intro: quiet_alloc quiet_fork quiet_reap quiet_sleep quiet_kill quiet_dispatch quiet_yield quiet_leave quiet_ticks quiet_setters quiet_views)

lemma quiet_waiters_alive:
  assumes "quiet own s s'" "waiters_alive own s" shows "waiters_alive own s'"
proof -
  have "alive (views s' ! j)" if "j < length (procs s)" "waits_on own (views s' ! j)" for j
  proof -
    have k: "undisturbed own (views s ! j) (views s' ! j)" by (rule quietD(2) [OF assms(1) that(1)])
    then have w: "waits_on own (views s ! j)" using that(2) by (auto simp: undisturbed_def simp del: views_nth split: if_splits)
    have "views s ! j \<in> set (views s)" using that(1) by (simp del: views_nth)
    then have "alive (views s ! j)" using w assms(2) by (simp add: waiters_alive_def del: views_nth)
    then show ?thesis using k w by (simp add: undisturbed_def del: views_nth)
  qed
  then show ?thesis using quietD(1) [OF assms(1)] by (auto simp: waiters_alive_def in_set_conv_nth simp del: views_nth)
qed

section \<open>The interface\<close>

text \<open>What a component needs of its channels: they are neither entries of the process table, on which \<open>exit\<close> wakes the
  parent, nor the tick counter.\<close>

locale wait_channels =
  fixes own :: "chan \<Rightarrow> bool"
  assumes not_proc: "\<not> own (ProcChan j)" and not_ticks: "\<not> own TicksChan"
begin

lemma rest_keeps:
  assumes "rest_step own s s'" "ptable_ok s" "waiters_alive own s"
  shows "quiet own s s' \<and> ptable_ok s' \<and> waiters_alive own s'"
proof -
  have "quiet own s s'" using rest_step_quiet [OF assms] not_proc not_ticks by simp
  then show ?thesis using quiet_waiters_alive assms(2,3) ptable_step_ok [OF rest_ptable_step [OF assms(1)]] by blast
qed

end

section \<open>A table to start from\<close>

text \<open>Three processes of a table of \<open>NPROC\<close> entries, running on CPUs 0, 1 and 2.\<close>

definition running_proc :: "int \<Rightarrow> nat option \<Rightarrow> proc" where
  "running_proc pid parent = zero_proc\<lparr>p_pid := pid, p_parent := parent, p_state := RUNNING, p_queue := 1,
     p_kstack := 0x80400000, p_pgdir := 0x80401000\<rparr>"

definition three_running :: ptab where
  "three_running = \<lparr>mem = \<lambda>_. 0, freelist = 0, use_lock = True, kend = 0, kdata = 0,
     procs = [running_proc 1 None, running_proc 2 (Some 0), running_proc 3 (Some 0)] @ replicate 61 zero_proc,
     nextpid = 4, initproc = Some 0, ticks = 5,
     cpu_proc = (\<lambda>c. if c < 3 then Some c else None)\<rparr>"

lemma three_running_nth:
  "procs three_running ! 0 = running_proc 1 None" "procs three_running ! 1 = running_proc 2 (Some 0)" "procs three_running ! 2 = running_proc 3 (Some 0)"
  "length (procs three_running) = NPROC" "3 \<le> i \<Longrightarrow> i < NPROC \<Longrightarrow> procs three_running ! i = zero_proc"
  by (auto simp: three_running_def NPROC_def nth_append nth_Cons split: nat.splits)

lemma less_3_cases: "(i :: nat) < 3 \<longleftrightarrow> i = 0 \<or> i = 1 \<or> i = 2"
  by auto

lemma three_running_entry:
  assumes "i < NPROC"
  shows "views three_running ! i = (if i < 3 then view (running_proc (int i + 1) (if i = 0 then None else Some 0)) else view zero_proc)"
  using assms three_running_nth by (auto simp: less_3_cases)

lemma three_running_ok: "ptable_ok three_running"
proof (rule ptable_okI)
  note e = three_running_entry and n = three_running_nth(4)
  have z: "v_state (view zero_proc) = UNUSED" "v_parent (view zero_proc) = None" by (simp_all add: zero_proc_def)
  have r: "v_state (view (running_proc p q)) = RUNNING" "v_pid (view (running_proc p q)) = p" "v_parent (view (running_proc p q)) = q" for p q
    by (simp_all add: running_proc_def)
  have t: "nextpid three_running = 4" "initproc three_running = Some 0" "cpu_proc three_running = (\<lambda>c. if c < 3 then Some c else None)"
    by (simp_all add: three_running_def)
  show "pids_ok (views three_running) (nextpid three_running)"
    by (auto simp: pids_ok_def e n t z r simp del: views_nth view_simps split: if_splits)
  show "parents_ok (views three_running) (initproc three_running)"
    by (auto simp: parents_ok_def e n t z r alive_def NPROC_def simp del: views_nth view_simps split: if_splits)
  show "cpus_ok (views three_running) (cpu_proc three_running)"
    by (auto simp: cpus_ok_def e n t z r NPROC_def simp del: views_nth view_simps split: if_splits)
qed

end
