(* ===== verification/Semaphore_Runs.thy ===== *)
theory Semaphore_Runs
  imports Kernel_Steps
begin

text \<open>
  The semaphores of \<^verbatim>\<open>src/xv6/proc.c\<close> in the running kernel.  A state holds the process table and all semaphores;
  a step is a stretch of \<open>sem_acquire\<close> or \<open>sem_release\<close> under the lock of a semaphore, run by the process of some
  CPU, or a step of the rest of the kernel.  Who is asleep and who has been woken is read off the process table.
\<close>

section \<open>The system\<close>

text \<open>\<open>inside S i\<close> is the semaphore in whose \<open>sem_acquire\<close> process \<open>i\<close> sleeps, which the process has on its kernel
  stack.  The last four fields record the history of each semaphore: the processes that have gone to sleep on it and
  those that its releases have made runnable, in order, and the finished calls.\<close>

record semsys =
  tab :: ptab
  sems :: "semaphore list"
  inside :: "nat \<Rightarrow> nat"
  queued :: "nat \<Rightarrow> nat list"
  woken :: "nat \<Rightarrow> nat list"
  acquired :: "nat \<Rightarrow> nat"
  released :: "nat \<Rightarrow> nat"

definition sem_chan :: "chan \<Rightarrow> bool" where
  "sem_chan ch \<longleftrightarrow> (case ch of PidChan j \<Rightarrow> True | _ \<Rightarrow> False)"

interpretation sem: wait_channels sem_chan
  by unfold_locales (simp_all add: sem_chan_def)

text \<open>The processes that sleep in \<open>s\<close> and no longer sleep in \<open>s'\<close>.\<close>

definition awakened :: "ptab \<Rightarrow> ptab \<Rightarrow> nat list" where
  "awakened s s' =
     filter (\<lambda>i. p_state (procs s ! i) = SLEEPING \<and> p_state (procs s' ! i) \<noteq> SLEEPING) [0..<length (procs s)]"

inductive sem_step :: "semsys \<Rightarrow> semsys \<Rightarrow> bool" where
  acquires: "cpu_proc (tab S) c = Some me \<Longrightarrow> \<not> waits_on sem_chan (views (tab S) ! me) \<Longrightarrow> k < length (sems S) \<Longrightarrow>
    sem_acquire_enter me (sems S ! k) (tab S) = (True, sm, s') \<Longrightarrow>
    sem_step S (S\<lparr>tab := s', sems := (sems S)[k := sm], acquired := (acquired S)(k := Suc (acquired S k))\<rparr>)"
| waits: "cpu_proc (tab S) c = Some me \<Longrightarrow> \<not> waits_on sem_chan (views (tab S) ! me) \<Longrightarrow> k < length (sems S) \<Longrightarrow>
    sem_acquire_enter me (sems S ! k) (tab S) = (False, sm, s') \<Longrightarrow>
    sem_step S (S\<lparr>tab := scheduler_return c s', sems := (sems S)[k := sm], inside := (inside S)(me := k),
      queued := (queued S)(k := queued S k @ [me])\<rparr>)"
| resumes: "cpu_proc (tab S) c = Some me \<Longrightarrow> waits_on sem_chan (views (tab S) ! me) \<Longrightarrow> k = inside S me \<Longrightarrow>
    sem_acquire_resume me (sems S ! k) (tab S) = (sm, s') \<Longrightarrow>
    sem_step S (S\<lparr>tab := s', sems := (sems S)[k := sm], acquired := (acquired S)(k := Suc (acquired S k))\<rparr>)"
| releases: "cpu_proc (tab S) c = Some me \<Longrightarrow> \<not> waits_on sem_chan (views (tab S) ! me) \<Longrightarrow> k < length (sems S) \<Longrightarrow>
    sem_release (sems S ! k) (tab S) = (sm, s') \<Longrightarrow>
    sem_step S (S\<lparr>tab := s', sems := (sems S)[k := sm], woken := (woken S)(k := woken S k @ awakened (tab S) s'),
      released := (released S)(k := Suc (released S k))\<rparr>)"
| rest: "rest_step sem_chan (tab S) s' \<Longrightarrow> sem_step S (S\<lparr>tab := s'\<rparr>)"

text \<open>A sound process table in which no process is inside \<open>sem_acquire\<close>, and \<open>sem_init\<close> has just given the semaphores
  the values \<open>vs\<close>.\<close>

definition sem_start :: "int list \<Rightarrow> semsys \<Rightarrow> bool" where
  "sem_start vs S \<longleftrightarrow>
     ptable_ok (tab S) \<and> length (procs (tab S)) = NPROC \<and> (\<forall>v \<in> set (views (tab S)). \<not> waits_on sem_chan v) \<and>
     length (sems S) = length vs \<and>
     (\<forall>k < length vs. \<exists>sm. length (sem_queue sm) = nat MAX_SEMAPHORE_PROC \<and> sems S ! k = sem_init (vs ! k) sm) \<and>
     queued S = (\<lambda>_. []) \<and> woken S = (\<lambda>_. []) \<and> acquired S = (\<lambda>_. 0) \<and> released S = (\<lambda>_. 0)"

inductive sem_reach :: "int list \<Rightarrow> semsys \<Rightarrow> bool" for vs where
  init: "sem_start vs S \<Longrightarrow> sem_reach vs S"
| step: "sem_reach vs S \<Longrightarrow> sem_step S S' \<Longrightarrow> sem_reach vs S'"

section \<open>The invariant\<close>

text \<open>Process \<open>i\<close> sleeps in \<open>sem_acquire(k)\<close>; it has been woken there and has not run yet.\<close>

definition sleeper :: "semsys \<Rightarrow> nat \<Rightarrow> nat \<Rightarrow> bool" where
  "sleeper S k i \<longleftrightarrow> i < length (procs (tab S)) \<and> p_chan (procs (tab S) ! i) = Some (PidChan i) \<and>
     p_state (procs (tab S) ! i) = SLEEPING \<and> inside S i = k"

definition promised :: "semsys \<Rightarrow> nat \<Rightarrow> nat \<Rightarrow> bool" where
  "promised S k i \<longleftrightarrow> i < length (procs (tab S)) \<and> p_chan (procs (tab S) ! i) = Some (PidChan i) \<and>
     p_state (procs (tab S) ! i) \<noteq> SLEEPING \<and> inside S i = k"

definition tab_inv :: "semsys \<Rightarrow> bool" where
  "tab_inv S \<longleftrightarrow>
     ptable_ok (tab S) \<and> length (procs (tab S)) = NPROC \<and> waiters_alive sem_chan (tab S) \<and>
     (\<forall>i < NPROC. waits_on sem_chan (views (tab S) ! i) \<longrightarrow>
        p_chan (procs (tab S) ! i) = Some (PidChan i) \<and> inside S i < length (sems S))"

definition ring_inv :: "semsys \<Rightarrow> nat \<Rightarrow> bool" where
  "ring_inv S k \<longleftrightarrow>
     sem_ok (sems S ! k) \<and> queued S k = woken S k @ sem_procs (sems S ! k) \<and> distinct (sem_procs (sems S ! k)) \<and>
     set (sem_procs (sems S ! k)) = {i. sleeper S k i}"

lemma waits_on_sem [simp]: "waits_on sem_chan v \<longleftrightarrow> (\<exists>j. v_chan v = Some (PidChan j))"
  by (auto simp: waits_on_def sem_chan_def split: option.splits chan.splits)

lemma tab_invD:
  assumes "tab_inv S"
  shows "ptable_ok (tab S)" "length (procs (tab S)) = NPROC" "waiters_alive sem_chan (tab S)"
    "i < NPROC \<Longrightarrow> p_chan (procs (tab S) ! i) = Some (PidChan j) \<Longrightarrow> j = i \<and> inside S i < length (sems S)"
  using assms by (auto simp: tab_inv_def)

lemma running_not_sleeper:
  assumes "tab_inv S" "cpu_proc (tab S) c = Some me"
  shows "me < length (procs (tab S))" "p_state (procs (tab S) ! me) = RUNNING" "\<not> sleeper S k me"
  using running_on [OF tab_invD(1) [OF assms(1)] assms(2)] by (auto simp: sleeper_def)

text \<open>A process that is not asleep on a semaphore finds room in its ring.\<close>

lemma ring_room:
  assumes "tab_inv S" "ring_inv S k" "cpu_proc (tab S) c = Some me"
  shows "length (sem_procs (sems S ! k)) < nat MAX_SEMAPHORE_PROC"
proof -
  note r = running_not_sleeper [OF assms(1,3)]
  have "set (sem_procs (sems S ! k)) \<subseteq> {..<NPROC} - {me}"
    using assms(2) r(3) [of k] tab_invD(2) [OF assms(1)] by (auto simp: ring_inv_def sleeper_def)
  then have "card (set (sem_procs (sems S ! k))) \<le> card ({..<NPROC} - {me})" by (rule card_mono [rotated]) simp
  also have "\<dots> = NPROC - 1" using r(1) tab_invD(2) [OF assms(1)] by simp
  finally have "card (set (sem_procs (sems S ! k))) < 64" by (simp add: NPROC_def)
  moreover have "card (set (sem_procs (sems S ! k))) = length (sem_procs (sems S ! k))"
    by (rule distinct_card) (use assms(2) in \<open>simp add: ring_inv_def\<close>)
  ultimately show ?thesis by (simp add: MAX_SEMAPHORE_PROC_def)
qed

lemma enqueue_ring:
  assumes "tab_inv S" "ring_inv S k" "cpu_proc (tab S) c = Some me"
  shows "sem_ok (sem_enqueue me (sems S ! k))" "sem_procs (sem_enqueue me (sems S ! k)) = sem_procs (sems S ! k) @ [me]"
  using waiting.put_law [of "sems S ! k" me] ring_room [OF assms] assms(2) by (simp_all add: ring_inv_def)

text \<open>A wakeup on the channel of a sleeper reaches that process and no other.\<close>

lemma wakeup_sleeper:
  assumes "tab_inv S" "sleeper S k j"
  shows "procs (wakeup (PidChan j) (tab S)) = (procs (tab S))[j := (procs (tab S) ! j)\<lparr>p_state := RUNNABLE\<rparr>]"
proof (rule nth_equalityI)
  fix i assume i: "i < length (procs (wakeup (PidChan j) (tab S)))"
  then have "i < NPROC" "j < length (procs (tab S))" using tab_invD(2) [OF assms(1)] assms(2) by (simp_all add: wakeup_def sleeper_def)
  then show "procs (wakeup (PidChan j) (tab S)) ! i = (procs (tab S))[j := (procs (tab S) ! j)\<lparr>p_state := RUNNABLE\<rparr>] ! i"
    using assms(2) tab_invD(4) [OF assms(1), of i j] i
    by (cases "i = j") (auto simp: wakeup_def wake_one_def sleeper_def)
qed (simp add: wakeup_def)

lemma filter_single: "distinct xs \<Longrightarrow> j \<in> set xs \<Longrightarrow> filter (\<lambda>i. i = j) xs = [j]"
  by (induction xs) (auto simp: filter_empty_conv)

lemma awakened_one:
  assumes "tab_inv S" "sleeper S k j" shows "awakened (tab S) (wakeup (PidChan j) (tab S)) = [j]"
proof -
  have "awakened (tab S) (wakeup (PidChan j) (tab S)) = filter (\<lambda>i. i = j) [0..<length (procs (tab S))]"
    unfolding awakened_def wakeup_sleeper [OF assms]
    by (rule filter_cong) (use assms(2) in \<open>auto simp: sleeper_def nth_list_update\<close>)
  also have "\<dots> = [j]" using assms(2) by (intro filter_single) (auto simp: sleeper_def)
  finally show ?thesis .
qed

lemma awakened_none [simp]: "awakened s s = []"
  by (simp add: awakened_def)

section \<open>Every step keeps the invariant\<close>

lemma tab_inv_same:
  assumes "tab_inv S" "tab S' = tab S" "inside S' = inside S" "length (sems S') = length (sems S)"
  shows "tab_inv S'" "sleeper S' = sleeper S" "promised S' = promised S"
  using assms by (simp_all add: tab_inv_def sleeper_def promised_def fun_eq_iff)

lemma sleep_tab:
  assumes "tab_inv S" "cpu_proc (tab S) c = Some me" "tab S' = scheduler_return c (sleep_enter me (PidChan me) (tab S))"
    "inside S' = (inside S)(me := k)" "length (sems S') = length (sems S)" "k < length (sems S)"
  shows "tab_inv S'" "sleeper S' k' i \<longleftrightarrow> (if i = me then k' = k else sleeper S k' i)"
    "\<not> waits_on sem_chan (views (tab S) ! me) \<Longrightarrow> promised S' = promised S"
proof -
  note d = tab_invD [OF assms(1)] and r = running_not_sleeper [OF assms(1,2)]
  have p: "procs (tab S') = (procs (tab S))[me := (procs (tab S) ! me)\<lparr>p_chan := Some (PidChan me), p_state := SLEEPING\<rparr>]"
    unfolding assms(3) by (simp add: sleep_enter_def)
  have "waiters_alive sem_chan (tab S')"
    using d(2,3) r(1) by (auto simp: waiters_alive_def all_set_conv_all_nth p nth_list_update alive_def)
  moreover have "ptable_ok (tab S')" unfolding assms(3) by (rule step_sleeps [OF d(1) assms(2)])
  ultimately show "tab_inv S'" using d(2,4) r(1) assms(4-6) by (auto simp: tab_inv_def p nth_list_update)
  show "sleeper S' k' i \<longleftrightarrow> (if i = me then k' = k else sleeper S k' i)"
    using r(1) by (auto simp: sleeper_def p assms(4) nth_list_update)
  show "\<not> waits_on sem_chan (views (tab S) ! me) \<Longrightarrow> promised S' = promised S"
    using r(1) by (auto simp: promised_def p assms(4) nth_list_update fun_eq_iff)
qed

lemma leave_tab:
  assumes "tab_inv S" "cpu_proc (tab S) c = Some me" "tab S' = sleep_leave me (tab S)" "inside S' = inside S" "length (sems S') = length (sems S)"
  shows "tab_inv S'" "sleeper S' = sleeper S" "promised S' k i \<longleftrightarrow> i \<noteq> me \<and> promised S k i"
proof -
  note d = tab_invD [OF assms(1)] and r = running_not_sleeper [OF assms(1,2)]
  have p: "procs (tab S') = (procs (tab S))[me := (procs (tab S) ! me)\<lparr>p_chan := None\<rparr>]"
    unfolding assms(3) by (simp add: sleep_leave_def)
  have "waiters_alive sem_chan (tab S')"
    using d(2,3) r(1) by (auto simp: waiters_alive_def all_set_conv_all_nth p nth_list_update)
  moreover have "ptable_ok (tab S')" unfolding assms(3) by (rule step_leaves [OF d(1) assms(2)])
  ultimately show "tab_inv S'" using d(2,4) r(1) assms(4,5) by (auto simp: tab_inv_def p nth_list_update)
  show "sleeper S' = sleeper S" using r(1,2) by (auto simp: sleeper_def p assms(4) nth_list_update fun_eq_iff)
  show "promised S' k i \<longleftrightarrow> i \<noteq> me \<and> promised S k i" using r(1) by (auto simp: promised_def p assms(4) nth_list_update)
qed

lemma wake_tab:
  assumes "tab_inv S" "sleeper S k j" "tab S' = wakeup (PidChan j) (tab S)" "inside S' = inside S" "length (sems S') = length (sems S)"
  shows "tab_inv S'" "sleeper S' k' i \<longleftrightarrow> i \<noteq> j \<and> sleeper S k' i" "promised S' k' i \<longleftrightarrow> i = j \<and> k' = k \<or> promised S k' i"
proof -
  note d = tab_invD [OF assms(1)] and p = wakeup_sleeper [OF assms(1,2)]
  have j: "j < length (procs (tab S))" "p_chan (procs (tab S) ! j) = Some (PidChan j)" "p_state (procs (tab S) ! j) = SLEEPING" "inside S j = k"
    using assms(2) by (auto simp: sleeper_def)
  have "waiters_alive sem_chan (tab S')"
    using d(2,3) j(1) by (auto simp: waiters_alive_def all_set_conv_all_nth assms(3) p nth_list_update alive_def)
  moreover have "ptable_ok (tab S')" unfolding assms(3) by (rule ptable_step_ok [OF ptable_step.wakes d(1)])
  ultimately show "tab_inv S'" using d(2,4) j assms(4,5) by (auto simp: tab_inv_def assms(3) p nth_list_update)
  show "sleeper S' k' i \<longleftrightarrow> i \<noteq> j \<and> sleeper S k' i" using j by (auto simp: sleeper_def assms(3,4) p nth_list_update)
  show "promised S' k' i \<longleftrightarrow> i = j \<and> k' = k \<or> promised S k' i" using j by (auto simp: promised_def assms(3,4) p nth_list_update)
qed

lemma rest_tab:
  assumes "tab_inv S" "rest_step sem_chan (tab S) (tab S')" "inside S' = inside S" "length (sems S') = length (sems S)"
  shows "tab_inv S'" "sleeper S' = sleeper S" "promised S' = promised S"
proof -
  note d = tab_invD [OF assms(1)]
  have r: "quiet sem_chan (tab S) (tab S')" "ptable_ok (tab S')" "waiters_alive sem_chan (tab S')"
    using sem.rest_keeps [OF assms(2) d(1,3)] by auto
  have l: "length (procs (tab S')) = length (procs (tab S))" by (rule quietD(1) [OF r(1)])
  have k: "if \<exists>j. p_chan (procs (tab S) ! i) = Some (PidChan j)
      then p_chan (procs (tab S') ! i) = p_chan (procs (tab S) ! i) \<and> (p_state (procs (tab S') ! i) = SLEEPING \<longleftrightarrow> p_state (procs (tab S) ! i) = SLEEPING)
      else \<forall>j. p_chan (procs (tab S') ! i) \<noteq> Some (PidChan j)" if "i < length (procs (tab S))" for i
    using quietD(2) [OF r(1) that] that l by (auto simp: undisturbed_def split: if_splits)
  show "tab_inv S'" unfolding tab_inv_def
    using r(2,3) d(2) l d(4) k assms(3,4) by (auto split: if_splits) metis+
  show "sleeper S' = sleeper S" "promised S' = promised S"
    using k l assms(3) by (fastforce simp: sleeper_def promised_def fun_eq_iff split: if_splits)+
qed

definition sem_sys_inv :: "semsys \<Rightarrow> bool" where
  "sem_sys_inv S \<longleftrightarrow> tab_inv S \<and> (\<forall>k < length (sems S). ring_inv S k)"

lemma sem_sys_invD:
  assumes "sem_sys_inv S" shows "tab_inv S" "k < length (sems S) \<Longrightarrow> ring_inv S k"
  using assms by (auto simp: sem_sys_inv_def)

lemma ring_inv_other:
  assumes "ring_inv S k" "sems S' ! k = sems S ! k" "queued S' k = queued S k" "woken S' k = woken S k" "\<And>i. sleeper S' k i = sleeper S k i"
  shows "ring_inv S' k"
  using assms by (simp add: ring_inv_def)

lemma release_ring:
  assumes "sem_sys_inv S" "k < length (sems S)" "sem_release (sems S ! k) (tab S) = (sm, s')"
  shows "sem_ok sm" "sem_value sm = wrap32 (sem_value (sems S ! k) + 1)"
    "s' = tab S \<and> sem_procs sm = sem_procs (sems S ! k) \<and> (wrap32 (sem_value (sems S ! k) + 1) \<le> 0 \<or> sem_procs sm = []) \<or>
     (\<exists>j. sleeper S k j \<and> s' = wakeup (PidChan j) (tab S) \<and> sem_procs (sems S ! k) = j # sem_procs sm)"
proof -
  note ri = sem_sys_invD(2) [OF assms(1,2)]
  have q: "sem_ok sm \<and> sem_procs (sems S ! k) = sem_woken (sems S ! k) @ sem_procs sm \<and> sem_value sm = wrap32 (sem_value (sems S ! k) + 1) \<and>
    s' = (case sem_woken (sems S ! k) of [] \<Rightarrow> tab S | j # _ \<Rightarrow> wakeup (PidChan j) (tab S))"
    by (rule sem_release_procs [OF _ assms(3)]) (use ri in \<open>simp add: ring_inv_def\<close>)
  then show "sem_ok sm" "sem_value sm = wrap32 (sem_value (sems S ! k) + 1)" by simp_all
  show "s' = tab S \<and> sem_procs sm = sem_procs (sems S ! k) \<and> (wrap32 (sem_value (sems S ! k) + 1) \<le> 0 \<or> sem_procs sm = []) \<or>
     (\<exists>j. sleeper S k j \<and> s' = wakeup (PidChan j) (tab S) \<and> sem_procs (sems S ! k) = j # sem_procs sm)"
  proof (cases "wrap32 (sem_value (sems S ! k) + 1) > 0 \<and> sem_procs (sems S ! k) \<noteq> []")
    case True
    then obtain j js where j: "sem_procs (sems S ! k) = j # js" by (cases "sem_procs (sems S ! k)") auto
    then have w: "sem_woken (sems S ! k) = [j]" using True by (simp add: sem_woken_def)
    have "j \<in> set (sem_procs (sems S ! k))" using j by simp
    then have "sleeper S k j" using ri by (simp add: ring_inv_def)
    then show ?thesis using q w by auto
  next
    case False
    then have "sem_woken (sems S ! k) = []" by (auto simp: sem_woken_def)
    then show ?thesis using q False by auto
  qed
qed

lemma releases_inv:
  assumes "sem_sys_inv S" "k < length (sems S)" "sem_release (sems S ! k) (tab S) = (sm, s')"
  defines "S' \<equiv> S\<lparr>tab := s', sems := (sems S)[k := sm], woken := (woken S)(k := woken S k @ awakened (tab S) s'), released := (released S)(k := Suc (released S k))\<rparr>"
  shows "sem_sys_inv S'"
proof -
  note inv = sem_sys_invD [OF assms(1)] and r = release_ring [OF assms(1-3)]
  consider "s' = tab S" "sem_procs sm = sem_procs (sems S ! k)"
    | j where "sleeper S k j" "s' = wakeup (PidChan j) (tab S)" "sem_procs (sems S ! k) = j # sem_procs sm"
    using r(3) by blast
  then show ?thesis
  proof cases
    case 1
    note t = tab_inv_same [OF inv(1), of S']
    have "ring_inv S' k'" if "k' < length (sems S)" for k'
      using inv(2) [OF that] t(2) 1 r(1) assms(2) by (cases "k' = k") (auto simp: ring_inv_def S'_def)
    then show ?thesis using t(1) 1 by (simp add: sem_sys_inv_def S'_def)
  next
    case (2 j)
    note t = wake_tab [OF inv(1) 2(1), of S']
    have nj: "\<not> sleeper S k' j" if "k' \<noteq> k" for k' using 2(1) that by (auto simp: sleeper_def)
    have "ring_inv S' k'" if "k' < length (sems S)" for k'
      using inv(2) [OF that] t(2) 2(2,3) nj [of k'] r(1) assms(2) awakened_one [OF inv(1) 2(1)]
      by (cases "k' = k") (auto simp: ring_inv_def S'_def)
    then show ?thesis using t(1) 2(2) by (simp add: sem_sys_inv_def S'_def)
  qed
qed

lemma sem_step_inv: "sem_step S S' \<Longrightarrow> sem_sys_inv S \<Longrightarrow> sem_sys_inv S' \<and> length (sems S') = length (sems S)"
proof (induction rule: sem_step.induct)
  case (acquires S c me k sm s')
  note inv = sem_sys_invD [OF acquires(5)]
  let ?S = "S\<lparr>tab := s', sems := (sems S)[k := sm], acquired := (acquired S)(k := Suc (acquired S k))\<rparr>"
  have sm: "sm = (sems S ! k)\<lparr>sem_value := wrap32 (sem_value (sems S ! k) - 1)\<rparr>" "s' = tab S"
    using acquires(4) by (auto simp: sem_acquire_enter_def split: if_splits)
  note t = tab_inv_same [OF inv(1), of ?S]
  have "ring_inv ?S k'" if "k' < length (sems S)" for k'
    using inv(2) [OF that] t(2) sm acquires(3) by (cases "k' = k") (auto simp: ring_inv_def)
  then show ?case using t(1) sm by (simp add: sem_sys_inv_def)
next
  case (waits S c me k sm s')
  note inv = sem_sys_invD [OF waits(5)]
  let ?S = "S\<lparr>tab := scheduler_return c s', sems := (sems S)[k := sm], inside := (inside S)(me := k), queued := (queued S)(k := queued S k @ [me])\<rparr>"
  have sm: "sm = sem_enqueue me (sems S ! k)" "s' = sleep_enter me (PidChan me) (tab S)"
    using waits(4) by (auto simp: sem_acquire_enter_def split: if_splits)
  note t = sleep_tab [OF inv(1) waits(1), of ?S k] and e = enqueue_ring [OF inv(1) inv(2) [OF waits(3)] waits(1)]
  have ns: "\<not> sleeper S k' me" for k' by (rule running_not_sleeper(3) [OF inv(1) waits(1)])
  have "ring_inv ?S k'" if "k' < length (sems S)" for k'
    using inv(2) [OF that] t(2) sm e ns [of k'] waits(3) by (cases "k' = k") (auto simp: ring_inv_def)
  then show ?case using t(1) sm waits(3) by (simp add: sem_sys_inv_def)
next
  case (resumes S c me k sm s')
  note inv = sem_sys_invD [OF resumes(5)]
  let ?S = "S\<lparr>tab := s', sems := (sems S)[k := sm], acquired := (acquired S)(k := Suc (acquired S k))\<rparr>"
  have sm: "sm = (sems S ! k)\<lparr>sem_value := wrap32 (sem_value (sems S ! k) - 1)\<rparr>" "s' = sleep_leave me (tab S)"
    using resumes(4) by (auto simp: sem_acquire_resume_def)
  note t = leave_tab [OF inv(1) resumes(1), of ?S]
  have "ring_inv ?S k'" if "k' < length (sems S)" for k'
    using inv(2) [OF that] t(2) sm that by (cases "k' = k") (auto simp: ring_inv_def)
  then show ?case using t(1) sm by (simp add: sem_sys_inv_def)
next
  case (releases S c me k sm s')
  then show ?case using releases_inv by simp
next
  case (rest S s')
  note inv = sem_sys_invD [OF rest(2)]
  have "tab_inv (S\<lparr>tab := s'\<rparr>)" "sleeper (S\<lparr>tab := s'\<rparr>) = sleeper S" using rest_tab [OF inv(1), of "S\<lparr>tab := s'\<rparr>"] rest(1) by auto
  then show ?case using inv(2) by (auto simp: sem_sys_inv_def ring_inv_def)
qed

lemma sem_start_inv: "sem_start vs S \<Longrightarrow> sem_sys_inv S"
proof -
  assume st: "sem_start vs S"
  have no: "\<not> waits_on sem_chan (views (tab S) ! i)" if "i < length (procs (tab S))" for i
    using st that unfolding sem_start_def by (metis length_views nth_mem)
  then have "\<not> sleeper S k i" for k i by (auto simp: sleeper_def)
  then have "ring_inv S k" if "k < length (sems S)" for k
    using st that by (auto simp: sem_start_def ring_inv_def sem_ok_def sem_inv_def sem_waiting_def sem_procs_def sem_init_def MAX_SEMAPHORE_PROC_def ring_elems_def)
  moreover have "tab_inv S" using st no by (auto simp: sem_start_def tab_inv_def waiters_alive_def)
  ultimately show ?thesis by (simp add: sem_sys_inv_def)
qed

lemma sem_reach_inv: "sem_reach vs S \<Longrightarrow> sem_sys_inv S \<and> length (sems S) = length vs"
proof (induction rule: sem_reach.induct)
  case (init S)
  then show ?case using sem_start_inv by (auto simp: sem_start_def)
next
  case (step S S')
  then show ?case using sem_step_inv by auto
qed

section \<open>Units\<close>

lemma finite_promised: "finite {i. promised S k i}"
  by (rule finite_subset [of _ "{..<length (procs (tab S))}"]) (auto simp: promised_def)

text \<open>The value and the promises of a semaphore after \<open>r\<close> releases and \<open>a\<close> finished calls of \<open>sem_acquire\<close>.\<close>

definition units :: "int \<Rightarrow> nat \<Rightarrow> nat \<Rightarrow> semaphore \<Rightarrow> nat \<Rightarrow> bool" where
  "units v r a sm n \<longleftrightarrow>
     0 \<le> v \<and> v + int r < 2 ^ 31 \<and> int a \<le> 2 ^ 31 \<longrightarrow>
       sem_value sm = v + int r - int a \<and> (sem_procs sm \<noteq> [] \<longrightarrow> sem_value sm \<le> int n)"

lemma units_take: "units v r a sm n \<Longrightarrow> units v r (Suc a) (sm\<lparr>sem_value := wrap32 (sem_value sm - 1)\<rparr>) (n - 1)"
  by (auto simp: units_def)

lemma units_release:
  assumes "units v r a sm n" "sem_value sm' = wrap32 (sem_value sm + 1)"
    "n' = n \<and> (wrap32 (sem_value sm + 1) \<le> 0 \<or> sem_procs sm' = []) \<or> n' = Suc n \<and> sem_procs sm \<noteq> []"
  shows "units v (Suc r) a sm' n'"
  using assms by (auto simp: units_def)

definition units_inv :: "int list \<Rightarrow> semsys \<Rightarrow> nat \<Rightarrow> bool" where
  "units_inv vs S k \<longleftrightarrow> units (vs ! k) (released S k) (acquired S k) (sems S ! k) (card {i. promised S k i})"

lemma releases_promised:
  assumes "sem_sys_inv S" "k < length (sems S)" "sem_release (sems S ! k) (tab S) = (sm, s')"
  defines "S' \<equiv> S\<lparr>tab := s', sems := (sems S)[k := sm], woken := (woken S)(k := woken S k @ awakened (tab S) s'), released := (released S)(k := Suc (released S k))\<rparr>"
  shows "k' \<noteq> k \<Longrightarrow> {i. promised S' k' i} = {i. promised S k' i}"
    "card {i. promised S' k i} = card {i. promised S k i} \<and> (wrap32 (sem_value (sems S ! k) + 1) \<le> 0 \<or> sem_procs sm = []) \<or>
     card {i. promised S' k i} = Suc (card {i. promised S k i}) \<and> sem_procs (sems S ! k) \<noteq> []"
proof -
  note inv = sem_sys_invD [OF assms(1)] and r = release_ring [OF assms(1-3)]
  have *: "(k' \<noteq> k \<longrightarrow> {i. promised S' k' i} = {i. promised S k' i}) \<and>
    (card {i. promised S' k i} = card {i. promised S k i} \<and> (wrap32 (sem_value (sems S ! k) + 1) \<le> 0 \<or> sem_procs sm = []) \<or>
     card {i. promised S' k i} = Suc (card {i. promised S k i}) \<and> sem_procs (sems S ! k) \<noteq> [])" for k'
  proof -
    consider "s' = tab S" "wrap32 (sem_value (sems S ! k) + 1) \<le> 0 \<or> sem_procs sm = []"
      | j where "sleeper S k j" "s' = wakeup (PidChan j) (tab S)" "sem_procs (sems S ! k) = j # sem_procs sm" using r(3) by blast
    then show ?thesis
    proof cases
      case 1
      then show ?thesis using tab_inv_same(3) [OF inv(1), of S'] by (simp add: S'_def)
    next
      case (2 j)
      have p: "promised S' k'' i \<longleftrightarrow> i = j \<and> k'' = k \<or> promised S k'' i" for k'' i
        using wake_tab(3) [OF inv(1) 2(1), of S' k'' i] 2(2) by (simp add: S'_def)
      then have "{i. promised S' k i} = insert j {i. promised S k i}" by auto
      moreover have "\<not> promised S k j" using 2(1) by (simp add: promised_def sleeper_def)
      ultimately have "card {i. promised S' k i} = Suc (card {i. promised S k i})" using finite_promised [of S k] by simp
      then show ?thesis using 2(3) p by simp
    qed
  qed
  show "k' \<noteq> k \<Longrightarrow> {i. promised S' k' i} = {i. promised S k' i}" using * by blast
  show "card {i. promised S' k i} = card {i. promised S k i} \<and> (wrap32 (sem_value (sems S ! k) + 1) \<le> 0 \<or> sem_procs sm = []) \<or>
     card {i. promised S' k i} = Suc (card {i. promised S k i}) \<and> sem_procs (sems S ! k) \<noteq> []" using * by blast
qed

lemma releases_units:
  assumes "sem_sys_inv S" "k' < length (sems S)" "sem_release (sems S ! k') (tab S) = (sm, s')" "units_inv vs S k"
  shows "units_inv vs (S\<lparr>tab := s', sems := (sems S)[k' := sm], woken := (woken S)(k' := woken S k' @ awakened (tab S) s'), released := (released S)(k' := Suc (released S k'))\<rparr>) k"
proof (cases "k' = k")
  case True
  then show ?thesis using assms(2,4) releases_promised(2) [OF assms(1-3)] release_ring(2) [OF assms(1-3)]
      units_release [of "vs ! k" "released S k" "acquired S k" "sems S ! k" "card {i. promised S k i}" sm] by (simp add: units_inv_def)
next
  case False
  then show ?thesis using assms(4) releases_promised(1) [OF assms(1-3), of k] by (simp add: units_inv_def)
qed

lemma units_step:
  assumes "sem_step S S'" "sem_sys_inv S" "k < length (sems S)" "units_inv vs S k"
  shows "units_inv vs S' k"
  using assms
proof (induction rule: sem_step.induct)
  case (acquires S c me k' sm s')
  note inv = sem_sys_invD [OF acquires(5)]
  have sm: "sem_value (sems S ! k') > 0" "sm = (sems S ! k')\<lparr>sem_value := wrap32 (sem_value (sems S ! k') - 1)\<rparr>" "s' = tab S"
    using acquires(4) by (auto simp: sem_acquire_enter_def split: if_splits)
  have "promised (S\<lparr>tab := s', sems := (sems S)[k' := sm], acquired := (acquired S)(k' := Suc (acquired S k'))\<rparr>) = promised S"
    by (rule tab_inv_same(3) [OF inv(1)]) (simp_all add: sm)
  then show ?case using acquires(3,7) sm by (cases "k' = k") (auto simp: units_inv_def units_def)
next
  case (waits S c me k' sm s')
  note inv = sem_sys_invD [OF waits(5)]
  have sm: "sem_value (sems S ! k') \<le> 0" "sm = sem_enqueue me (sems S ! k')" "s' = sleep_enter me (PidChan me) (tab S)"
    using waits(4) by (auto simp: sem_acquire_enter_def split: if_splits)
  have "promised (S\<lparr>tab := scheduler_return c s', sems := (sems S)[k' := sm], inside := (inside S)(me := k'),
      queued := (queued S)(k' := queued S k' @ [me])\<rparr>) = promised S"
    by (rule sleep_tab(3) [OF inv(1) waits(1), of _ k']) (use waits(2,3) sm in simp_all)
  then show ?case using waits(3,7) sm by (cases "k' = k") (auto simp: units_inv_def units_def sem_enqueue_def Let_def)
next
  case (resumes S c me k' sm s')
  note inv = sem_sys_invD [OF resumes(5)]
  let ?S = "S\<lparr>tab := s', sems := (sems S)[k' := sm], acquired := (acquired S)(k' := Suc (acquired S k'))\<rparr>"
  have sm: "sm = (sems S ! k')\<lparr>sem_value := wrap32 (sem_value (sems S ! k') - 1)\<rparr>" "s' = sleep_leave me (tab S)"
    using resumes(4) by (auto simp: sem_acquire_resume_def)
  note r = running_not_sleeper [OF inv(1) resumes(1)]
  have me: "promised S k me \<longleftrightarrow> k = k'"
    using resumes(2,3) r(1,2) tab_invD(2,4) [OF inv(1)] by (auto simp: promised_def)
  have "promised ?S k i \<longleftrightarrow> i \<noteq> me \<and> promised S k i" for i
    by (rule leave_tab(3) [OF inv(1) resumes(1)]) (simp_all add: sm)
  then have "{i. promised ?S k i} = {i. promised S k i} - {me}" by auto
  then have "card {i. promised ?S k i} = card {i. promised S k i} - (if k = k' then 1 else 0)"
    using me finite_promised [of S k] by (simp add: card_Diff_singleton_if)
  then show ?case using resumes(6,7) sm units_take [of "vs ! k" "released S k" "acquired S k" "sems S ! k" "card {i. promised S k i}"]
    by (cases "k' = k") (auto simp: units_inv_def)
next
  case (releases S c me k' sm s')
  then show ?case using releases_units [of S k' sm s' vs k] by simp
next
  case (rest S s')
  then show ?case using rest_tab(3) [of S "S\<lparr>tab := s'\<rparr>"] sem_sys_invD(1) [of S] by (simp add: units_inv_def)
qed

lemma sem_reach_units: "sem_reach vs S \<Longrightarrow> k < length vs \<Longrightarrow> units_inv vs S k"
proof (induction rule: sem_reach.induct)
  case (init S)
  then show ?case by (auto simp: sem_start_def units_inv_def units_def sem_init_def sem_procs_def sem_waiting_def ring_elems_def)
next
  case (step S S')
  then show ?case using units_step [of S S' k vs] sem_reach_inv [of vs S] by auto
qed

section \<open>A run with two holders\<close>

lemma round_robin_unused: "\<forall>p \<in> set ps. p_state p \<noteq> RUNNABLE \<Longrightarrow> round_robin_loop t i ps b m = m"
  by (induction ps arbitrary: i) auto

text \<open>Process 1 has been woken from its sleep on the semaphore; CPU 1 is idle.\<close>

definition one_woken :: ptab where
  "one_woken = wakeup (PidChan 1) (scheduler_return 1 (sleep_enter 1 (PidChan 1) three_running))"

lemma one_woken_procs:
  "procs one_woken = [running_proc 1 None, (running_proc 2 (Some 0))\<lparr>p_chan := Some (PidChan 1), p_state := RUNNABLE\<rparr>, running_proc 3 (Some 0)] @
     replicate 61 zero_proc"
  by (simp add: one_woken_def wakeup_def sleep_enter_def three_running_def wake_one_def running_proc_def zero_proc_def)

lemma one_woken_rest: "ticks one_woken = 5" "cpu_proc one_woken = (\<lambda>c. if c < 3 then Some c else None)(1 := None)"
  by (simp_all add: one_woken_def wakeup_def sleep_enter_def three_running_def scheduler_return_def)

lemma one_woken_dispatch:
  "\<exists>s. scheduler_dispatch fl 1 one_woken = Ret (Some 1, s) \<and> cpu_proc s 1 = Some 1 \<and> cpu_proc s 2 = Some 2 \<and> p_state (procs s ! 1) = RUNNING"
proof -
  have f: "procs (fix_queues one_woken) = procs one_woken"
    by (simp add: fix_queues_def one_woken_procs one_woken_rest fix_one_def running_proc_def zero_proc_def STARVING_THRESHOLD_def)
  have "round_robin (fix_queues one_woken) = Some 1"
    by (simp add: round_robin_def f, simp add: one_woken_procs one_woken_rest)
      (simp add: running_proc_def zero_proc_def starved_for_def round_robin_unused)
  then show ?thesis
    by (simp add: scheduler_dispatch_def scheduler_choose_def switchuvm_def upd_proc_def f Let_def)
      (simp add: one_woken_procs one_woken_rest running_proc_def)
qed

lemma ring_of_one:
  "sem_release (sem_enqueue 1 (sem_init 0 zero_semaphore)) s = (sm, s') \<Longrightarrow> s' = wakeup (PidChan 1) s \<and> sem_value sm = 1"
  by (auto simp: sem_release_def sem_dequeue_def sem_enqueue_def sem_init_def zero_semaphore_def MAX_SEMAPHORE_PROC_def Let_def smod_nonneg)

section \<open>Properties\<close>

text \<open>C22: Semaphores are fair.  In every state that the kernel reaches from \<open>sem_init\<close> on, with all semaphores in use,
  none initialised again, and as long as no process is killed while it is inside \<open>sem_acquire\<close>: the processes that went to sleep on a semaphore
  are made runnable by its releases in the order in which they called \<open>sem_acquire\<close>, each once; those not made runnable
  yet are the ones in the ring, at most 64 and none twice, and these are exactly the processes that the process table
  shows asleep in \<open>sem_acquire\<close> of this semaphore.\<close>

theorem semaphore_fifo:
  assumes "sem_reach vs S" "k < length vs"
  shows "queued S k = woken S k @ sem_procs (sems S ! k) \<and> length (sem_procs (sems S ! k)) \<le> nat MAX_SEMAPHORE_PROC \<and>
    distinct (sem_procs (sems S ! k)) \<and> set (sem_procs (sems S ! k)) = {i. sleeper S k i}"
proof -
  have "ring_inv S k" using sem_reach_inv [OF assms(1)] assms(2) sem_sys_invD(2) by simp
  then show ?thesis using waiting.bounded [of "sems S ! k"] by (simp add: ring_inv_def)
qed

text \<open>Process 0 has the only unit, process 1 waits.\<close>

definition sem_boot :: semsys where
  "sem_boot = \<lparr>tab = three_running, sems = [sem_init 1 zero_semaphore], inside = (\<lambda>_. 0), queued = (\<lambda>_. []), woken = (\<lambda>_. []),
     acquired = (\<lambda>_. 0), released = (\<lambda>_. 0)\<rparr>"

lemma one_waits:
  "\<exists>S. sem_reach [1] S \<and> queued S 0 = [1] \<and> acquired S 0 = 1 \<and> released S 0 = 0"
proof -
  note e = sem_acquire_enter_def sem_init_def zero_semaphore_def
  have nw: "\<not> waits_on sem_chan v" if "v \<in> set (views three_running)" for v
    using that by (auto simp: views_def three_running_def running_proc_def zero_proc_def)
  have q: "length (sem_queue zero_semaphore) = nat MAX_SEMAPHORE_PROC" by (simp add: zero_semaphore_def)
  have r0: "sem_reach [1] sem_boot"
    by (rule sem_reach.init)
      (auto simp: sem_start_def sem_boot_def three_running_ok three_running_nth nw q intro: exI [of _ zero_semaphore] simp del: waits_on_sem)
  let ?S1 = "sem_boot\<lparr>tab := three_running, sems := (sems sem_boot)[0 := sem_init 0 zero_semaphore], acquired := (acquired sem_boot)(0 := Suc (acquired sem_boot 0))\<rparr>"
  have "sem_step sem_boot ?S1"
    by (rule sem_step.acquires [of _ 0 0]) (simp_all add: sem_boot_def e three_running_nth NPROC_def running_proc_def zero_proc_def, simp add: three_running_def)
  from sem_reach.step [OF r0 this] have r1: "sem_reach [1] ?S1" .
  let ?S2 = "?S1\<lparr>tab := scheduler_return 1 (sleep_enter 1 (PidChan 1) (tab ?S1)), sems := (sems ?S1)[0 := sem_enqueue 1 (sem_init 0 zero_semaphore)],
    inside := (inside ?S1)(1 := 0), queued := (queued ?S1)(0 := queued ?S1 0 @ [1])\<rparr>"
  have "sem_step ?S1 ?S2"
    by (rule sem_step.waits [of _ 1 1]) (simp_all add: sem_boot_def e three_running_nth(2) [simplified] three_running_nth(4) NPROC_def running_proc_def zero_proc_def, simp add: three_running_def)
  from sem_reach.step [OF r1 this] show ?thesis by (intro exI [of _ ?S2]) (simp add: sem_boot_def)
qed

theorem semaphore_fifo_witness:
  "\<exists>S. sem_reach [1] S \<and> [1] = woken S 0 @ sem_procs (sems S ! 0) \<and> set (sem_procs (sems S ! 0)) = {i. sleeper S 0 i}"
proof -
  obtain S where S: "sem_reach [1] S" "queued S 0 = [1]" using one_waits by blast
  then show ?thesis using semaphore_fifo [OF S(1), of 0] by auto
qed

text \<open>C23: Units are neither lost nor invented.  In every state that the kernel reaches from \<open>sem_init\<close> on, with no semaphore
  initialised again and as long as no process is killed while it is inside \<open>sem_acquire\<close>, and for a semaphore that started with \<open>v\<close> units, \<open>v\<close> not negative, and whose
  counts do not overflow (\<open>v\<close> plus the releases is less than \<open>2 ^ 31\<close>, and there are at most \<open>2 ^ 31\<close> finished acquires): the
  value of the semaphore is \<open>v\<close> plus the releases minus the finished acquires; and as long as a process waits in the ring,
  there are at least as many processes as free units that the table shows woken inside \<open>sem_acquire\<close> of this semaphore.\<close>

theorem semaphore_units:
  assumes "sem_reach vs S" "k < length vs" "0 \<le> vs ! k" "vs ! k + int (released S k) < 2 ^ 31" "int (acquired S k) \<le> 2 ^ 31"
  shows "sem_value (sems S ! k) = vs ! k + int (released S k) - int (acquired S k) \<and>
    (sem_procs (sems S ! k) \<noteq> [] \<longrightarrow> sem_value (sems S ! k) \<le> int (card {i. promised S k i}))"
  using sem_reach_units [OF assms(1,2)] assms(3-5) unfolding units_inv_def units_def by blast

theorem semaphore_units_witness: "\<exists>S. sem_reach [1] S \<and> sem_value (sems S ! 0) = 0"
proof -
  obtain S where S: "sem_reach [1] S" "acquired S 0 = 1" "released S 0 = 0" using one_waits by blast
  then show ?thesis using semaphore_units [OF S(1), of 0] by auto
qed

text \<open>C24: A semaphore initialised to 1 does not give mutual exclusion: a woken process takes its unit only when it runs,
  without looking at the value again, and another process can take the unit in between.  From a sound table with processes
  0, 1 and 2 running on CPUs 0, 1 and 2: process 0 acquires the semaphore, process 1 goes to sleep on it, process 0
  releases it, process 2 acquires it, the scheduler of CPU 1 runs process 1 again, and process 1 returns from \<open>sem_acquire\<close>;
  two processes that have not released it are then past \<open>sem_acquire\<close>, and the value is \<open>-1\<close>.\<close>

theorem semaphore_two_holders:
  "ptable_ok three_running \<and> cpu_proc three_running 0 = Some 0 \<and> cpu_proc three_running 1 = Some 1 \<and> cpu_proc three_running 2 = Some 2 \<and>
   (\<exists>m1 m2 m3 m4 m5 s1 s2 s3 s4.
      sem_acquire_enter 0 (sem_init 1 zero_semaphore) three_running = (True, m1, three_running) \<and>
      sem_acquire_enter 1 m1 three_running = (False, m2, s1) \<and>
      sem_release m2 (scheduler_return 1 s1) = (m3, s2) \<and>
      sem_acquire_enter 2 m3 s2 = (True, m4, s2) \<and>
      scheduler_dispatch fl 1 s2 = Ret (Some 1, s3) \<and>
      sem_acquire_resume 1 m4 s3 = (m5, s4) \<and>
      cpu_proc s4 1 = Some 1 \<and> cpu_proc s4 2 = Some 2 \<and> sem_value m5 = - 1)"
proof -
  let ?m1 = "sem_init 0 zero_semaphore" and ?m2 = "sem_enqueue 1 (sem_init 0 zero_semaphore)"
  let ?s1 = "sleep_enter 1 (PidChan 1) three_running"
  obtain m3 s2 where r: "sem_release ?m2 (scheduler_return 1 ?s1) = (m3, s2)" by (cases "sem_release ?m2 (scheduler_return 1 ?s1)")
  then have s2: "s2 = one_woken" "sem_value m3 = 1" using ring_of_one [OF r] by (simp_all add: one_woken_def)
  obtain s3 where s3: "scheduler_dispatch fl 1 one_woken = Ret (Some 1, s3)" "cpu_proc s3 1 = Some 1" "cpu_proc s3 2 = Some 2"
    using one_woken_dispatch by blast
  have a: "sem_acquire_enter 0 (sem_init 1 zero_semaphore) three_running = (True, ?m1, three_running)"
    "sem_acquire_enter 1 ?m1 three_running = (False, ?m2, ?s1)"
    by (simp_all add: sem_acquire_enter_def sem_init_def zero_semaphore_def)
  have b: "sem_acquire_enter 2 m3 s2 = (True, m3\<lparr>sem_value := 0\<rparr>, s2)" using s2(2) by (simp add: sem_acquire_enter_def)
  have c: "sem_acquire_resume 1 (m3\<lparr>sem_value := 0\<rparr>) s3 = (m3\<lparr>sem_value := - 1\<rparr>, sleep_leave 1 s3)" by (simp add: sem_acquire_resume_def)
  have d: "cpu_proc (sleep_leave 1 s3) 1 = Some 1" "cpu_proc (sleep_leave 1 s3) 2 = Some 2" using s3 by (simp_all add: sleep_leave_def)
  have t: "cpu_proc three_running 0 = Some 0" "cpu_proc three_running 1 = Some 1" "cpu_proc three_running 2 = Some 2" by (simp_all add: three_running_def)
  have v: "sem_value (m3\<lparr>sem_value := - 1\<rparr>) = - 1" by simp
  show ?thesis using three_running_ok t a r b s3(1) [folded s2(1)] c d v by blast
qed

end
