(* ===== verification/Pipe_Runs.thy ===== *)
theory Pipe_Runs
  imports Kernel_Steps
begin

text \<open>
  A pipe (\<^verbatim>\<open>src/xv6/pipe.c\<close>) in the running kernel.  A state holds the process table and the pipe at address \<open>a\<close>; a
  step is a run of \<open>pipewrite\<close>, \<open>piperead\<close> or \<open>pipeclose\<close> under the lock of the pipe, by the process of some CPU, a
  kill, or a step of the rest of the kernel.  The theorem is that no process sleeps in the pipe that could go on.
\<close>

section \<open>The system\<close>

text \<open>Where a process is: in no call on the pipe, in the sleep of \<open>piperead\<close> of \<open>n\<close> bytes, or in the sleep of
  \<open>pipewrite\<close> with bytes left.  \<open>gave_up\<close> tells whether some \<open>pipewrite\<close> has returned \<open>-1\<close> after storing bytes in its
  last run.\<close>

datatype pipe_loc = Outside | Reading nat | Writing bytes

record pipesys =
  ptb :: ptab
  pip :: pipe
  loc :: "nat \<Rightarrow> pipe_loc"
  gave_up :: bool

definition pipe_chan :: "u32 \<Rightarrow> chan \<Rightarrow> bool" where
  "pipe_chan a ch \<longleftrightarrow> ch = PipeReadChan a \<or> ch = PipeWriteChan a"

interpretation pipes: wait_channels "pipe_chan a"
  by unfold_locales (simp_all add: pipe_chan_def)

text \<open>A process begins a call, or comes back from the sleep of the call it is in.\<close>

definition write_from :: "pipesys \<Rightarrow> nat \<Rightarrow> bytes \<Rightarrow> ptab \<Rightarrow> bool" where
  "write_from S me cs s \<longleftrightarrow> loc S me = Outside \<and> s = ptb S \<or> loc S me = Writing cs \<and> s = sleep_leave me (ptb S)"

definition read_from :: "pipesys \<Rightarrow> nat \<Rightarrow> nat \<Rightarrow> ptab \<Rightarrow> bool" where
  "read_from S me n s \<longleftrightarrow> loc S me = Outside \<and> s = ptb S \<or> loc S me = Reading n \<and> s = sleep_leave me (ptb S)"

text \<open>A run that ends in a sleep also ends the iteration of the scheduler of the CPU.\<close>

definition run_end :: "nat \<Rightarrow> nat \<Rightarrow> pipe_loc \<Rightarrow> bool \<Rightarrow> ptab \<Rightarrow> pipe \<Rightarrow> pipesys \<Rightarrow> pipesys" where
  "run_end c me l sleeps s p S =
     (if sleeps then S\<lparr>ptb := scheduler_return c s, pip := p, loc := (loc S)(me := l)\<rparr>
      else S\<lparr>ptb := s, pip := p, loc := (loc S)(me := Outside)\<rparr>)"

inductive pipe_step :: "u32 \<Rightarrow> pipesys \<Rightarrow> pipesys \<Rightarrow> bool" for a where
  writes: "cpu_proc (ptb S) c = Some me \<Longrightarrow> write_from S me cs s \<Longrightarrow> pipewrite_run me a cs i (pip S) s = (r, j, p, s') \<Longrightarrow>
    pipe_step a S ((run_end c me (Writing (drop (j - i) cs)) (r = Sleeps) s' p S)\<lparr>gave_up := gave_up S \<or> r = Done False \<and> j \<noteq> i\<rparr>)"
| reads: "cpu_proc (ptb S) c = Some me \<Longrightarrow> read_from S me n s \<Longrightarrow> piperead_run me a n (pip S) s = (r, p, s') \<Longrightarrow>
    pipe_step a S (run_end c me (Reading n) (r = Sleeps) s' p S)"
| closes: "cpu_proc (ptb S) c = Some me \<Longrightarrow> loc S me = Outside \<Longrightarrow> pipeclose_run a w (pip S) (ptb S) = (fr, p, s') \<Longrightarrow>
    pipe_step a S (S\<lparr>ptb := s', pip := p\<rparr>)"
| kills: "kill pid (ptb S) = (r, s') \<Longrightarrow> pipe_step a S (S\<lparr>ptb := s'\<rparr>)"
| rest: "rest_step (pipe_chan a) (ptb S) s' \<Longrightarrow> pipe_step a S (S\<lparr>ptb := s'\<rparr>)"

definition pipe_start :: "u32 \<Rightarrow> pipesys \<Rightarrow> bool" where
  "pipe_start a S \<longleftrightarrow>
     ptable_ok (ptb S) \<and> (\<forall>v \<in> set (views (ptb S)). \<not> waits_on (pipe_chan a) v) \<and> loc S = (\<lambda>_. Outside) \<and> \<not> gave_up S \<and>
     (\<exists>p. length (pi_data p) = PIPESIZE \<and> pip S = pipe_init p)"

inductive pipe_reach :: "u32 \<Rightarrow> pipesys \<Rightarrow> bool" for a where
  init: "pipe_start a S \<Longrightarrow> pipe_reach a S"
| step: "pipe_reach a S \<Longrightarrow> pipe_step a S S' \<Longrightarrow> pipe_reach a S'"

section \<open>What one run does\<close>

abbreviation pipe_full :: "pipe \<Rightarrow> bool" where
  "pipe_full p \<equiv> nwrite p = nread p + of_nat PIPESIZE"

lemma pipewrite_run_cases:
  assumes "pipewrite_run me a cs i p s = (r, j, p', s')"
  shows "r = Done True \<and> s' = wakeup (PipeReadChan a) s \<or> r = Done False \<and> s' = s \<or>
      r = Sleeps \<and> s' = sleep_enter me (PipeWriteChan a) (wakeup (PipeReadChan a) s) \<and> pipe_full p' \<and> readopen p'"
    "i \<le> j" "j = i \<Longrightarrow> p' = p" "pipe_full p \<Longrightarrow> j = i" "readopen p' = readopen p" "writeopen p' = writeopen p"
proof -
  have "(r = Done True \<and> s' = wakeup (PipeReadChan a) s \<or> r = Done False \<and> s' = s \<or>
      r = Sleeps \<and> s' = sleep_enter me (PipeWriteChan a) (wakeup (PipeReadChan a) s) \<and> pipe_full p' \<and> readopen p') \<and>
    i \<le> j \<and> (j = i \<longrightarrow> p' = p) \<and> (pipe_full p \<longrightarrow> j = i) \<and> readopen p' = readopen p \<and> writeopen p' = writeopen p"
    using assms
  proof (induction me a cs i p s rule: pipewrite_run.induct)
    case (2 me a c cs i p s)
    show ?case
    proof (cases "pipe_full p")
      case False
      then show ?thesis using 2 by (auto simp: pipe_put_def)
    qed (use 2(2) in \<open>auto split: if_splits\<close>)
  qed auto
  then show "r = Done True \<and> s' = wakeup (PipeReadChan a) s \<or> r = Done False \<and> s' = s \<or>
      r = Sleeps \<and> s' = sleep_enter me (PipeWriteChan a) (wakeup (PipeReadChan a) s) \<and> pipe_full p' \<and> readopen p'"
    "i \<le> j" "j = i \<Longrightarrow> p' = p" "pipe_full p \<Longrightarrow> j = i" "readopen p' = readopen p" "writeopen p' = writeopen p" by blast+
qed

lemma piperead_run_cases:
  assumes "piperead_run me a n p s = (r, p', s')"
  obtains "r = Sleeps" "p' = p" "s' = sleep_enter me (PipeReadChan a) s" "nread p = nwrite p" "writeopen p"
    | "r = Done None" "p' = p" "s' = s"
    | bs where "r = Done (Some bs)" "s' = wakeup (PipeWriteChan a) s" "nread p \<noteq> nwrite p \<or> \<not> writeopen p"
  using assms by (auto simp: piperead_run_def Let_def case_prod_beta split: if_splits)

section \<open>The invariant\<close>

text \<open>What the process table shows of a process in the given place, and what is true of the pipe as long as it sleeps.\<close>

fun loc_ok :: "u32 \<Rightarrow> pipe_loc \<Rightarrow> chan option \<Rightarrow> bool" where
  "loc_ok a Outside ch \<longleftrightarrow> (case ch of None \<Rightarrow> True | Some ch \<Rightarrow> \<not> pipe_chan a ch)"
| "loc_ok a (Reading n) ch \<longleftrightarrow> ch = Some (PipeReadChan a)"
| "loc_ok a (Writing cs) ch \<longleftrightarrow> ch = Some (PipeWriteChan a)"

fun must_wait :: "pipe \<Rightarrow> pipe_loc \<Rightarrow> bool" where
  "must_wait p Outside \<longleftrightarrow> True"
| "must_wait p (Reading n) \<longleftrightarrow> nread p = nwrite p \<and> writeopen p"
| "must_wait p (Writing cs) \<longleftrightarrow> pipe_full p \<and> readopen p"

definition entry_ok :: "u32 \<Rightarrow> pipe \<Rightarrow> bool \<Rightarrow> pipe_loc \<Rightarrow> pview \<Rightarrow> bool" where
  "entry_ok a p g l v \<longleftrightarrow> loc_ok a l (v_chan v) \<and> (waits_on (pipe_chan a) v \<longrightarrow> alive v) \<and>
     (\<not> g \<and> v_state v = SLEEPING \<longrightarrow> must_wait p l)"

definition pipe_sys_inv :: "u32 \<Rightarrow> pipesys \<Rightarrow> bool" where
  "pipe_sys_inv a S \<longleftrightarrow> ptable_ok (ptb S) \<and>
     (\<forall>i < length (procs (ptb S)). entry_ok a (pip S) (gave_up S) (loc S i) (views (ptb S) ! i))"

lemma entry_okD: "pipe_sys_inv a S \<Longrightarrow> i < length (procs (ptb S)) \<Longrightarrow> entry_ok a (pip S) (gave_up S) (loc S i) (view (procs (ptb S) ! i))"
  by (simp add: pipe_sys_inv_def)

lemma entry_mono:
  "entry_ok a p g l v \<Longrightarrow> (\<not> g' \<Longrightarrow> \<not> g) \<Longrightarrow> (\<not> g' \<Longrightarrow> must_wait p l \<Longrightarrow> must_wait p' l) \<Longrightarrow> entry_ok a p' g' l v"
  by (auto simp: entry_ok_def)

lemma entry_wake_readers:
  assumes "entry_ok a p g l (view q)" "\<not> g' \<Longrightarrow> \<not> g" "\<And>cs. l = Writing cs \<Longrightarrow> must_wait p l \<Longrightarrow> must_wait p' l"
  shows "entry_ok a p' g' l (view (wake_one (PipeReadChan a) q))"
  using assms by (cases l) (auto simp: entry_ok_def wake_one_def waits_on_def alive_def split: option.splits)

lemma entry_wake_writers:
  assumes "entry_ok a p g l (view q)" "\<not> g' \<Longrightarrow> \<not> g" "\<And>n. l = Reading n \<Longrightarrow> must_wait p l \<Longrightarrow> must_wait p' l"
  shows "entry_ok a p' g' l (view (wake_one (PipeWriteChan a) q))"
  using assms by (cases l) (auto simp: entry_ok_def wake_one_def waits_on_def alive_def split: option.splits)

lemma ok_wakeup: "ptable_ok s \<Longrightarrow> ptable_ok (wakeup ch s)"
  by (rule ptable_step_ok [OF ptable_step.wakes])

lemma entry_running: "p_state q = RUNNING \<Longrightarrow> loc_ok a l (p_chan q) \<Longrightarrow> entry_ok a p g l (view q)"
  by (simp add: entry_ok_def alive_def)

text \<open>The table at the beginning of a run of process \<open>me\<close>.\<close>

lemma run_begins:
  assumes "pipe_sys_inv a S" "cpu_proc (ptb S) c = Some me" "write_from S me cs s \<or> read_from S me n s"
  shows "ptable_ok s" "cpu_proc s c = Some me" "length (procs s) = length (procs (ptb S))" "me < length (procs s)"
    "p_state (procs s ! me) = RUNNING" "loc_ok a Outside (p_chan (procs s ! me))" "i \<noteq> me \<Longrightarrow> procs s ! i = procs (ptb S) ! i"
proof -
  have ok: "ptable_ok (ptb S)" using assms(1) by (simp add: pipe_sys_inv_def)
  note r = running_on [OF ok assms(2)]
  have "s = ptb S \<and> loc_ok a Outside (p_chan (procs (ptb S) ! me)) \<or> s = sleep_leave me (ptb S)"
    using assms(3) entry_okD [OF assms(1) r(1)] by (auto simp: write_from_def read_from_def entry_ok_def)
  then show "ptable_ok s" "cpu_proc s c = Some me" "length (procs s) = length (procs (ptb S))" "me < length (procs s)"
    "p_state (procs s ! me) = RUNNING" "loc_ok a Outside (p_chan (procs s ! me))" "i \<noteq> me \<Longrightarrow> procs s ! i = procs (ptb S) ! i"
    using ok r assms(2) step_leaves [OF ok assms(2)] by (auto simp: sleep_leave_def)
qed

lemma run_ends:
  assumes "ptable_ok (if sleeps then scheduler_return c s else s)" "me < length (procs s)"
    "\<And>i. i < length (procs s) \<Longrightarrow> i \<noteq> me \<Longrightarrow> entry_ok a p g (loc S i) (view (procs s ! i))"
    "entry_ok a p g (if sleeps then l else Outside) (view (procs s ! me))"
  shows "pipe_sys_inv a ((run_end c me l sleeps s p S)\<lparr>gave_up := g\<rparr>)"
  using assms by (auto simp: pipe_sys_inv_def run_end_def)

lemma writes_inv:
  assumes "pipe_sys_inv a S" "cpu_proc (ptb S) c = Some me" "write_from S me cs s" "pipewrite_run me a cs i (pip S) s = (r, j, p, s')"
  shows "pipe_sys_inv a ((run_end c me (Writing (drop (j - i) cs)) (r = Sleeps) s' p S)\<lparr>gave_up := gave_up S \<or> r = Done False \<and> j \<noteq> i\<rparr>)"
proof -
  note b = run_begins [OF assms(1,2) disjI1 [OF assms(3)]] and w = pipewrite_run_cases [OF assms(4)]
  have old: "entry_ok a (pip S) (gave_up S) (loc S k) (view (procs s ! k))" if "k < length (procs s)" "k \<noteq> me" for k
    using entry_okD [OF assms(1), of k] b(3) b(7) [of k] that by simp
  have full: "must_wait (pip S) (Writing ds) \<Longrightarrow> p = pip S" for ds using w(3,4) by simp
  consider "r = Done True" "s' = wakeup (PipeReadChan a) s" | "r = Done False" "s' = s"
    | "r = Sleeps" "s' = sleep_enter me (PipeWriteChan a) (wakeup (PipeReadChan a) s)" "pipe_full p" "readopen p" using w(1) by blast
  then show ?thesis
  proof cases
    case 1
    show ?thesis
    proof (rule run_ends)
      show "ptable_ok (if r = Sleeps then scheduler_return c s' else s')" using 1 b(1) by (simp add: ok_wakeup)
      show "entry_ok a p (gave_up S \<or> r = Done False \<and> j \<noteq> i) (loc S k) (view (procs s' ! k))" if "k < length (procs s')" "k \<noteq> me" for k
        using that old [of k] full 1 by (auto simp: wakeup_def intro!: entry_wake_readers)
    qed (use 1 b in \<open>auto simp: wakeup_def wake_one_def intro!: entry_running\<close>)
  next
    case 2
    show ?thesis
    proof (rule run_ends)
      show "entry_ok a p (gave_up S \<or> r = Done False \<and> j \<noteq> i) (loc S k) (view (procs s' ! k))" if "k < length (procs s')" "k \<noteq> me" for k
        unfolding 2(2) by (rule entry_mono [OF old [of k]]) (use that 2 w(3) in auto)
    qed (use 2 b in \<open>auto intro!: entry_running\<close>)
  next
    case 3
    let ?t = "wakeup (PipeReadChan a) s"
    have t: "ptable_ok ?t" "cpu_proc ?t c = Some me" using b(1,2) by (simp_all add: ok_wakeup) (simp add: wakeup_def)
    show ?thesis
    proof (rule run_ends)
      show "ptable_ok (if r = Sleeps then scheduler_return c s' else s')" using 3 step_sleeps [OF t] by simp
      show "entry_ok a p (gave_up S \<or> r = Done False \<and> j \<noteq> i) (loc S k) (view (procs s' ! k))" if "k < length (procs s')" "k \<noteq> me" for k
        using that old [of k] full 3 by (auto simp: wakeup_def sleep_enter_def intro!: entry_wake_readers)
    qed (use 3 b in \<open>auto simp: wakeup_def sleep_enter_def entry_ok_def alive_def\<close>)
  qed
qed

lemma reads_inv:
  assumes "pipe_sys_inv a S" "cpu_proc (ptb S) c = Some me" "read_from S me n s" "piperead_run me a n (pip S) s = (r, p, s')"
  shows "pipe_sys_inv a ((run_end c me (Reading n) (r = Sleeps) s' p S)\<lparr>gave_up := gave_up S\<rparr>)"
proof -
  note b = run_begins [OF assms(1,2) disjI2 [OF assms(3)]]
  have old: "entry_ok a (pip S) (gave_up S) (loc S k) (view (procs s ! k))" if "k < length (procs s)" "k \<noteq> me" for k
    using entry_okD [OF assms(1), of k] b(3) b(7) [of k] that by simp
  from assms(4) show ?thesis
  proof (cases rule: piperead_run_cases)
    case 1
    then show ?thesis
      by (intro run_ends) (use b old step_sleeps [OF b(1,2)] in \<open>auto simp: sleep_enter_def entry_ok_def [of _ _ _ "Reading n"] alive_def\<close>)
  next
    case 2
    then show ?thesis by (intro run_ends) (use b old in \<open>auto intro!: entry_running\<close>)
  next
    case (3 bs)
    show ?thesis
    proof (rule run_ends)
      show "ptable_ok (if r = Sleeps then scheduler_return c s' else s')" using 3 b(1) by (simp add: ok_wakeup)
      show "entry_ok a p (gave_up S) (loc S k) (view (procs s' ! k))" if "k < length (procs s')" "k \<noteq> me" for k
        using that old [of k] 3 by (auto simp: wakeup_def intro!: entry_wake_writers)
    qed (use 3 b in \<open>auto simp: wakeup_def wake_one_def intro!: entry_running\<close>)
  qed
qed

lemma closes_inv:
  assumes "pipe_sys_inv a S" "pipeclose_run a w (pip S) (ptb S) = (fr, p, s')"
  shows "pipe_sys_inv a (S\<lparr>ptb := s', pip := p\<rparr>)"
proof -
  note e = entry_okD [OF assms(1)]
  have ok: "ptable_ok (ptb S)" using assms(1) by (simp add: pipe_sys_inv_def)
  show ?thesis
  proof (cases w)
    case True
    then have "s' = wakeup (PipeReadChan a) (ptb S)" "p = (pip S)\<lparr>writeopen := False\<rparr>" using assms(2) by (auto simp: pipeclose_run_def)
    then show ?thesis using ok_wakeup [OF ok, of "PipeReadChan a"] e by (auto simp: pipe_sys_inv_def wakeup_def intro!: entry_wake_readers)
  next
    case False
    then have "s' = wakeup (PipeWriteChan a) (ptb S)" "p = (pip S)\<lparr>readopen := False\<rparr>" using assms(2) by (auto simp: pipeclose_run_def)
    then show ?thesis using ok_wakeup [OF ok, of "PipeWriteChan a"] e by (auto simp: pipe_sys_inv_def wakeup_def intro!: entry_wake_writers)
  qed
qed

lemma kills_inv:
  assumes "pipe_sys_inv a S" "kill pid (ptb S) = (r, s')" shows "pipe_sys_inv a (S\<lparr>ptb := s'\<rparr>)"
proof -
  have ok: "ptable_ok (ptb S)" using assms(1) by (simp add: pipe_sys_inv_def)
  have "length (procs s') = length (procs (ptb S))" using assms(2) by (auto simp: kill_def split: option.splits)
  moreover have k: "p_chan (procs s' ! i) = p_chan (procs (ptb S) ! i) \<and>
      (p_state (procs s' ! i) = p_state (procs (ptb S) ! i) \<or> p_state (procs s' ! i) = RUNNABLE)" for i
    using assms(2) scan_SomeD(1) [of "\<lambda>p. p_pid p = pid" "procs (ptb S)"]
    by (auto simp: kill_def nth_list_update split: option.splits)
  ultimately have "entry_ok a (pip S) (gave_up S) (loc S i) (view (procs s' ! i))" if "i < length (procs s')" for i
    using entry_okD [OF assms(1), of i] k [of i] that by (elim conjE disjE) (simp_all add: entry_ok_def waits_on_def alive_def)
  then show ?thesis using ptable_step_ok [OF ptable_step.kills [OF assms(2)] ok] by (simp add: pipe_sys_inv_def)
qed

lemma rest_inv:
  assumes "pipe_sys_inv a S" "rest_step (pipe_chan a) (ptb S) s'" shows "pipe_sys_inv a (S\<lparr>ptb := s'\<rparr>)"
proof -
  have ok: "ptable_ok (ptb S)" using assms(1) by (simp add: pipe_sys_inv_def)
  have "waiters_alive (pipe_chan a) (ptb S)"
    using entry_okD [OF assms(1)] by (auto simp: waiters_alive_def all_set_conv_all_nth entry_ok_def)
  from pipes.rest_keeps [OF assms(2) ok this] have q: "quiet (pipe_chan a) (ptb S) s'" "ptable_ok s'" "waiters_alive (pipe_chan a) s'" by auto
  have "entry_ok a (pip S) (gave_up S) (loc S i) (view (procs s' ! i))" if i: "i < length (procs s')" for i
  proof -
    have l: "i < length (procs (ptb S))" using i quietD(1) [OF q(1)] by simp
    have k: "undisturbed (pipe_chan a) (view (procs (ptb S) ! i)) (view (procs s' ! i))" using quietD(2) [OF q(1) l] l i by simp
    show ?thesis using entry_okD [OF assms(1) l] k
      by (cases "loc S i") (auto simp: entry_ok_def undisturbed_def waits_on_def pipe_chan_def split: option.splits if_splits)
  qed
  then show ?thesis using q(2) by (simp add: pipe_sys_inv_def)
qed

lemma pipe_reach_inv: "pipe_reach a S \<Longrightarrow> pipe_sys_inv a S"
proof (induction rule: pipe_reach.induct)
  case (init S)
  then have no: "\<not> waits_on (pipe_chan a) (view (procs (ptb S) ! i))" if "i < length (procs (ptb S))" for i
    using that by (auto simp: pipe_start_def views_def)
  have "entry_ok a (pip S) (gave_up S) Outside (view (procs (ptb S) ! i))" if "i < length (procs (ptb S))" for i
    using no [OF that] by (auto simp: entry_ok_def waits_on_def split: option.splits)
  then show ?case using init by (simp add: pipe_start_def pipe_sys_inv_def)
next
  case (step S S')
  from step(2,3) show ?case
  proof cases
    case (reads c me n s r p s')
    have "(run_end c me (Reading n) (r = Sleeps) s' p S)\<lparr>gave_up := gave_up S\<rparr> = run_end c me (Reading n) (r = Sleeps) s' p S"
      by (simp add: run_end_def)
    then show ?thesis using reads_inv [OF step(3) reads(2-4)] reads(1) by simp
  qed (use step(3) in \<open>auto intro: writes_inv closes_inv kills_inv rest_inv\<close>)
qed

section \<open>Properties\<close>

text \<open>C20: No wakeup is lost as long as no writer gives up halfway.  In every state that the kernel reaches from the creation of a pipe on, with any number of
  readers, writers and closers and with kills, and unless a call of \<open>pipewrite\<close> has returned \<open>-1\<close> after storing bytes
  since its last sleep: a process that sleeps in \<open>piperead\<close> would find the pipe empty and its write end open, and a
  process that sleeps in \<open>pipewrite\<close> would find it full (512 bytes) and its read end open.  So no process sleeps that
  could go on.\<close>

theorem pipe_wakeups:
  assumes "pipe_reach a S" "\<not> gave_up S" "i < length (procs (ptb S))" "p_state (procs (ptb S) ! i) = SLEEPING"
  shows "(loc S i = Reading n \<longrightarrow> pipe_bytes (pip S) = [] \<and> writeopen (pip S)) \<and>
    (loc S i = Writing cs \<longrightarrow> length (pipe_bytes (pip S)) = PIPESIZE \<and> readopen (pip S))"
proof -
  have w: "must_wait (pip S) (loc S i)" using entry_okD [OF pipe_reach_inv [OF assms(1)] assms(3)] assms(2,4) by (simp add: entry_ok_def)
  show ?thesis
  proof (intro conjI impI)
    assume "loc S i = Reading n"
    then show "pipe_bytes (pip S) = []" "writeopen (pip S)" using w by (simp_all add: pipe_empty_iff)
  next
    assume "loc S i = Writing cs"
    then show "length (pipe_bytes (pip S)) = PIPESIZE" "readopen (pip S)" using w by (simp_all add: pipe_full_iff)
  qed
qed

text \<open>Process 1 reads from an empty pipe and sleeps.\<close>

definition pipe_boot :: pipesys where
  "pipe_boot = \<lparr>ptb = three_running, pip = new_pipe, loc = (\<lambda>_. Outside), gave_up = False\<rparr>"

definition reader_asleep :: pipesys where
  "reader_asleep = run_end 1 1 (Reading 5) True (sleep_enter 1 (PipeReadChan 0) three_running) new_pipe pipe_boot"

lemma reader_asleep_state:
  "\<not> gave_up reader_asleep" "loc reader_asleep = (\<lambda>_. Outside)(1 := Reading 5)" "pip reader_asleep = new_pipe" "cpu_proc (ptb reader_asleep) 0 = Some 0"
  "procs (ptb reader_asleep) = [running_proc 1 None, (running_proc 2 (Some 0))\<lparr>p_chan := Some (PipeReadChan 0), p_state := SLEEPING\<rparr>, running_proc 3 (Some 0)] @
     replicate 61 zero_proc"
  by (simp_all add: reader_asleep_def run_end_def pipe_boot_def sleep_enter_def three_running_def scheduler_return_def upd_proc_def)

lemma reader_asleep_reach: "pipe_reach 0 reader_asleep"
proof -
  have "\<exists>p. length (pi_data p) = PIPESIZE \<and> new_pipe = pipe_init p"
    by (rule exI [of _ new_pipe]) (simp add: new_pipe_def pipe_init_def)
  moreover have "\<not> waits_on (pipe_chan 0) v" if "v \<in> set (views three_running)" for v
    using that by (auto simp: views_def three_running_def running_proc_def zero_proc_def waits_on_def)
  ultimately have r0: "pipe_reach 0 pipe_boot"
    by (intro pipe_reach.init) (simp add: pipe_start_def pipe_boot_def three_running_ok)
  have c: "cpu_proc (ptb pipe_boot) 1 = Some 1" by (simp add: pipe_boot_def three_running_def)
  have f: "read_from pipe_boot 1 5 three_running" by (simp add: read_from_def pipe_boot_def)
  have "\<not> p_killed (procs three_running ! 1)" unfolding three_running_nth by (simp add: running_proc_def zero_proc_def)
  then have p: "piperead_run 1 0 5 (pip pipe_boot) three_running = (Sleeps, new_pipe, sleep_enter 1 (PipeReadChan 0) three_running)"
    by (simp add: piperead_run_def pipe_boot_def new_pipe_def)
  show ?thesis using pipe_reach.step [OF r0 pipe_step.reads [OF c f p]] by (simp add: reader_asleep_def)
qed

theorem pipe_wakeups_witness:
  "pipe_reach 0 reader_asleep \<and> loc reader_asleep 1 = Reading 5 \<and> pipe_bytes (pip reader_asleep) = [] \<and> writeopen (pip reader_asleep)"
proof -
  have "1 < length (procs (ptb reader_asleep))" "p_state (procs (ptb reader_asleep) ! 1) = SLEEPING" "loc reader_asleep 1 = Reading 5"
    by (simp_all add: reader_asleep_state)
  then show ?thesis using pipe_wakeups [OF reader_asleep_reach reader_asleep_state(1), of 1 5] reader_asleep_reach by blast
qed



end
