(* ===== verification/Ide.thy ===== *)
theory Ide
  imports Bio
begin

text \<open>
  The IDE disk driver (\<^verbatim>\<open>src/xv6/ide.c\<close>): the queue of requests, the port writes that start one, and
  the interrupt handler.  The drive itself is a parameter: from the contents of the disk and the
  port operations since the last interrupt it gives the sectors it writes, the status byte that
  \<open>idewait(1)\<close> reads and the data that \<open>insl\<close> reads.  What the driver relies on is \<open>drive_ok\<close>.
  The theorem relates the driver to the in-memory driver on which the buffer cache is verified.
\<close>

section \<open>Definitions\<close>

definition FSSIZE :: u32 where "FSSIZE = 1000"
definition IDE_DF :: u8 where "IDE_DF = 0x20"
definition IDE_ERR :: u8 where "IDE_ERR = 0x01"
definition IDE_CMD_READ :: u8 where "IDE_CMD_READ = 0x20"
definition IDE_CMD_WRITE :: u8 where "IDE_CMD_WRITE = 0x30"

datatype iop = Outb u16 u8 | Outsl bytes

type_synonym drive = "bytes list \<Rightarrow> iop list \<Rightarrow> (nat \<times> bytes) list \<times> u8 \<times> bytes"

record idest = bio +
  idequeue :: "nat list"
  havedisk1 :: bool
  ide_io :: "iop list"

text \<open>The result of \<open>idewait\<close> once the drive is ready, with status \<open>r\<close>.\<close>

definition idewait :: "bool \<Rightarrow> u8 \<Rightarrow> int" where
  "idewait checkerr r = (if checkerr \<and> (r AND (IDE_DF OR IDE_ERR)) \<noteq> 0 then - 1 else 0)"

text \<open>The port writes of \<open>idestart\<close>; a block is one sector.\<close>

definition select_sector :: "u32 \<Rightarrow> u32 \<Rightarrow> iop list" where
  "select_sector dev sector =
     [Outb 0x3f6 0, Outb 0x1f2 1,
      Outb 0x1f3 (ucast (sector AND 0xff)),
      Outb 0x1f4 (ucast (drop_bit 8 sector AND 0xff)),
      Outb 0x1f5 (ucast (drop_bit 16 sector AND 0xff)),
      Outb 0x1f6 (ucast (0xe0 OR push_bit 4 (dev AND 1) OR (drop_bit 24 sector AND 0x0f)))]"

definition ide_request :: "buf \<Rightarrow> iop list" where
  "ide_request b =
     select_sector (b_dev b) (b_blockno b) @
     (if b_dirty b then [Outb 0x1f7 IDE_CMD_WRITE, Outsl (b_data b)] else [Outb 0x1f7 IDE_CMD_READ])"

definition idestart :: "nat \<Rightarrow> 'a idest_scheme \<Rightarrow> 'a idest_scheme outcome" where
  "idestart k s =
     (if b_blockno (bufs s ! k) \<ge> FSSIZE then Panic ''incorrect blockno''
      else Ret (s\<lparr>ide_io := ide_io s @ ide_request (bufs s ! k)\<rparr>))"

definition do_writes :: "(nat \<times> bytes) list \<Rightarrow> bytes list \<Rightarrow> bytes list" where
  "do_writes ws d = foldl (\<lambda>d (n, b). d[n := b]) d ws"

definition ideintr :: "drive \<Rightarrow> 'a idest_scheme \<Rightarrow> 'a idest_scheme outcome" where
  "ideintr drive s =
     (case idequeue s of
        [] \<Rightarrow> Ret s
      | k # q \<Rightarrow>
          let (writes, status, data) = drive (memdisk s) (ide_io s);
              s = s\<lparr>idequeue := q, ide_io := [], memdisk := do_writes writes (memdisk s),
                    disk_writes := disk_writes s @ writes\<rparr>;
              s = (if \<not> b_dirty (bufs s ! k) \<and> idewait True status \<ge> 0 then set_bdata k data s else s);
              s = upd_buf k (\<lambda>b. b\<lparr>b_valid := True, b_dirty := False\<rparr>) s;
              s = wakeup (BufChan k) s
          in case q of [] \<Rightarrow> Ret s | k' # _ \<Rightarrow> idestart k' s)"

text \<open>
  \<open>iderw\<close> up to its sleep.  Appending follows the links from the head; the buffer is not in the queue
  already, because its lock is held and a process whose request is queued is asleep in \<open>iderw\<close>.
\<close>

definition iderw_submit :: "nat \<Rightarrow> nat \<Rightarrow> 'a idest_scheme \<Rightarrow> 'a idest_scheme outcome" where
  "iderw_submit me k s =
     (let b = bufs s ! k
      in if \<not> holdingsleep (mypid me s) (b_lock b) then Panic ''iderw: buf not locked''
         else if b_valid b \<and> \<not> b_dirty b then Panic ''iderw: nothing to do''
         else if b_dev b \<noteq> 0 \<and> \<not> havedisk1 s then Panic ''iderw: ide disk 1 not present''
         else
           let s = s\<lparr>idequeue := idequeue s @ [k]\<rparr>
           in if hd (idequeue s) = k then idestart k s else Ret s)"

text \<open>The condition of the loop in which \<open>iderw\<close> sleeps on the buffer.\<close>

definition iderw_waits :: "nat \<Rightarrow> 'a bio_scheme \<Rightarrow> bool" where
  "iderw_waits k s \<longleftrightarrow> \<not> (b_valid (bufs s ! k) \<and> \<not> b_dirty (bufs s ! k))"

section \<open>The drive\<close>

text \<open>What the driver relies on, for the second disk and every sector that the 28 address bits can name: a read
  command stores nothing, and delivers the selected sector unless the status reports an error; a write command
  stores the selected sector unless the status reports an error.\<close>

definition drive_ok :: "drive \<Rightarrow> bool" where
  "drive_ok drive \<longleftrightarrow>
     (\<forall>d sector. unat sector < length d \<and> sector < 0x10000000 \<longrightarrow>
        (\<exists>r y. drive d (select_sector 1 sector @ [Outb 0x1f7 IDE_CMD_READ]) = ([], r, y) \<and>
           (idewait True r = 0 \<longrightarrow> y = d ! unat sector)) \<and>
        (\<forall>x. \<exists>ws r y. drive d (select_sector 1 sector @ [Outb 0x1f7 IDE_CMD_WRITE, Outsl x]) = (ws, r, y) \<and>
           (idewait True r = 0 \<longrightarrow> ws = [(unat sector, x)])))"

text \<open>The status that the drive reports for the request at the head of the queue.\<close>

definition drive_status :: "drive \<Rightarrow> 'a idest_scheme \<Rightarrow> u8" where
  "drive_status drive s = fst (snd (drive (memdisk s) (ide_io s)))"

text \<open>A run of the driver: the requests submitted and completed, in order.  A request is for a block below
  \<open>FSSIZE\<close> of the second disk, which is the disk of the file system.  Between submission and completion, only
  buffers that are not queued change, and the process table changes in any way.\<close>

inductive ide_run :: "drive \<Rightarrow> nat list \<Rightarrow> nat list \<Rightarrow> idest \<Rightarrow> bool" for drive where
  start: "idequeue s = [] \<Longrightarrow> ide_io s = [] \<Longrightarrow> length (memdisk s) = unat FSSIZE \<Longrightarrow> ide_run drive [] [] s"
| submit: "ide_run drive sub com s \<Longrightarrow> k \<notin> set (idequeue s) \<Longrightarrow> k < length (bufs s) \<Longrightarrow> b_dev (bufs s ! k) = 1 \<Longrightarrow>
    b_blockno (bufs s ! k) < FSSIZE \<Longrightarrow> iderw_submit me k s = Ret s' \<Longrightarrow> ide_run drive (sub @ [k]) com s'"
| intr: "ide_run drive sub com s \<Longrightarrow> idequeue s = k # q \<Longrightarrow> ideintr drive s = Ret s' \<Longrightarrow> ide_run drive sub (com @ [k]) s'"
| edit: "ide_run drive sub com s \<Longrightarrow> k \<notin> set (idequeue s) \<Longrightarrow> ide_run drive sub com (upd_buf k f s)"
| sched: "ide_run drive sub com s \<Longrightarrow> ide_run drive sub com (s\<lparr>procs := ps\<rparr>)"

definition ide_inv :: "'a idest_scheme \<Rightarrow> bool" where
  "ide_inv s \<longleftrightarrow>
     distinct (idequeue s) \<and> length (memdisk s) = unat FSSIZE \<and>
     ide_io s = (case idequeue s of [] \<Rightarrow> [] | k # q \<Rightarrow> ide_request (bufs s ! k)) \<and>
     (\<forall>k \<in> set (idequeue s). k < length (bufs s) \<and> b_dev (bufs s ! k) = 1 \<and> b_blockno (bufs s ! k) < FSSIZE \<and> iderw_waits k s)"

lemma do_writes_length [simp]: "length (do_writes ws d) = length d"
  by (induction ws arbitrary: d) (auto simp: do_writes_def)

lemma idestart_ok: "b_blockno (bufs s ! k) < FSSIZE \<Longrightarrow> idestart k s = Ret (s\<lparr>ide_io := ide_io s @ ide_request (bufs s ! k)\<rparr>)"
  by (simp add: idestart_def not_le)

lemma submit_inv:
  assumes "ide_inv s" "k \<notin> set (idequeue s)" "k < length (bufs s)" "b_dev (bufs s ! k) = 1" "b_blockno (bufs s ! k) < FSSIZE" "iderw_submit me k s = Ret s'"
  shows "ide_inv s' \<and> idequeue s' = idequeue s @ [k]"
proof (cases "idequeue s")
  case Nil
  then show ?thesis using assms
    by (auto simp: iderw_submit_def Let_def idestart_def ide_inv_def iderw_waits_def split: if_splits)
next
  case (Cons j q)
  then show ?thesis using assms
    by (auto simp: iderw_submit_def Let_def ide_inv_def iderw_waits_def split: if_splits)
qed

text \<open>One interrupt, on the buffer at the head of the queue.\<close>

definition complete :: "drive \<Rightarrow> nat \<Rightarrow> 'a idest_scheme \<Rightarrow> 'a idest_scheme" where
  "complete drive k s =
     (let (writes, status, data) = drive (memdisk s) (ide_io s)
      in wakeup (BufChan k)
          (upd_buf k (\<lambda>b. b\<lparr>b_data := (if \<not> b_dirty b \<and> idewait True status \<ge> 0 then data else b_data b), b_valid := True, b_dirty := False\<rparr>)
            (s\<lparr>memdisk := do_writes writes (memdisk s), disk_writes := disk_writes s @ writes\<rparr>)))"

lemma ideintr_eq:
  assumes "ide_inv s" "idequeue s = k # q"
  shows "ideintr drive s = Ret ((complete drive k s)\<lparr>idequeue := q, ide_io := (case q of [] \<Rightarrow> [] | k' # _ \<Rightarrow> ide_request (bufs s ! k'))\<rparr>)"
proof -
  obtain w r d where d: "drive (memdisk s) (ide_io s) = (w, r, d)" by (cases "drive (memdisk s) (ide_io s)") auto
  have k: "k < length (bufs s)" using assms by (simp add: ide_inv_def)
  have "k' \<noteq> k \<and> b_blockno (bufs s ! k') < FSSIZE" if "q = k' # q'" for k' q' using assms that by (auto simp: ide_inv_def)
  then show ?thesis using d assms(2) k
    by (cases q) (auto simp: ideintr_def complete_def Let_def idestart_def upd_buf_def set_bdata_def wakeup_def wakeup1_def not_le)
qed

lemma complete_simps [simp]:
  "idequeue (complete drive k s) = idequeue s" "length (memdisk (complete drive k s)) = length (memdisk s)"
  "length (bufs (complete drive k s)) = length (bufs s)" "j \<noteq> k \<Longrightarrow> bufs (complete drive k s) ! j = bufs s ! j"
  by (auto simp: complete_def Let_def upd_buf_def wakeup_def wakeup1_def split: prod.split)

lemma intr_inv:
  assumes "ide_inv s" "idequeue s = k # q" "ideintr drive s = Ret s'"
  shows "ide_inv s' \<and> idequeue s' = q"
proof -
  have same: "\<forall>j \<in> set q. bufs (complete drive k s) ! j = bufs s ! j"
    using assms(1,2) by (auto simp: ide_inv_def intro!: complete_simps(4))
  have s': "s' = (complete drive k s)\<lparr>idequeue := q, ide_io := (case q of [] \<Rightarrow> [] | k' # _ \<Rightarrow> ide_request (bufs s ! k'))\<rparr>"
    using assms(3) unfolding ideintr_eq [OF assms(1,2)] by simp
  have q: "distinct q" "length (memdisk s) = unat FSSIZE" "\<forall>j \<in> set q. j < length (bufs s) \<and> b_dev (bufs s ! j) = 1 \<and> b_blockno (bufs s ! j) < FSSIZE \<and> iderw_waits j s"
    using assms(1,2) by (simp_all add: ide_inv_def)
  have io: "ide_io s' = (case q of [] \<Rightarrow> [] | k \<Rightarrow> ide_request (bufs s' ! hd k))" using same unfolding s' by (cases q) simp_all
  show ?thesis unfolding ide_inv_def using io q same unfolding s' by (cases q) (simp_all add: iderw_waits_def)
qed

lemma edit_inv:
  assumes "ide_inv s" "k \<notin> set (idequeue s)"
  shows "ide_inv (upd_buf k f s)"
proof -
  have "\<forall>j \<in> set (idequeue s). (bufs s)[k := f (bufs s ! k)] ! j = bufs s ! j" using assms(2) by (metis nth_list_update_neq)
  then show ?thesis using assms(1) by (auto simp: ide_inv_def iderw_waits_def upd_buf_def split: list.splits)
qed

lemma ide_run_inv: "ide_run drive sub com s \<Longrightarrow> ide_inv s \<and> sub = com @ idequeue s"
proof (induction rule: ide_run.induct)
  case (submit sub com s k me s')
  then show ?case using submit_inv [of s k me s'] by auto
next
  case (intr sub com s k q s')
  then show ?case using intr_inv [of s k q drive s'] by auto
next
  case (edit sub com s k f)
  then show ?case using edit_inv [of s k f] by (auto simp: upd_buf_def)
qed (auto simp: ide_inv_def iderw_waits_def split: list.splits)

lemma complete_refines:
  assumes "drive_ok drive" "ide_inv s" "idequeue s = k # q" "idewait True (drive_status drive s) = 0"
    "holdingsleep (mypid me s) (b_lock (bufs s ! k))"
  shows "iderw me k s = Ret (s\<lparr>memdisk := memdisk (complete drive k s), disk_writes := disk_writes (complete drive k s), bufs := bufs (complete drive k s)\<rparr>)"
proof -
  let ?b = "bufs s ! k"
  have swap: "b\<lparr>b_dirty := False, b_valid := True\<rparr> = b\<lparr>b_valid := True, b_dirty := False\<rparr>" for b :: buf by simp
  have clean: "b\<lparr>b_data := x, b_valid := True, b_dirty := False\<rparr> = b\<lparr>b_data := x, b_valid := True\<rparr>" if "\<not> b_dirty b" for x and b :: buf
    using that by (cases b) simp
  have inv: "k < length (bufs s)" "b_blockno ?b < 0x10000000" "unat (b_blockno ?b) < length (memdisk s)" "ide_io s = ide_request ?b" "\<not> (b_valid ?b \<and> \<not> b_dirty ?b)"
    "b_dev ?b = 1"
    using assms(2,3) by (auto simp: ide_inv_def iderw_waits_def word_less_nat_alt FSSIZE_def)
  show ?thesis
  proof (cases "b_dirty ?b")
    case True
    obtain ws r y where d: "drive (memdisk s) (ide_io s) = (ws, r, y)" "idewait True r = 0 \<longrightarrow> ws = [(unat (b_blockno ?b), b_data ?b)]"
      using assms(1) inv True unfolding drive_ok_def ide_request_def by fastforce
    then have "drive (memdisk s) (ide_io s) = ([(unat (b_blockno ?b), b_data ?b)], r, y)" using assms(4) by (simp add: drive_status_def)
    then show ?thesis using True inv assms(5)
      by (simp add: iderw_def complete_def Let_def upd_buf_def wakeup_def wakeup1_def do_writes_def swap)
  next
    case False
    obtain r y where d: "drive (memdisk s) (ide_io s) = ([], r, y)" "idewait True r = 0 \<longrightarrow> y = memdisk s ! unat (b_blockno ?b)"
      using assms(1) inv False unfolding drive_ok_def ide_request_def by fastforce
    then have "drive (memdisk s) (ide_io s) = ([], r, memdisk s ! unat (b_blockno ?b))" "idewait True r = 0"
      using assms(4) by (simp_all add: drive_status_def)
    then show ?thesis using False inv assms(5)
      by (simp add: iderw_def complete_def Let_def upd_buf_def wakeup_def wakeup1_def do_writes_def clean)
  qed
qed

section \<open>Properties\<close>

text \<open>C5: On a disk of \<open>FSSIZE\<close> blocks, for requests to device 1 for blocks below \<open>FSSIZE\<close>, and a drive whose
  commands either report an error or read or write the selected sector, the driver serves requests in the order
  of their submission.  The interrupt for the request \<open>k\<close> at the head of the queue never panics; it takes \<open>k\<close> off
  the queue, wakes the processes that sleep on the buffer, whose wait is over, and changes no other buffer.  When
  the drive reports no error, it has on the disk and on the buffers exactly the effect of the in-memory \<open>iderw\<close>,
  on which the buffer cache is verified, called at that moment by the process that holds the lock of the buffer.
  When the drive reports an error, the buffer keeps the data it had and is marked valid and clean all the same.\<close>

theorem ide_refines_memide:
  assumes "drive_ok drive" "ide_run drive sub com s"
  shows "sub = com @ idequeue s \<and>
    (idequeue s = k # q \<longrightarrow>
      (\<exists>s2. ideintr drive s = Ret s2 \<and> idequeue s2 = q \<and> procs s2 = map (wake_one (BufChan k)) (procs s) \<and>
         \<not> iderw_waits k s2 \<and> (\<forall>j. j \<noteq> k \<longrightarrow> bufs s2 ! j = bufs s ! j) \<and>
         (idewait True (drive_status drive s) = 0 \<and> holdingsleep (mypid me s) (b_lock (bufs s ! k)) \<longrightarrow>
            (\<exists>s1. iderw me k s = Ret s1 \<and> memdisk s2 = memdisk s1 \<and> disk_writes s2 = disk_writes s1 \<and> bufs s2 = bufs s1)) \<and>
         (idewait True (drive_status drive s) \<noteq> 0 \<longrightarrow> bufs s2 ! k = (bufs s ! k)\<lparr>b_valid := True, b_dirty := False\<rparr>)))"
proof (intro conjI impI)
  show "sub = com @ idequeue s" using ide_run_inv [OF assms(2)] by simp
  assume h: "idequeue s = k # q"
  let ?t = "(complete drive k s)\<lparr>idequeue := q, ide_io := (case q of [] \<Rightarrow> [] | k' # _ \<Rightarrow> ide_request (bufs s ! k'))\<rparr>"
  have inv: "ide_inv s" using ide_run_inv [OF assms(2)] by simp
  then have k: "k < length (bufs s)" using h by (simp add: ide_inv_def)
  have "procs (complete drive k s) = map (wake_one (BufChan k)) (procs s)" "\<not> iderw_waits k (complete drive k s)"
    using k by (auto simp: complete_def Let_def iderw_waits_def upd_buf_def wakeup_def wakeup1_def split: prod.split)
  moreover have "bufs (complete drive k s) ! k = (bufs s ! k)\<lparr>b_valid := True, b_dirty := False\<rparr>" if "idewait True (drive_status drive s) \<noteq> 0"
    using that k by (auto simp: complete_def Let_def drive_status_def idewait_def upd_buf_def wakeup_def wakeup1_def split: prod.splits)
  moreover have "\<exists>s1. iderw me k s = Ret s1 \<and> memdisk ?t = memdisk s1 \<and> disk_writes ?t = disk_writes s1 \<and> bufs ?t = bufs s1"
    if "idewait True (drive_status drive s) = 0" "holdingsleep (mypid me s) (b_lock (bufs s ! k))"
    using complete_refines [OF assms(1) inv h that] by simp
  ultimately show "\<exists>s2. ideintr drive s = Ret s2 \<and> idequeue s2 = q \<and> procs s2 = map (wake_one (BufChan k)) (procs s) \<and>
         \<not> iderw_waits k s2 \<and> (\<forall>j. j \<noteq> k \<longrightarrow> bufs s2 ! j = bufs s ! j) \<and>
         (idewait True (drive_status drive s) = 0 \<and> holdingsleep (mypid me s) (b_lock (bufs s ! k)) \<longrightarrow>
            (\<exists>s1. iderw me k s = Ret s1 \<and> memdisk s2 = memdisk s1 \<and> disk_writes s2 = disk_writes s1 \<and> bufs s2 = bufs s1)) \<and>
         (idewait True (drive_status drive s) \<noteq> 0 \<longrightarrow> bufs s2 ! k = (bufs s ! k)\<lparr>b_valid := True, b_dirty := False\<rparr>)"
    using ideintr_eq [OF inv h, of drive] by (intro exI [of _ ?t]) (simp add: iderw_waits_def)
qed

text \<open>A drive that decodes the port writes, and a read of block 3.\<close>

definition pio_sector :: "u8 \<Rightarrow> u8 \<Rightarrow> u8 \<Rightarrow> u8 \<Rightarrow> u32" where
  "pio_sector a b c e = ucast a OR push_bit 8 (ucast b) OR push_bit 16 (ucast c) OR push_bit 24 (ucast e AND 0x0f)"

lemma high_bits:
  fixes w :: u32
  assumes "w < 0x10000000" "28 \<le> n" shows "\<not> bit w n"
proof
  assume "bit w n"
  moreover have "take_bit 28 w = w"
    using assms(1) by (simp add: take_bit_eq_mod word_arith_nat_mod word_less_nat_alt)
  ultimately have "bit (take_bit 28 w) n" by simp
  then show False using assms(2) by (simp add: bit_take_bit_iff)
qed

lemma sector_parts:
  fixes w :: u32
  assumes "w < 0x10000000"
  shows "pio_sector (ucast (w AND 0xff)) (ucast (drop_bit 8 w AND 0xff)) (ucast (drop_bit 16 w AND 0xff))
    (ucast (0xe0 OR push_bit 4 (1 AND 1) OR (drop_bit 24 w AND 0x0f))) = w"
proof -
  have c: "(0xff :: u32) = mask 8" "(0x0f :: u32) = mask 4" "(0xe0 :: u32) = push_bit 5 7" by (simp_all add: mask_eq_exp_minus_1)
  have low: "\<not> bit (224 :: int) m \<and> \<not> bit (16 :: int) m" if "m < 4" for m :: nat
    using that by (auto simp: less_Suc_eq numeral_eq_Suc)
  show ?thesis
    unfolding pio_sector_def c
  proof (rule bit_word_eqI)
    fix n assume "n < LENGTH(32)"
    then consider "n < 8" | "8 \<le> n" "n < 16" | "16 \<le> n" "n < 24" | "24 \<le> n" "n < 28" | "28 \<le> n" "n < 32" by fastforce
    then show "bit (ucast (ucast (w AND mask 8) :: u8) OR push_bit 8 (ucast (ucast (drop_bit 8 w AND mask 8) :: u8)) OR
        push_bit 16 (ucast (ucast (drop_bit 16 w AND mask 8) :: u8)) OR
        push_bit 24 (ucast (ucast (push_bit 5 7 OR push_bit 4 (1 AND 1) OR drop_bit 24 w AND mask 4) :: u8) AND mask 4) :: u32) n = bit w n"
      by cases (auto simp: bit_simps high_bits [OF assms] low less_diff_conv2)
  qed
qed

fun pio_drive :: drive where
  "pio_drive d [Outb _ _, Outb _ _, Outb _ a, Outb _ b, Outb _ c, Outb _ e, Outb _ cmd, Outsl x] =
     ([(unat (pio_sector a b c e), x)], 0x40, [])"
| "pio_drive d [Outb _ _, Outb _ _, Outb _ a, Outb _ b, Outb _ c, Outb _ e, Outb _ cmd] =
     ([], 0x40, d ! unat (pio_sector a b c e))"
| "pio_drive d _ = ([], 0x41, [])"

lemma pio_drive_ok: "drive_ok pio_drive"
  unfolding drive_ok_def
proof (intro allI impI conjI, goal_cases)
  case (1 d w)
  then show ?case using sector_parts [of w] by (simp add: select_sector_def idewait_def IDE_DF_def IDE_ERR_def)
next
  case (2 d w x)
  then show ?case using sector_parts [of w] by (simp add: select_sector_def)
qed

definition image_7 :: "bytes list" where "image_7 = replicate (unat FSSIZE) [7]"

lemma image_7: "length image_7 = unat FSSIZE" "image_7 ! 3 = [7]"
  unfolding image_7_def length_replicate by (simp_all only: nth_replicate FSSIZE_def) simp

definition read_block_3 :: idest where
  "read_block_3 =
     \<lparr>mem = (\<lambda>_. 0), freelist = 0, use_lock = False, kend = 0, kdata = 0, procs = [zero_proc\<lparr>p_pid := 5\<rparr>], nextpid = 6, initproc = None,
      ticks = 0, cpu_proc = (\<lambda>_. None), memdisk = image_7, disk_writes = [],
      bufs = [zero_buf\<lparr>b_dev := 1, b_blockno := 3, b_lock := \<lparr>locked = True, lk_pid = 5\<rparr>\<rparr>], lru = [0],
      idequeue = [], havedisk1 = True, ide_io = []\<rparr>"

theorem ide_refines_memide_witness:
  "\<exists>s s2. iderw_submit 0 0 read_block_3 = Ret s \<and> ideintr pio_drive s = Ret s2 \<and> b_data (bufs s2 ! 0) = [7] \<and> idequeue s2 = []"
proof -
  have "\<exists>s. iderw_submit 0 0 read_block_3 = Ret s \<and> idequeue s = [0] \<and> bufs s = bufs read_block_3 \<and> procs s = procs read_block_3 \<and> memdisk s = memdisk read_block_3"
    by (simp add: iderw_submit_def Let_def read_block_3_def holdingsleep_def mypid_def zero_buf_def idestart_def FSSIZE_def)
  then obtain s where s: "iderw_submit 0 0 read_block_3 = Ret s" "idequeue s = [0]" "bufs s = bufs read_block_3" "procs s = procs read_block_3"
    "memdisk s = memdisk read_block_3" by blast
  have r0: "ide_run pio_drive [] [] read_block_3" by (rule ide_run.start) (simp_all add: read_block_3_def image_7)
  have r: "ide_run pio_drive [0] [] s"
    using ide_run.submit [OF r0 _ _ _ _ s(1)] by (simp add: read_block_3_def FSSIZE_def)
  have "ide_io s = ide_request (bufs read_block_3 ! 0)" using ide_run_inv [OF r] s(2,3) by (simp add: ide_inv_def)
  then have "drive_status pio_drive s = 0x40"
    by (simp add: drive_status_def ide_request_def read_block_3_def zero_buf_def select_sector_def)
  then have ok: "idewait True (drive_status pio_drive s) = 0" by (simp add: idewait_def IDE_DF_def IDE_ERR_def)
  have h: "holdingsleep (mypid 0 s) (b_lock (bufs s ! 0))" by (simp add: s mypid_def read_block_3_def holdingsleep_def)
  obtain s1 s2 where o: "iderw 0 0 s = Ret s1" "ideintr pio_drive s = Ret s2" "bufs s2 = bufs s1" "idequeue s2 = []"
    using ide_refines_memide [OF pio_drive_ok r, of 0 "[]" 0] s(2) h ok by blast
  have "b_data (bufs s1 ! 0) = [7]"
    using o(1) h by (auto simp: iderw_def Let_def s read_block_3_def zero_buf_def upd_buf_def image_7 split: if_splits)
  then show ?thesis using s(1) o by auto
qed

end
