(* ===== verification/Grep.thy ===== *)
theory Grep
  imports C_Strings
begin

text \<open>
  The pattern matcher and the line loop of \<^verbatim>\<open>src/xv6/grep.c\<close>.  A string is its list of bytes; reading at or
  after its end gives the terminating zero (\<open>hd0\<close>).  The matcher is compared with the language of the
  pattern, the line loop with the list of lines of its input.
\<close>

section \<open>Definitions\<close>

function (sequential) matchhere :: "bytes \<Rightarrow> bytes \<Rightarrow> bool"
  and matchstar :: "u8 \<Rightarrow> bytes \<Rightarrow> bytes \<Rightarrow> bool" where
  "matchhere re str =
     (if hd0 re = 0 then True
      else if hd0 (tl re) = 42 then matchstar (hd0 re) (tl (tl re)) str
      else if hd0 re = 36 \<and> hd0 (tl re) = 0 then hd0 str = 0
      else if hd0 str \<noteq> 0 \<and> (hd0 re = 46 \<or> hd0 re = hd0 str) then matchhere (tl re) (tl str)
      else False)"
| "matchstar c re str =
     (if matchhere re str then True
      else if hd0 str \<noteq> 0 \<and> (hd0 str = c \<or> c = 46) then matchstar c re (tl str)
      else False)"
  by pat_completeness auto
termination
proof (relation "measures [case_sum (\<lambda>(re, str). length re) (\<lambda>(c, re, str). length re),
      case_sum (\<lambda>(re, str). length str) (\<lambda>(c, re, str). length str), case_sum (\<lambda>_. 0) (\<lambda>_. 1)]", goal_cases)
  case 1
  then show ?case by simp
next
  case (2 re str)
  then show ?case by (cases re) auto
next
  case (3 re str)
  then show ?case by (cases re) auto
next
  case (4 c re str)
  then show ?case by simp
next
  case (5 c re str)
  then show ?case by (cases str) auto
qed

declare matchhere.simps [simp del] matchstar.simps [simp del]

text \<open>The loop of \<open>match\<close> looks at the empty string at the end of the text, too.\<close>

fun match_loop :: "bytes \<Rightarrow> bytes \<Rightarrow> bool" where
  "match_loop re [] = matchhere re []"
| "match_loop re (c # str) = (if matchhere re (c # str) then True else if c \<noteq> 0 then match_loop re str else False)"

definition match :: "bytes \<Rightarrow> bytes \<Rightarrow> bool" where
  "match re str = (if hd0 re = 94 then matchhere (tl re) str else match_loop re str)"

lemma strchr_less: "strchr p c = Some k \<Longrightarrow> k < length p"
  by (induction p arbitrary: k) (auto split: if_splits)

text \<open>The inner loop of \<open>grep\<close> on the bytes in the buffer: the bytes written, and the bytes from \<open>p\<close> on.\<close>

function lines_loop :: "bytes \<Rightarrow> bytes \<Rightarrow> bytes \<times> bytes" where
  "lines_loop pattern p =
     (case strchr p 10 of
        None \<Rightarrow> ([], p)
      | Some k \<Rightarrow>
          let (out, r) = lines_loop pattern (drop (Suc k) p)
          in ((if match pattern (take k p) then take (Suc k) p else []) @ out, r))"
  by pat_completeness auto
termination by (relation "measure (\<lambda>(pattern, p). length p)") (auto dest: strchr_less)

declare lines_loop.simps [simp del]

text \<open>The outer loop.  \<open>reads\<close> gives for each call of \<open>read\<close> the most bytes that the system call delivers
  (less than asked for from a pipe or the console); \<open>kept\<close> are the \<open>m\<close> bytes in the buffer.\<close>

primrec grep_loop :: "bytes \<Rightarrow> nat list \<Rightarrow> bytes \<Rightarrow> bytes \<Rightarrow> bytes" where
  "grep_loop pattern [] input kept = []"
| "grep_loop pattern (k # reads) input kept =
     (let n = min k (1024 - length kept - 1); chunk = take n input
      in if chunk = [] then []
         else
           let b = kept @ chunk; (out, p) = lines_loop pattern b
           in out @ grep_loop pattern reads (drop n input) (if length p = length b then [] else p))"

definition grep :: "bytes \<Rightarrow> nat list \<Rightarrow> bytes \<Rightarrow> bytes" where
  "grep pattern reads input = grep_loop pattern reads input []"

section \<open>The language of a pattern\<close>

datatype atom = Any | Byte u8

datatype item = One atom | Many atom

definition atom_of :: "u8 \<Rightarrow> atom" where
  "atom_of c = (if c = 46 then Any else Byte c)"

text \<open>A pattern is a sequence of items, anchored at the end of the text when it ends in \<open>$\<close>.\<close>

fun pattern_of :: "bytes \<Rightarrow> item list \<times> bool" where
  "pattern_of [] = ([], False)"
| "pattern_of [c] = (if c = 36 then ([], True) else ([One (atom_of c)], False))"
| "pattern_of (c # d # re) =
     (if d = 42 then (let (its, e) = pattern_of re in (Many (atom_of c) # its, e))
      else (let (its, e) = pattern_of (d # re) in (One (atom_of c) # its, e)))"

fun fits :: "atom \<Rightarrow> u8 \<Rightarrow> bool" where
  "fits Any x = True"
| "fits (Byte c) x = (x = c)"

fun item_lang :: "item \<Rightarrow> bytes set" where
  "item_lang (One a) = {[x] | x. fits a x}"
| "item_lang (Many a) = {u. \<forall>x \<in> set u. fits a x}"

fun items_lang :: "item list \<Rightarrow> bytes set" where
  "items_lang [] = {[]}"
| "items_lang (i # its) = {u @ v | u v. u \<in> item_lang i \<and> v \<in> items_lang its}"

text \<open>The texts that have a prefix in the language of the pattern, the whole text when it is anchored.\<close>

definition here :: "item list \<times> bool \<Rightarrow> bytes \<Rightarrow> bool" where
  "here p str \<longleftrightarrow> (\<exists>u v. str = u @ v \<and> u \<in> items_lang (fst p) \<and> (snd p \<longrightarrow> v = []))"

lemma here_Cons: "here (i # its, e) str \<longleftrightarrow> (\<exists>u r. str = u @ r \<and> u \<in> item_lang i \<and> here (its, e) r)"
proof
  assume "here (i # its, e) str"
  then obtain u v w where "str = (u @ v) @ w" "u \<in> item_lang i" "v \<in> items_lang its" "e \<longrightarrow> w = []"
    unfolding here_def items_lang.simps fst_conv snd_conv by blast
  then show "\<exists>u r. str = u @ r \<and> u \<in> item_lang i \<and> here (its, e) r"
    unfolding here_def fst_conv snd_conv by (intro exI [of _ u] exI [of _ "v @ w"]) auto
next
  assume "\<exists>u r. str = u @ r \<and> u \<in> item_lang i \<and> here (its, e) r"
  then obtain u v w where "str = (u @ v) @ w" "u \<in> item_lang i" "v \<in> items_lang its" "e \<longrightarrow> w = []"
    unfolding here_def fst_conv snd_conv by auto
  then show "here (i # its, e) str"
    unfolding here_def items_lang.simps fst_conv snd_conv by (intro exI [of _ "u @ v"] exI [of _ w]) blast
qed

lemma here_one: "here (One a # its, e) str \<longleftrightarrow> (\<exists>x t. str = x # t \<and> fits a x \<and> here (its, e) t)"
  unfolding here_Cons item_lang.simps mem_Collect_eq by (metis append_Cons append_Nil)

lemma here_many: "here (Many a # its, e) str \<longleftrightarrow> here (its, e) str \<or> (\<exists>x t. str = x # t \<and> fits a x \<and> here (Many a # its, e) t)"
proof (cases str)
  case Nil
  then show ?thesis unfolding here_Cons by simp
next
  case (Cons x t)
  have "(\<exists>u r. x # t = u @ r \<and> (\<forall>x \<in> set u. fits a x) \<and> here (its, e) r) \<longleftrightarrow>
      here (its, e) (x # t) \<or> fits a x \<and> (\<exists>u r. t = u @ r \<and> (\<forall>x \<in> set u. fits a x) \<and> here (its, e) r)"
    (is "?L \<longleftrightarrow> ?R")
  proof
    assume ?L
    then obtain u r where u: "x # t = u @ r" "\<forall>x \<in> set u. fits a x" "here (its, e) r" by blast
    then show ?R by (cases u) auto
  next
    assume ?R
    then show ?L
    proof
      assume "here (its, e) (x # t)"
      then show ?L by (intro exI [of _ "[]"] exI [of _ "x # t"]) simp
    next
      assume "fits a x \<and> (\<exists>u r. t = u @ r \<and> (\<forall>x \<in> set u. fits a x) \<and> here (its, e) r)"
      then obtain u r where "fits a x" "t = u @ r" "\<forall>x \<in> set u. fits a x" "here (its, e) r" by blast
      then show ?L by (intro exI [of _ "x # u"] exI [of _ r]) simp
    qed
  qed
  then show ?thesis unfolding here_Cons Cons item_lang.simps mem_Collect_eq by blast
qed

lemma fits_atom: "fits (atom_of c) x \<longleftrightarrow> x = c \<or> c = 46"
  by (auto simp: atom_of_def)

lemma here_nil [simp]: "here ([], False) str" "here ([], True) str \<longleftrightarrow> str = []"
  by (auto simp: here_def)

text \<open>The cases of \<open>matchhere\<close> on strings without zero bytes.\<close>

lemma matchhere_cases:
  "matchhere [] str"
  "c \<noteq> 0 \<Longrightarrow> 0 \<notin> set str \<Longrightarrow> matchhere [c] str \<longleftrightarrow> (if c = 36 then str = [] else \<exists>x t. str = x # t \<and> fits (atom_of c) x)"
  "c \<noteq> 0 \<Longrightarrow> matchhere (c # 42 # re) str \<longleftrightarrow> matchstar c re str"
  "c \<noteq> 0 \<Longrightarrow> d \<noteq> 0 \<Longrightarrow> d \<noteq> 42 \<Longrightarrow> 0 \<notin> set str \<Longrightarrow>
     matchhere (c # d # re) str \<longleftrightarrow> (\<exists>x t. str = x # t \<and> fits (atom_of c) x \<and> matchhere (d # re) t)"
  by (cases str; auto simp: matchhere.simps [of "[]"] matchhere.simps [of "c # _"] fits_atom)+

lemma matchstar_language:
  assumes "0 \<notin> set str" "\<And>t. 0 \<notin> set t \<Longrightarrow> matchhere re t \<longleftrightarrow> here (its, e) t"
  shows "matchstar c re str \<longleftrightarrow> here (Many (atom_of c) # its, e) str"
  using assms(1)
proof (induction str)
  case Nil
  then show ?case using assms(2) [of "[]"] by (subst here_many) (simp add: matchstar.simps [of c re "[]"])
next
  case (Cons x str)
  then show ?case
    using assms(2) [of "x # str"] by (subst here_many) (auto simp: matchstar.simps [of c re "x # str"] fits_atom)
qed

lemma matchhere_language:
  assumes "0 \<notin> set re" "0 \<notin> set str"
  shows "matchhere re str \<longleftrightarrow> here (pattern_of re) str"
  using assms
proof (induction re arbitrary: str rule: pattern_of.induct)
  case 1
  then show ?case by (simp add: matchhere_cases)
next
  case (2 c)
  then show ?case by (auto simp: matchhere_cases here_one)
next
  case (3 c d re)
  obtain its e where p: "pattern_of re = (its, e)" by fastforce
  obtain js f where q: "pattern_of (d # re) = (js, f)" by fastforce
  show ?case
  proof (cases "d = 42")
    case True
    then show ?thesis using 3 p matchstar_language [of str re its e c] by (simp add: matchhere_cases)
  next
    case False
    then show ?thesis using 3 q by (auto simp: matchhere_cases here_one)
  qed
qed

lemma match_loop_anywhere:
  assumes "0 \<notin> set str"
  shows "match_loop re str \<longleftrightarrow> (\<exists>w t. str = w @ t \<and> matchhere re t)"
  using assms
proof (induction str)
  case (Cons c str)
  have "(\<exists>w t. c # str = w @ t \<and> matchhere re t) \<longleftrightarrow> matchhere re (c # str) \<or> (\<exists>w t. str = w @ t \<and> matchhere re t)"
    by (metis append_Cons append_Nil append_eq_Cons_conv)
  then show ?case using Cons by auto
qed simp

section \<open>The lines\<close>

definition unlines :: "bytes list \<Rightarrow> bytes" where
  "unlines ls = concat (map (\<lambda>l. l @ [10]) ls)"

lemma unlines_simps [simp]: "unlines [] = []" "unlines (l # ls) = l @ 10 # unlines ls" "unlines (ks @ ls) = unlines ks @ unlines ls"
  by (simp_all add: unlines_def)

lemma strchr_line: "c \<notin> set l \<Longrightarrow> 0 \<notin> set l \<Longrightarrow> c \<noteq> 0 \<Longrightarrow> strchr (l @ c # r) c = Some (length l)"
  by (induction l) auto

lemma strchr_none: "c \<notin> set r \<Longrightarrow> strchr r c = None"
  by (induction r) auto

lemma lines_loop_lines:
  assumes "\<forall>l \<in> set ls. 10 \<notin> set l \<and> 0 \<notin> set l" "10 \<notin> set r"
  shows "lines_loop pattern (unlines ls @ r) = (unlines (filter (match pattern) ls), r)"
  using assms
proof (induction ls)
  case Nil
  then show ?case by (simp add: lines_loop.simps [of _ r] strchr_none)
next
  case (Cons l ls)
  then show ?case by (simp add: lines_loop.simps [of _ "l @ _"] strchr_line)
qed

text \<open>The complete lines among the first \<open>n\<close> bytes.\<close>

lemma take_lines:
  assumes "\<forall>l \<in> set ls. 10 \<notin> set l" "10 \<notin> set r"
  shows "\<exists>ks ms p. ls = ks @ ms \<and> take n (unlines ls @ r) = unlines ks @ p \<and> 10 \<notin> set p \<and>
    unlines ms @ r = p @ drop n (unlines ls @ r) \<and> (ls \<noteq> [] \<and> length (hd ls) < n \<longrightarrow> ks \<noteq> [])"
  using assms
proof (induction ls arbitrary: n)
  case Nil
  then have "10 \<notin> set (take n r)" by (auto dest: in_set_takeD)
  then show ?case by (intro exI [of _ "[]"] exI [of _ "take n r"]) simp
next
  case (Cons l ls)
  show ?case
  proof (cases "length l < n")
    case True
    obtain ks ms p where ih: "ls = ks @ ms" "take (n - Suc (length l)) (unlines ls @ r) = unlines ks @ p" "10 \<notin> set p"
      "unlines ms @ r = p @ drop (n - Suc (length l)) (unlines ls @ r)"
      using Cons.IH [of "n - Suc (length l)"] Cons.prems by (meson list.set_intros(2))
    have n: "take n (unlines (l # ls) @ r) = l @ 10 # take (n - Suc (length l)) (unlines ls @ r)"
      "drop n (unlines (l # ls) @ r) = drop (n - Suc (length l)) (unlines ls @ r)"
      using True by (simp_all add: take_Cons' drop_Cons')
    have "l # ls = (l # ks) @ ms" using ih(1) by simp
    moreover have "take n (unlines (l # ls) @ r) = unlines (l # ks) @ p" unfolding n(1) ih(2) by simp
    moreover have "unlines ms @ r = p @ drop n (unlines (l # ls) @ r)" unfolding n(2) by (rule ih(4))
    ultimately show ?thesis using ih(3) by blast
  next
    case False
    have no: "10 \<notin> set (take n l)" using Cons.prems(1) by (auto dest: in_set_takeD)
    have "take n (unlines (l # ls) @ r) = unlines [] @ take n l" "unlines (l # ls) @ r = take n l @ drop n (unlines (l # ls) @ r)"
      using False by simp_all
    then show ?thesis using no False by (metis append_Nil list.sel(1))
  qed
qed

lemma before_newline: "m @ c # y = p @ x \<Longrightarrow> c \<notin> set p \<Longrightarrow> length p \<le> length m"
proof (induction m arbitrary: p)
  case Nil
  then show ?case by (cases p) auto
next
  case (Cons a m)
  then show ?case by (cases p) auto
qed

lemma grep_loop_quiet:
  assumes "10 \<notin> set kept" "10 \<notin> set input"
  shows "grep_loop pattern reads input kept = []"
  using assms
proof (induction reads arbitrary: input kept)
  case (Cons k reads)
  let ?n = "min k (1024 - length kept - 1)"
  have no: "10 \<notin> set (kept @ take ?n input)" "10 \<notin> set (drop ?n input)"
    using Cons.prems by (auto dest: in_set_takeD in_set_dropD)
  have "lines_loop pattern (kept @ take ?n input) = ([], kept @ take ?n input)"
    using no(1) by (simp add: lines_loop.simps [of _ "kept @ _"] strchr_none)
  then show ?case using Cons.IH [of "[]", OF _ no(2)] by (simp add: Let_def)
qed simp

lemma grep_loop_lines:
  assumes "\<forall>l \<in> set ls. 10 \<notin> set l \<and> 0 \<notin> set l \<and> length l < 1023" "10 \<notin> set r"
    and "kept @ input = unlines ls @ r" "10 \<notin> set kept" "length input < N"
    and "ls \<noteq> [] \<longrightarrow> length kept \<le> length (hd ls)" "ls = [] \<longrightarrow> length kept \<le> 1023"
  shows "grep_loop pattern (replicate N 1023) input kept = unlines (filter (match pattern) ls)"
  using assms
proof (induction N arbitrary: ls input kept)
  case (Suc N)
  show ?case
  proof (cases "ls = []")
    case True
    then have "10 \<notin> set (kept @ input)" using Suc.prems(2,3) by simp
    then show ?thesis using True grep_loop_quiet [of kept input pattern "replicate (Suc N) 1023"] by simp
  next
    case False
    have short: "length (hd ls) < 1023" "length kept \<le> length (hd ls)" using False Suc.prems(1,6) by simp_all
    have "length (hd ls) < length (kept @ input)" using False Suc.prems(3) by (cases ls) auto
    then have ne: "input \<noteq> []" using short by auto
    let ?n = "1023 - length kept"
    have n: "min 1023 (1024 - length kept - 1) = ?n" "0 < ?n" using short by simp_all
    have b: "kept @ take ?n input = take 1023 (unlines ls @ r)" "drop ?n input = drop 1023 (unlines ls @ r)"
      unfolding Suc.prems(3) [symmetric] using short by simp_all
    obtain ks ms p where s: "ls = ks @ ms" "take 1023 (unlines ls @ r) = unlines ks @ p" "10 \<notin> set p"
      "unlines ms @ r = p @ drop 1023 (unlines ls @ r)" "ks \<noteq> []"
      using take_lines [of ls r 1023] Suc.prems(1,2) False short(1) by blast
    have "lines_loop pattern (kept @ take ?n input) = (unlines (filter (match pattern) ks), p)"
      unfolding b(1) s(2) using Suc.prems(1) s(1,3) by (intro lines_loop_lines) auto
    moreover have "length p \<noteq> length (kept @ take ?n input)" unfolding b(1) s(2) using s(5) by (cases ks) auto
    moreover have "grep_loop pattern (replicate N 1023) (drop ?n input) p = unlines (filter (match pattern) ms)"
    proof (rule Suc.IH)
      show "p @ drop ?n input = unlines ms @ r" using s(4) b(2) by simp
      show "length (drop ?n input) < N" using Suc.prems(5) ne n(2) by (cases input) auto
      have "length p \<le> 1023" using arg_cong [OF s(2), of length] by simp
      then show "ms = [] \<longrightarrow> length p \<le> 1023" by simp
      show "ms \<noteq> [] \<longrightarrow> length p \<le> length (hd ms)"
      proof (cases ms)
        case (Cons m ms')
        then have "m @ 10 # (unlines ms' @ r) = p @ drop 1023 (unlines ls @ r)" using s(4) by simp
        then show ?thesis using before_newline s(3) Cons by fastforce
      qed simp
    qed (use Suc.prems(1,2) s(1,3) in auto)
    ultimately show ?thesis using ne n s(1) by (simp add: Let_def)
  qed
qed simp

section \<open>Properties\<close>

text \<open>C34: The matcher decides the language of the pattern.  On a pattern and a text without zero bytes,
  \<open>match\<close> holds exactly when some piece of the text (the beginning, for a pattern that starts with \<open>^\<close>;
  the rest of the text, for one that ends in \<open>$\<close>) is in the language given by the items of the pattern,
  a byte, a dot for any byte, or one of these with a star for any number of repetitions.\<close>

theorem match_language:
  assumes "0 \<notin> set re" "0 \<notin> set str"
  shows "match re str \<longleftrightarrow>
    (if hd0 re = 94 then here (pattern_of (tl re)) str else \<exists>w t. str = w @ t \<and> here (pattern_of re) t)"
proof (cases "hd0 re = 94")
  case True
  then have "0 \<notin> set (tl re)" using assms(1) by (cases re) auto
  then show ?thesis using True matchhere_language [OF _ assms(2)] by (simp add: match_def)
next
  case False
  have "matchhere re t \<longleftrightarrow> here (pattern_of re) t" if "str = w @ t" for w t
    using matchhere_language [OF assms(1)] assms(2) that by simp
  then show ?thesis using False match_loop_anywhere [OF assms(2), of re] unfolding match_def by (metis (no_types, lifting))
qed

theorem match_language_witness: "match [97, 46, 42, 100] [120, 97, 98, 99, 100]"
proof -
  have "here (pattern_of [97, 46, 42, 100]) [97, 98, 99, 100]"
    unfolding here_def by (intro exI [of _ "[97, 98, 99, 100]"] exI [of _ "[]"])
      (auto simp: atom_of_def intro!: exI [of _ "[98, 99]"])
  moreover have "[120, 97, 98, 99, 100] = [120] @ [97, 98, 99, (100 :: u8)]" by simp
  ultimately show ?thesis using match_language [of "[97, 46, 42, 100]" "[120, 97, 98, 99, 100]"] by fastforce
qed

text \<open>C35: On a file whose lines have fewer than 1023 bytes and contain no zero byte, read in full-sized pieces up to
  its end, \<open>grep\<close> writes exactly the lines that match, each with its newline and in the order of the file; what
  comes after the last newline is not written.\<close>

theorem grep_matching_lines:
  assumes "\<forall>l \<in> set ls. 10 \<notin> set l \<and> 0 \<notin> set l \<and> length l < 1023" "10 \<notin> set r"
    and "length (unlines ls @ r) < N"
  shows "grep pattern (replicate N 1023) (unlines ls @ r) = unlines (filter (match pattern) ls)"
  unfolding grep_def by (rule grep_loop_lines [OF assms(1,2)]) (use assms(3) in auto)

theorem grep_matching_lines_witness: "grep [98] (replicate 9 1023) [97, 10, 98, 99, 10, 98] = [98, 99, 10]"
proof -
  have "grep [98] (replicate 9 1023) (unlines [[97], [98, 99]] @ [98]) = unlines (filter (match [98]) [[97], [98, 99]])"
    by (rule grep_matching_lines) simp_all
  then show ?thesis by (simp add: match_def matchhere.simps)
qed

text \<open>The hypothesis on full-sized reads is needed: a line of which the buffer holds only the beginning,
  because a pipe or the console delivered less, is dropped.\<close>

lemma grep_short_read_loses_line: "grep [97] [1, 1023, 1023] [97, 98, 10] = []"
  by (simp add: grep_def lines_loop.simps match_def matchhere.simps Let_def)

text \<open>So is the one on zero bytes: the search for the newline stops at a zero byte, and the buffer is dropped.\<close>

lemma grep_zero_byte_loses_line: "grep [97] [1023, 1023] [97, 0, 10] = []"
  by (simp add: grep_def lines_loop.simps match_def matchhere.simps Let_def)

end
