(* ===== verification/Shell.thy ===== *)
theory Shell
  imports C_Strings "HOL-Library.Sublist"
begin

text \<open>
  The command parser of \<^verbatim>\<open>src/xv6/sh.c\<close>.  A pointer into the line is the suffix of the line that starts
  there, and \<open>es\<close> is the empty suffix; reading at \<open>es\<close> gives the terminating zero.  A word of the line is
  the pair of the pointers \<open>q\<close> and \<open>eq\<close>.  The mutually recursive parsing functions take fuel, which is
  shown to be enough; \<open>Blocked\<close> is running out of fuel.  \<open>panic\<close> of the shell prints and exits.
\<close>

section \<open>Definitions\<close>

definition MAXARGS :: nat where "MAXARGS = 10"

datatype 'a cmd =
    Exec "'a list"
  | Redir "'a cmd" 'a int int
  | PipeCmd "'a cmd" "'a cmd"
  | ListCmd "'a cmd" "'a cmd"
  | Back "'a cmd"

type_synonym word_ptr = "bytes \<times> bytes"

definition whitespace :: bytes where "whitespace = [32, 9, 13, 10, 11]"
definition symbols :: bytes where "symbols = [60, 124, 62, 38, 59, 40, 41]"

definition is_in :: "bytes \<Rightarrow> u8 \<Rightarrow> bool" where
  "is_in cs c \<longleftrightarrow> strchr cs c \<noteq> None"

definition word_char :: "u8 \<Rightarrow> bool" where
  "word_char c \<longleftrightarrow> \<not> is_in whitespace c \<and> \<not> is_in symbols c"

definition skip_white :: "bytes \<Rightarrow> bytes" where
  "skip_white s = dropWhile (is_in whitespace) s"

definition skip_word :: "bytes \<Rightarrow> bytes" where
  "skip_word s = dropWhile word_char s"

text \<open>The result: the kind of the token, \<open>q\<close>, \<open>eq\<close> and the pointer after the token.\<close>

definition gettoken :: "bytes \<Rightarrow> u8 \<times> bytes \<times> bytes \<times> bytes" where
  "gettoken s0 =
     (let q = skip_white s0; c = hd0 q;
          (ret, eq) =
            (if c = 0 then (0, q)
             else if c \<in> {124, 40, 41, 59, 38, 60} then (c, tl q)
             else if c = 62 then (if hd0 (tl q) = 62 then (43, tl (tl q)) else (62, tl q))
             else (97, skip_word q))
      in (ret, q, eq, skip_white eq))"

definition peek :: "bytes \<Rightarrow> bytes \<Rightarrow> bool \<times> bytes" where
  "peek s toks = (let s = skip_white s in (hd0 s \<noteq> 0 \<and> is_in toks (hd0 s), s))"

definition O_RDONLY_sh :: int where "O_RDONLY_sh = 0"
definition O_CREAT_WR :: int where "O_CREAT_WR = 0x201"

lemma skip_length: "length (skip_white s) \<le> length s" "length (skip_word s) \<le> length s"
  by (simp_all add: skip_white_def skip_word_def length_dropWhile_le)

lemma symbols_iff: "is_in symbols c \<longleftrightarrow> c \<in> {60, 124, 62, 38, 59, 40, 41}"
  by (auto simp: is_in_def symbols_def)

lemma whitespace_iff: "is_in whitespace c \<longleftrightarrow> c \<in> {32, 9, 13, 10, 11}"
  by (auto simp: is_in_def whitespace_def)

lemma skip_white_hd: "skip_white s = c # t \<Longrightarrow> \<not> is_in whitespace c"
  by (simp add: skip_white_def dropWhile_eq_Cons_conv)

lemma skip_white_idem [simp]: "skip_white (skip_white s) = skip_white s"
  by (simp add: skip_white_def)

lemma gettoken_end: "hd0 (skip_white s) = 0 \<Longrightarrow> gettoken s = (0, skip_white s, skip_white s, skip_white s)"
  by (simp add: gettoken_def Let_def)

lemma gettoken_Cons:
  assumes "skip_white s = c # t" "c \<noteq> 0"
  shows "gettoken s =
    (if c \<in> {124, 40, 41, 59, 38, 60} then (c, c # t, t, skip_white t)
     else if c = 62 then (if hd0 t = 62 then (43, c # t, tl t, skip_white (tl t)) else (62, c # t, t, skip_white t))
     else (97, c # t, skip_word t, skip_white (skip_word t)))"
proof -
  have "word_char c" if "c \<notin> {124, 40, 41, 59, 38, 60, 62}"
    using that skip_white_hd [OF assms(1)] by (auto simp: word_char_def symbols_iff)
  then have "skip_word (c # t) = skip_word t" if "c \<notin> {124, 40, 41, 59, 38, 60, 62}"
    using that by (simp add: skip_word_def)
  then show ?thesis using assms by (auto simp: gettoken_def Let_def)
qed

text \<open>A token starts after the white space and is not empty, unless the line ends.\<close>

lemma gettoken_parts:
  assumes "gettoken s = (ret, q, eq, s')"
  shows "q = skip_white s" "s' = skip_white eq" "length eq \<le> length q" "ret \<noteq> 0 \<Longrightarrow> length eq < length q"
proof -
  have "q = skip_white s \<and> s' = skip_white eq \<and> length eq \<le> length q \<and> (ret \<noteq> 0 \<longrightarrow> length eq < length q)"
  proof (cases "hd0 (skip_white s) = 0")
    case True
    then show ?thesis using assms by (auto simp: gettoken_end)
  next
    case False
    then obtain c t where c: "skip_white s = c # t" "c \<noteq> 0" by (cases "skip_white s") auto
    show ?thesis unfolding c(1) using assms gettoken_Cons [OF c] skip_length(2) [of t] by (auto split: if_splits)
  qed
  then show "q = skip_white s" "s' = skip_white eq" "length eq \<le> length q" "ret \<noteq> 0 \<Longrightarrow> length eq < length q" by auto
qed

lemma gettoken_length:
  assumes "gettoken s = (ret, q, eq, s')"
  shows "length s' \<le> length s" "ret \<noteq> 0 \<Longrightarrow> length s' < length s"
  using gettoken_parts [OF assms] skip_length(1) [of s] skip_length(1) [of eq] by auto

lemma peek_length: "peek s toks = (p, s') \<Longrightarrow> length s' \<le> length s"
  using skip_length(1) [of s] by (auto simp: peek_def Let_def)

function parseredirs :: "word_ptr cmd \<Rightarrow> bytes \<Rightarrow> (word_ptr cmd \<times> bytes) outcome" where
  "parseredirs cmd s0 =
     (let (p, s) = peek s0 [60, 62]
      in if \<not> p then Ret (cmd, s)
         else
           let (tok, _, _, s1) = gettoken s; (a, q, eq, s2) = gettoken s1
           in if a \<noteq> 97 then Panic ''missing file for redirection''
              else
                parseredirs
                  (if tok = 60 then Redir cmd (q, eq) O_RDONLY_sh 0
                   else if tok = 62 then Redir cmd (q, eq) O_CREAT_WR 1
                   else if tok = 43 then Redir cmd (q, eq) O_CREAT_WR 1
                   else cmd) s2)"
  by pat_completeness auto
termination
proof (relation "measure (\<lambda>(cmd, s). length s)", goal_cases)
  case (2 cmd s0 x p s x1 tok y1 q1 z1 eq1 s1 x2 a y2 q z2 eq s2)
  have "length s \<le> length s0" using peek_length [of s0 "[60, 62]" p s] 2(1,2) by simp
  moreover have "length s1 \<le> length s" using gettoken_length(1) [of s tok q1 eq1 s1] 2 by simp
  moreover have "length s2 < length s1" using gettoken_length(2) [of s1 a q eq s2] 2 by simp
  ultimately show ?case by simp
qed simp

declare parseredirs.simps [simp del]

lemma parseredirs_length: "parseredirs cmd s = Ret (c, s') \<Longrightarrow> length s' \<le> length s"
proof (induction cmd s arbitrary: c s' rule: parseredirs.induct)
  case (1 cmd s0)
  obtain p s where p: "peek s0 [60, 62] = (p, s)" by fastforce
  obtain tok q1 eq1 s1 where t1: "gettoken s = (tok, q1, eq1, s1)" by (metis prod.exhaust)
  obtain a q eq s2 where t2: "gettoken s1 = (a, q, eq, s2)" by (metis prod.exhaust)
  note le = peek_length [OF p] gettoken_length(1) [OF t1] gettoken_length(1) [OF t2]
  show ?case
  proof (cases "p \<and> a = 97")
    case True
    then have "length s' \<le> length s2" using 1(1) [OF p [symmetric] refl _ t1 [symmetric] refl refl refl t2 [symmetric]] 1(2) p t1 t2
      by (simp add: parseredirs.simps [of cmd s0])
    then show ?thesis using le by simp
  next
    case False
    then show ?thesis using 1(2) p t1 t2 le by (auto simp: parseredirs.simps [of cmd s0] split: if_splits)
  qed
qed

text \<open>\<open>parseexec\<close> stores the words in the command node that the redirections may have wrapped since.\<close>

fun add_arg :: "'a \<Rightarrow> 'a cmd \<Rightarrow> 'a cmd" where
  "add_arg a (Exec as) = Exec (as @ [a])"
| "add_arg a (Redir c f m d) = Redir (add_arg a c) f m d"
| "add_arg a c = c"

function parseargs :: "nat \<Rightarrow> word_ptr cmd \<Rightarrow> bytes \<Rightarrow> (word_ptr cmd \<times> bytes) outcome" where
  "parseargs argc cmd s0 =
     (let (p, s) = peek s0 [124, 41, 38, 59]
      in if p then Ret (cmd, s)
         else
           let (tok, q, eq, s1) = gettoken s
           in if tok = 0 then Ret (cmd, s1)
              else if tok \<noteq> 97 then Panic ''syntax''
              else if Suc argc \<ge> MAXARGS then Panic ''too many args''
              else bnd (parseredirs (add_arg (q, eq) cmd) s1) (\<lambda>(cmd, s2). parseargs (Suc argc) cmd s2))"
  by pat_completeness auto
termination
proof (relation "measure (\<lambda>(argc, cmd, s). length s)", goal_cases)
  case (2 argc cmd s0 x p s x1 tok y1 q y2 eq s1 r c s2)
  have "length s \<le> length s0" using peek_length [of s0 "[124, 41, 38, 59]" p s] 2 by simp
  moreover have "length s1 < length s" using gettoken_length(2) [of s tok q eq s1] 2 by simp
  moreover have "length s2 \<le> length s1" using parseredirs_length 2 by fastforce
  ultimately show ?case by simp
qed simp

declare parseargs.simps [simp del]

function parseback :: "word_ptr cmd \<Rightarrow> bytes \<Rightarrow> word_ptr cmd \<times> bytes" where
  "parseback cmd s0 =
     (let (p, s) = peek s0 [38]
      in if p then let (_, _, _, s1) = gettoken s in parseback (Back cmd) s1 else (cmd, s))"
  by pat_completeness auto
termination
proof (relation "measure (\<lambda>(cmd, s). length s)", goal_cases)
  case (2 cmd s0 x p s x1 tok y1 q y2 eq s1)
  have s: "length s \<le> length s0" "s = skip_white s0" "hd0 s \<noteq> 0" using peek_length [of s0 "[38]" p s] 2 by (auto simp: peek_def Let_def)
  have "skip_white s = s" using s(2) by (simp add: skip_white_def)
  then have "tok \<noteq> 0" using s(3) 2 by (auto simp: gettoken_def Let_def split: if_splits)
  then have "length s1 < length s" using gettoken_length(2) [of s tok q eq s1] 2 by simp
  then show ?case using s(1) by simp
qed simp

declare parseback.simps [simp del]

fun parseline :: "nat \<Rightarrow> bytes \<Rightarrow> (word_ptr cmd \<times> bytes) outcome"
  and parsepipe :: "nat \<Rightarrow> bytes \<Rightarrow> (word_ptr cmd \<times> bytes) outcome"
  and parseexec :: "nat \<Rightarrow> bytes \<Rightarrow> (word_ptr cmd \<times> bytes) outcome"
  and parseblock :: "nat \<Rightarrow> bytes \<Rightarrow> (word_ptr cmd \<times> bytes) outcome" where
  "parseline 0 s = Blocked"
| "parseline (Suc n) s =
     bnd (parsepipe n s) (\<lambda>(cmd, s).
       let (cmd, s) = parseback cmd s; (p, s) = peek s [59]
       in if p then
            let (_, _, _, s) = gettoken s
            in bnd (parseline n s) (\<lambda>(right, s). Ret (ListCmd cmd right, s))
          else Ret (cmd, s))"
| "parsepipe 0 s = Blocked"
| "parsepipe (Suc n) s =
     bnd (parseexec n s) (\<lambda>(cmd, s).
       let (p, s) = peek s [124]
       in if p then
            let (_, _, _, s) = gettoken s
            in bnd (parsepipe n s) (\<lambda>(right, s). Ret (PipeCmd cmd right, s))
          else Ret (cmd, s))"
| "parseexec 0 s = Blocked"
| "parseexec (Suc n) s =
     (let (p, s) = peek s [40]
      in if p then parseblock n s
         else bnd (parseredirs (Exec []) s) (\<lambda>(cmd, s). parseargs 0 cmd s))"
| "parseblock 0 s = Blocked"
| "parseblock (Suc n) s =
     (let (p, s) = peek s [40]
      in if \<not> p then Panic ''parseblock''
         else
           let (_, _, _, s) = gettoken s
           in bnd (parseline n s) (\<lambda>(cmd, s).
                let (p, s) = peek s [41]
                in if \<not> p then Panic ''syntax - missing )''
                   else let (_, _, _, s) = gettoken s in parseredirs cmd s))"

text \<open>\<open>nulterminate\<close> stores a zero byte at the end of every word of the buffer that holds \<open>line\<close>.\<close>

definition put_nul :: "bytes \<Rightarrow> bytes \<Rightarrow> bytes \<Rightarrow> bytes" where
  "put_nul line eq buf = buf[length line - length eq := 0]"

fun nulterminate :: "bytes \<Rightarrow> word_ptr cmd \<Rightarrow> bytes \<Rightarrow> bytes" where
  "nulterminate line (Exec as) buf = fold (\<lambda>(q, eq). put_nul line eq) as buf"
| "nulterminate line (Redir c (q, eq) m d) buf = put_nul line eq (nulterminate line c buf)"
| "nulterminate line (PipeCmd l r) buf = nulterminate line r (nulterminate line l buf)"
| "nulterminate line (ListCmd l r) buf = nulterminate line r (nulterminate line l buf)"
| "nulterminate line (Back c) buf = nulterminate line c buf"

definition parse_fuel :: "bytes \<Rightarrow> nat" where
  "parse_fuel line = 4 * length line + 4"

definition parsecmd :: "bytes \<Rightarrow> (word_ptr cmd \<times> bytes) outcome" where
  "parsecmd buf =
     (let line = take (strlen buf) buf
      in bnd (parseline (parse_fuel line) line) (\<lambda>(cmd, s).
           let (_, s) = peek s []
           in if s \<noteq> [] then Panic ''syntax'' else Ret (cmd, nulterminate line cmd (line @ [0]))))"

section \<open>The parser returns\<close>

text \<open>A word of the line: a nonempty run of word characters, up to a character that is none or the end.\<close>

definition word_at :: "bytes \<Rightarrow> word_ptr \<Rightarrow> bool" where
  "word_at line = (\<lambda>(q, eq). suffix q line \<and>
     (\<exists>w. q = w @ eq \<and> w \<noteq> [] \<and> (\<forall>c \<in> set w. word_char c) \<and> (eq = [] \<or> \<not> word_char (hd eq))))"

lemma skip_suffix: "suffix (skip_white s) s" "suffix (skip_word s) s"
  by (simp_all add: skip_white_def skip_word_def suffix_dropWhile)

lemma gettoken_suffix:
  assumes "gettoken s = (ret, q, eq, s')"
  shows "suffix s' s"
proof (cases "hd0 (skip_white s) = 0")
  case True
  then show ?thesis using assms skip_suffix(1) [of s] by (auto simp: gettoken_end)
next
  case False
  then obtain c t where c: "skip_white s = c # t" "c \<noteq> 0" by (cases "skip_white s") auto
  have t: "suffix t s" using skip_suffix(1) [of s] c(1) by (metis suffix_Cons suffix_order.trans suffix_order.refl)
  have "suffix u s" if "suffix u t" for u using that t by (rule suffix_order.trans)
  moreover have "suffix (skip_white u) t" if "suffix u t" for u using skip_suffix(1) that by (rule suffix_order.trans)
  moreover have "suffix (tl t) t" by (rule suffix_tl)
  ultimately show ?thesis using assms skip_suffix(2) [of t] by (auto simp: gettoken_Cons [OF c] split: if_splits)
qed

lemma gettoken_word:
  assumes "gettoken s = (97, q, eq, s')" "suffix s line"
  shows "word_at line (q, eq)"
proof (cases "hd0 (skip_white s) = 0")
  case False
  then obtain c t where c: "skip_white s = c # t" "c \<noteq> 0" by (cases "skip_white s") auto
  have e: "q = c # t" "eq = skip_word t" "c \<notin> {124, 40, 41, 59, 38, 60, 62}"
    using assms(1) by (auto simp: gettoken_Cons [OF c] split: if_splits)
  have "suffix q line" using skip_suffix(1) [of s] assms(2) c(1) e(1) by (metis suffix_order.trans)
  moreover have "word_char c" using skip_white_hd [OF c(1)] e(3) by (auto simp: word_char_def symbols_iff)
  moreover have "q = (c # takeWhile word_char t) @ eq" using e by (simp add: skip_word_def)
  moreover have "eq = [] \<or> \<not> word_char (hd eq)" using e(2) hd_dropWhile [of word_char t] by (auto simp: skip_word_def)
  ultimately show ?thesis unfolding word_at_def by (auto intro!: exI [of _ "c # takeWhile word_char t"] dest: set_takeWhileD)
qed (use assms in \<open>simp add: gettoken_end\<close>)

lemma peek_suffix: "peek s toks = (p, s') \<Longrightarrow> suffix s' s"
  using skip_suffix(1) by (auto simp: peek_def Let_def)

lemma peek_true:
  assumes "peek s toks = (True, s')"
  shows "\<exists>ret q eq s2. gettoken s' = (ret, q, eq, s2) \<and> ret \<noteq> 0"
proof -
  have s': "s' = skip_white s" "hd0 s' \<noteq> 0" using assms by (auto simp: peek_def Let_def)
  obtain c t where c: "s' = c # t" using s'(2) by (cases s') auto
  have "skip_white s' = s'" using s'(1) by simp
  then have "skip_white s' = c # t" "c \<noteq> 0" using c s'(2) by simp_all
  from gettoken_Cons [OF this] show ?thesis by simp
qed

text \<open>What every parsing routine gives, started on the suffix \<open>s\<close> of the line.\<close>

definition parsed :: "bytes \<Rightarrow> bytes \<Rightarrow> (word_ptr cmd \<times> bytes) outcome \<Rightarrow> bool" where
  "parsed line s r \<longleftrightarrow>
     (case r of Ret (c, s') \<Rightarrow> suffix s' s \<and> (\<forall>w \<in> set_cmd c. word_at line w) | Panic _ \<Rightarrow> True | Blocked \<Rightarrow> False)"

lemma parsed_simps [simp]:
  "parsed line s (Ret (c, s')) \<longleftrightarrow> suffix s' s \<and> (\<forall>w \<in> set_cmd c. word_at line w)"
  "parsed line s (Panic e)" "\<not> parsed line s Blocked"
  by (simp_all add: parsed_def)

lemma parsed_mono: "parsed line s r \<Longrightarrow> suffix s s' \<Longrightarrow> parsed line s' r"
  by (auto simp: parsed_def split: outcome.splits intro: suffix_order.trans)

lemma parsed_bnd:
  assumes "parsed line s r" "\<And>c s'. suffix s' s \<Longrightarrow> \<forall>w \<in> set_cmd c. word_at line w \<Longrightarrow> parsed line s' (f (c, s'))"
  shows "parsed line s (bnd r f)"
proof (cases r)
  case (Ret x)
  obtain c s' where x: "x = (c, s')" by fastforce
  then show ?thesis using assms(1) Ret parsed_mono [OF assms(2) [of s' c]] by simp
qed (use assms(1) in auto)

lemma parsed_redirs:
  assumes "suffix s0 line" "\<forall>w \<in> set_cmd cmd. word_at line w"
  shows "parsed line s0 (parseredirs cmd s0)"
  using assms
proof (induction cmd s0 rule: parseredirs.induct)
  case (1 cmd s0)
  obtain p s where p: "peek s0 [60, 62] = (p, s)" by fastforce
  obtain tok q1 eq1 s1 where t1: "gettoken s = (tok, q1, eq1, s1)" by (metis prod.exhaust)
  obtain a q eq s2 where t2: "gettoken s1 = (a, q, eq, s2)" by (metis prod.exhaust)
  have s: "suffix s s0" "suffix s1 line" "suffix s2 s0" "suffix s2 line"
    using peek_suffix [OF p] gettoken_suffix [OF t1] gettoken_suffix [OF t2] 1(2) by (meson suffix_order.trans)+
  show ?case
  proof (cases "p \<and> a = 97")
    case True
    then have w: "word_at line (q, eq)" using gettoken_word [of s1 q eq s2 line] t2 s(2) by simp
    have "parsed line s2 (parseredirs (if tok = 60 then Redir cmd (q, eq) O_RDONLY_sh 0
        else if tok = 62 then Redir cmd (q, eq) O_CREAT_WR 1 else if tok = 43 then Redir cmd (q, eq) O_CREAT_WR 1 else cmd) s2)"
      using 1(1) [OF p [symmetric] refl _ t1 [symmetric] refl refl refl t2 [symmetric] refl refl refl] True s(4) w 1(3) by simp
    then show ?thesis using True p t1 t2 parsed_mono [OF _ s(3)] by (simp add: parseredirs.simps [of cmd s0])
  next
    case False
    then show ?thesis using p t1 t2 s(1) 1(3) by (auto simp: parseredirs.simps [of cmd s0])
  qed
qed

lemma set_add_arg: "set_cmd (add_arg a c) \<subseteq> insert a (set_cmd c)"
  by (induction a c rule: add_arg.induct) auto

lemma parsed_args:
  assumes "suffix s0 line" "\<forall>w \<in> set_cmd cmd. word_at line w"
  shows "parsed line s0 (parseargs argc cmd s0)"
  using assms
proof (induction argc cmd s0 rule: parseargs.induct)
  case (1 argc cmd s0)
  obtain p s where p: "peek s0 [124, 41, 38, 59] = (p, s)" by fastforce
  obtain tok q eq s1 where t: "gettoken s = (tok, q, eq, s1)" by (metis prod.exhaust)
  have s: "suffix s s0" "suffix s line" "suffix s1 s0" "suffix s1 line"
    using peek_suffix [OF p] gettoken_suffix [OF t] 1(2) by (meson suffix_order.trans)+
  show ?case
  proof (cases "\<not> p \<and> tok = 97 \<and> Suc argc < MAXARGS")
    case True
    then have "word_at line (q, eq)" using gettoken_word [of s q eq s1 line] t s(2) by simp
    then have "\<forall>w \<in> set_cmd (add_arg (q, eq) cmd). word_at line w" using 1(3) set_add_arg [of "(q, eq)" cmd] by blast
    then have r: "parsed line s1 (parseredirs (add_arg (q, eq) cmd) s1)" using parsed_redirs s(4) by blast
    have "parsed line s1 (bnd (parseredirs (add_arg (q, eq) cmd) s1) (\<lambda>(cmd, s2). parseargs (Suc argc) cmd s2))"
    proof (cases "parseredirs (add_arg (q, eq) cmd) s1")
      case (Ret x)
      obtain c s2 where x: "x = (c, s2)" by fastforce
      have s2: "suffix s2 s1" "\<forall>w \<in> set_cmd c. word_at line w" using r Ret x by simp_all
      have "parsed line s2 (parseargs (Suc argc) c s2)"
        using 1(1) [OF p [symmetric] refl _ t [symmetric] refl refl refl _ _ _ Ret x [symmetric]] True s2 s(4) by (auto intro: suffix_order.trans)
      then show ?thesis using Ret x parsed_mono [OF _ s2(1)] by simp
    qed (use r in auto)
    then show ?thesis using True p t parsed_mono [OF _ s(3)] by (simp add: parseargs.simps [of argc cmd s0])
  next
    case False
    then show ?thesis using p t s 1(3) by (auto simp: parseargs.simps [of argc cmd s0] not_less)
  qed
qed

lemma parseback_parsed:
  assumes "\<forall>w \<in> set_cmd cmd. word_at line w" "parseback cmd s0 = (c, s')"
  shows "suffix s' s0 \<and> (\<forall>w \<in> set_cmd c. word_at line w)"
  using assms
proof (induction cmd s0 rule: parseback.induct)
  case (1 cmd s0)
  obtain p s where p: "peek s0 [38] = (p, s)" by fastforce
  obtain tok q eq s1 where t: "gettoken s = (tok, q, eq, s1)" by (metis prod.exhaust)
  have s: "suffix s s0" "suffix s1 s0" using peek_suffix [OF p] gettoken_suffix [OF t] by (meson suffix_order.trans)+
  show ?case
  proof (cases p)
    case True
    then show ?thesis using 1(1) [OF p [symmetric] refl True t [symmetric] refl refl] 1(2,3) p t s(2)
      by (auto simp: parseback.simps [of cmd s0] intro: suffix_order.trans)
  next
    case False
    then show ?thesis using 1(2,3) p s(1) by (auto simp: parseback.simps [of cmd s0])
  qed
qed

lemma parsed_token:
  assumes "peek s0 toks = (True, s)" "gettoken s = (tok, q, eq, s1)"
  shows "suffix s1 s0" "length s1 < length s0"
  using peek_suffix [OF assms(1)] gettoken_suffix [OF assms(2)] peek_length [OF assms(1)] gettoken_length(2) [OF assms(2)]
    peek_true [OF assms(1)] assms(2) by (auto intro: suffix_order.trans)

lemma parsed_line_rest:
  assumes "suffix s line" "\<forall>w \<in> set_cmd c. word_at line w"
    and "\<And>s1. suffix s1 line \<Longrightarrow> length s1 < length s \<Longrightarrow> parsed line s1 (parseline n s1)"
  shows "parsed line s (let (cmd, s) = parseback c s; (p, s) = peek s [59]
       in if p then let (_, _, _, s) = gettoken s in bnd (parseline n s) (\<lambda>(right, s). Ret (ListCmd cmd right, s))
          else Ret (cmd, s))"
proof -
  obtain c2 s2 where b: "parseback c s = (c2, s2)" by fastforce
  have c2: "suffix s2 s" "\<forall>w \<in> set_cmd c2. word_at line w" using parseback_parsed [OF assms(2) b] by simp_all
  obtain p s3 where p: "peek s2 [59] = (p, s3)" by fastforce
  obtain tok q eq s4 where t: "gettoken s3 = (tok, q, eq, s4)" by (metis prod.exhaust)
  show ?thesis
  proof (cases p)
    case True
    have s4: "suffix s4 s2" "length s4 < length s2" using parsed_token [of s2 "[59]" s3] p t True by auto
    have "length s4 < length s" using s4(2) suffix_length_le [OF c2(1)] by simp
    then have "parsed line s4 (parseline n s4)" using assms(1,3) s4(1) c2(1) by (meson suffix_order.trans)
    then have "parsed line s4 (bnd (parseline n s4) (\<lambda>(right, s). Ret (ListCmd c2 right, s)))"
      using c2(2) by (intro parsed_bnd) auto
    then show ?thesis using True b p t parsed_mono [of line s4 _ s] s4(1) c2(1) by (auto intro: suffix_order.trans)
  next
    case False
    then show ?thesis using b p c2 peek_suffix [OF p] by (auto intro: suffix_order.trans)
  qed
qed

lemma parsed_pipe_rest:
  assumes "suffix s line" "\<forall>w \<in> set_cmd c. word_at line w"
    and "\<And>s1. suffix s1 line \<Longrightarrow> length s1 < length s \<Longrightarrow> parsed line s1 (parsepipe n s1)"
  shows "parsed line s (let (p, s) = peek s [124]
       in if p then let (_, _, _, s) = gettoken s in bnd (parsepipe n s) (\<lambda>(right, s). Ret (PipeCmd c right, s))
          else Ret (c, s))"
proof -
  obtain p s3 where p: "peek s [124] = (p, s3)" by fastforce
  obtain tok q eq s4 where t: "gettoken s3 = (tok, q, eq, s4)" by (metis prod.exhaust)
  show ?thesis
  proof (cases p)
    case True
    have s4: "suffix s4 s" "length s4 < length s" using parsed_token [of s "[124]" s3] p t True by auto
    then have "parsed line s4 (parsepipe n s4)" using assms(1,3) by (meson suffix_order.trans)
    then have "parsed line s4 (bnd (parsepipe n s4) (\<lambda>(right, s). Ret (PipeCmd c right, s)))"
      using assms(2) by (intro parsed_bnd) auto
    then show ?thesis using True p t parsed_mono [OF _ s4(1)] by auto
  next
    case False
    then show ?thesis using p assms(2) peek_suffix [OF p] by auto
  qed
qed

lemma parsed_block:
  assumes "suffix s line" "\<And>s1. suffix s1 line \<Longrightarrow> length s1 < length s \<Longrightarrow> parsed line s1 (parseline n s1)"
  shows "parsed line s (parseblock (Suc n) s)"
proof -
  obtain p s3 where p: "peek s [40] = (p, s3)" by fastforce
  obtain tok q eq s4 where t: "gettoken s3 = (tok, q, eq, s4)" by (metis prod.exhaust)
  let ?f = "\<lambda>(cmd, s). let (p, s) = peek s [41] in if \<not> p then Panic ''syntax - missing )''
     else let (_, _, _, s) = gettoken s in parseredirs cmd s"
  show ?thesis
  proof (cases p)
    case True
    have s4: "suffix s4 s" "length s4 < length s" using parsed_token [of s "[40]" s3] p t True by auto
    then have l: "suffix s4 line" "parsed line s4 (parseline n s4)" using assms by (meson suffix_order.trans)+
    have "parsed line s5 (?f (c, s5))" if c: "suffix s5 s4" "\<forall>w \<in> set_cmd c. word_at line w" for c s5
    proof -
      obtain p2 s6 where p2: "peek s5 [41] = (p2, s6)" by fastforce
      obtain tok2 q2 eq2 s7 where t2: "gettoken s6 = (tok2, q2, eq2, s7)" by (metis prod.exhaust)
      have s7: "suffix s7 s5" if p2 using parsed_token [of s5 "[41]" s6] p2 t2 that by auto
      moreover have "suffix s5 line" using c(1) l(1) by (rule suffix_order.trans)
      ultimately have "parsed line s5 (parseredirs c s7)" if p2
        using that parsed_redirs [of s7 line c] c(2) parsed_mono [of line s7 _ s5] by (meson suffix_order.trans)
      then show ?thesis using p2 t2 by auto
    qed
    then have "parsed line s4 (bnd (parseline n s4) ?f)" using l(2) by (rule parsed_bnd [rotated])
    then show ?thesis using True p t parsed_mono [OF _ s4(1)] by simp
  qed (use p in auto)
qed

lemma parsed_line_step:
  assumes "suffix s line" "parsed line s (parsepipe n s)"
    and "\<And>s1. suffix s1 line \<Longrightarrow> length s1 < length s \<Longrightarrow> parsed line s1 (parseline n s1)"
  shows "parsed line s (parseline (Suc n) s)"
  unfolding parseline.simps
proof (rule parsed_bnd [OF assms(2)], unfold prod.case)
  fix c s' assume h: "suffix s' s" "\<forall>w \<in> set_cmd c. word_at line w"
  show "parsed line s' (let (cmd, s) = parseback c s'; (p, s) = peek s [59]
       in if p then let (_, _, _, s) = gettoken s in bnd (parseline n s) (\<lambda>(right, s). Ret (ListCmd cmd right, s))
          else Ret (cmd, s))"
    using h assms(1,3) suffix_length_le [OF h(1)] by (intro parsed_line_rest) (auto intro: suffix_order.trans)
qed

lemma parsed_pipe_step:
  assumes "suffix s line" "parsed line s (parseexec n s)"
    and "\<And>s1. suffix s1 line \<Longrightarrow> length s1 < length s \<Longrightarrow> parsed line s1 (parsepipe n s1)"
  shows "parsed line s (parsepipe (Suc n) s)"
  unfolding parsepipe.simps
proof (rule parsed_bnd [OF assms(2)], unfold prod.case)
  fix c s' assume h: "suffix s' s" "\<forall>w \<in> set_cmd c. word_at line w"
  show "parsed line s' (let (p, s) = peek s' [124]
       in if p then let (_, _, _, s) = gettoken s in bnd (parsepipe n s) (\<lambda>(right, s). Ret (PipeCmd c right, s))
          else Ret (c, s))"
    using h assms(1,3) suffix_length_le [OF h(1)] by (intro parsed_pipe_rest) (auto intro: suffix_order.trans)
qed

lemma parsed_exec_step:
  assumes "suffix s line" "\<And>s1. suffix s1 line \<Longrightarrow> length s1 \<le> length s \<Longrightarrow> parsed line s1 (parseblock n s1)"
  shows "parsed line s (parseexec (Suc n) s)"
proof -
  obtain p s1 where p: "peek s [40] = (p, s1)" by fastforce
  have s1: "suffix s1 s" "suffix s1 line" using peek_suffix [OF p] assms(1) by (auto intro: suffix_order.trans)
  have "parsed line s1 (bnd (parseredirs (Exec []) s1) (\<lambda>(cmd, s). parseargs 0 cmd s))"
  proof (rule parsed_bnd, unfold prod.case)
    show "parsed line s1 (parseredirs (Exec []) s1)" using s1(2) by (intro parsed_redirs) auto
    show "parsed line s' (parseargs 0 c s')" if "suffix s' s1" "\<forall>w \<in> set_cmd c. word_at line w" for c s'
      using that s1(2) by (intro parsed_args) (auto intro: suffix_order.trans)
  qed
  then show ?thesis
    using p parsed_mono [OF _ s1(1)] assms(2) [OF s1(2) suffix_length_le [OF s1(1)]] by auto
qed

lemma parsed_all:
  "suffix s line \<Longrightarrow> 4 * length s + 4 \<le> n \<Longrightarrow> parsed line s (parseline n s)"
  "suffix s line \<Longrightarrow> 4 * length s + 3 \<le> n \<Longrightarrow> parsed line s (parsepipe n s)"
  "suffix s line \<Longrightarrow> 4 * length s + 2 \<le> n \<Longrightarrow> parsed line s (parseexec n s)"
  "suffix s line \<Longrightarrow> 4 * length s + 1 \<le> n \<Longrightarrow> parsed line s (parseblock n s)"
proof (induction n arbitrary: s)
  case (Suc n)
  { case 1
    then show ?case by (intro parsed_line_step Suc.IH(1,2)) auto
  next
    case 2
    then show ?case by (intro parsed_pipe_step Suc.IH(2,3)) auto
  next
    case 3
    then show ?case by (intro parsed_exec_step Suc.IH(4)) auto
  next
    case 4
    then show ?case by (intro parsed_block Suc.IH(1)) auto }
qed simp_all

section \<open>The words after the parse\<close>

text \<open>The string that a pointer to \<open>q\<close> denotes once the buffer holds \<open>buf\<close>, and the word the parser saw.\<close>

definition str_at :: "bytes \<Rightarrow> bytes \<Rightarrow> bytes \<Rightarrow> bytes" where
  "str_at line buf q = takeWhile (\<lambda>c. c \<noteq> 0) (drop (length line - length q) buf)"

definition word_of :: "word_ptr \<Rightarrow> bytes" where
  "word_of = (\<lambda>(q, eq). take (length q - length eq) q)"

definition end_pos :: "bytes \<Rightarrow> word_ptr \<Rightarrow> nat" where
  "end_pos line = (\<lambda>(q, eq). length line - length eq)"

lemma fold_put_nul:
  "length (fold (\<lambda>(q, eq). put_nul line eq) as buf) = length buf"
  "i < length buf \<Longrightarrow> fold (\<lambda>(q, eq). put_nul line eq) as buf ! i = (if i \<in> end_pos line ` set as then 0 else buf ! i)"
  by (induction as arbitrary: buf) (auto simp: put_nul_def end_pos_def nth_list_update split: prod.splits)

lemma nulterminate_length [simp]: "length (nulterminate line c buf) = length buf"
  by (induction line c buf rule: nulterminate.induct) (simp_all add: fold_put_nul put_nul_def)

lemma nulterminate_nth:
  "i < length buf \<Longrightarrow> nulterminate line c buf ! i = (if i \<in> end_pos line ` set_cmd c then 0 else buf ! i)"
proof (induction c arbitrary: buf)
  case (Exec as)
  then show ?case by (simp add: fold_put_nul)
next
  case (Redir c w m d)
  obtain q eq where w: "w = (q, eq)" by fastforce
  then have "nulterminate line (Redir c w m d) buf ! i = (if i = end_pos line w then 0 else nulterminate line c buf ! i)"
    using Redir.prems by (simp add: put_nul_def end_pos_def nth_list_update)
  then show ?case using Redir by auto
qed auto

text \<open>No word of the line contains the end of another.\<close>

lemma end_pos_not_word:
  assumes "word_at line w" "i = end_pos line w" "i < length line"
  shows "\<not> word_char (line ! i)"
proof -
  obtain q eq where w: "w = (q, eq)" by fastforce
  obtain v where v: "q = v @ eq" "eq = [] \<or> \<not> word_char (hd eq)" "suffix q line" using assms(1) w by (auto simp: word_at_def)
  obtain pre where "line = (pre @ v) @ eq" using v(1,3) by (auto simp: suffix_def)
  then show ?thesis using assms(2,3) w v(2) by (cases eq) (auto simp: end_pos_def nth_append)
qed

lemma takeWhile_block:
  assumes "b + length w < length buf" "\<And>k. k < length w \<Longrightarrow> buf ! (b + k) = w ! k" "\<forall>c \<in> set w. c \<noteq> 0" "buf ! (b + length w) = 0"
  shows "takeWhile (\<lambda>c. c \<noteq> 0) (drop b buf) = w"
proof -
  have "drop b buf = w @ 0 # drop (Suc (b + length w)) buf"
  proof (rule nth_equalityI)
    show "length (drop b buf) = length (w @ 0 # drop (Suc (b + length w)) buf)" using assms(1) by simp
    fix k assume "k < length (drop b buf)"
    then show "drop b buf ! k = (w @ 0 # drop (Suc (b + length w)) buf) ! k"
      using assms(1,2,4) by (cases "k - length w") (auto simp: nth_append less_diff_conv intro!: arg_cong [where f = "nth buf"])
  qed
  then show ?thesis using assms(3) by simp
qed

lemma str_at_word:
  assumes "word_at line (q, eq)" "(q, eq) \<in> W" "\<forall>w \<in> W. word_at line w" "0 \<notin> set line" "length buf = Suc (length line)"
    and "\<And>i. i < length buf \<Longrightarrow> buf ! i = (if i \<in> end_pos line ` W then 0 else (line @ [0]) ! i)"
  shows "str_at line buf q = word_of (q, eq)"
proof -
  obtain w pre where w: "q = w @ eq" "\<forall>c \<in> set w. word_char c" "line = pre @ w @ eq"
    using assms(1) by (auto simp: word_at_def suffix_def)
  let ?b = "length line - length q"
  have b: "?b = length pre" using w by simp
  have k: "buf ! (?b + k) = w ! k" if "k < length w" for k
  proof -
    have l: "line ! (?b + k) = w ! k" "?b + k < length line" using that w by (auto simp: b nth_append)
    have "word_char (line ! (?b + k))" using l w(2) that by simp
    then have "?b + k \<notin> end_pos line ` W" using end_pos_not_word [of line _ "?b + k"] assms(3) l(2) by auto
    then show ?thesis using assms(5,6) l by (simp add: nth_append)
  qed
  have "buf ! (?b + length w) = 0"
  proof -
    have "?b + length w = end_pos line (q, eq)" using w by (simp add: end_pos_def)
    then have "?b + length w \<in> end_pos line ` W" using assms(2) by (metis imageI)
    moreover have "?b + length w < length buf" unfolding b using w(3) assms(5) by simp
    ultimately show ?thesis using assms(6) by simp
  qed
  then have "str_at line buf q = w"
    unfolding str_at_def using k assms(4,5) w by (intro takeWhile_block) auto
  then show ?thesis using w(1) by (simp add: word_of_def)
qed

lemma parsecmd_cases:
  assumes "0 \<notin> set line"
  shows "parsecmd line \<noteq> Blocked"
    and "parsecmd line = Ret (c, buf) \<Longrightarrow> (\<forall>w \<in> set_cmd c. word_at line w) \<and> buf = nulterminate line c (line @ [0])"
proof -
  have "strlen line = length line" using assms by (induction line) auto
  then have line: "take (strlen line) line = line" by simp
  have p: "parsed line line (parseline (parse_fuel line) line)" by (rule parsed_all) (simp_all add: parse_fuel_def)
  show "parsecmd line \<noteq> Blocked"
    using p unfolding parsecmd_def line Let_def by (cases "parseline (parse_fuel line) line") (auto split: prod.splits)
  show "(\<forall>w \<in> set_cmd c. word_at line w) \<and> buf = nulterminate line c (line @ [0])" if "parsecmd line = Ret (c, buf)"
    using p that unfolding parsecmd_def line Let_def
    by (cases "parseline (parse_fuel line) line") (auto split: prod.splits if_splits)
qed

section \<open>Properties\<close>

text \<open>C33: The parser returns on every line (with a command or with an error message), and when it returns
  a command, every argument and file name of the command is, after the zero bytes have been stored
  into the line, exactly the word that the parser read: no word is cut short or run together with
  another by the termination of a neighbour.\<close>

theorem parsecmd_words:
  assumes "0 \<notin> set line"
  shows "parsecmd line \<noteq> Blocked \<and>
    (parsecmd line = Ret (c, buf) \<longrightarrow> map_cmd (\<lambda>(q, eq). str_at line buf q) c = map_cmd word_of c)"
proof (intro conjI impI)
  show "parsecmd line \<noteq> Blocked" using parsecmd_cases(1) [OF assms] .
  assume "parsecmd line = Ret (c, buf)"
  then have c: "\<forall>w \<in> set_cmd c. word_at line w" "buf = nulterminate line c (line @ [0])"
    using parsecmd_cases(2) [OF assms] by blast+
  show "map_cmd (\<lambda>(q, eq). str_at line buf q) c = map_cmd word_of c"
  proof (rule cmd.map_cong0, clarify)
    fix q eq assume "(q, eq) \<in> set_cmd c"
    then show "str_at line buf q = word_of (q, eq)"
      using c assms by (intro str_at_word [of line q eq "set_cmd c" buf]) (auto simp: nulterminate_nth)
  qed
qed

theorem parsecmd_words_witness:
  "\<exists>c buf. parsecmd [97, 62, 98] = Ret (c, buf) \<and> map_cmd (\<lambda>(q, eq). str_at [97, 62, 98] buf q) c = Redir (Exec [[97]]) [98] 0x201 1"
proof -
  let ?c = "Redir (Exec [([97, 62, 98], [62, 98])]) ([98], []) 0x201 1"
  have p: "parsecmd [97, 62, 98] = Ret (?c, [97, 0, 98, 0])" by code_simp
  then show ?thesis using parsecmd_words [of "[97, 62, 98]" ?c "[97, 0, 98, 0]"] by (auto simp: word_of_def)
qed

end
