(* ===== verification/Block_Map.thy ===== *)
theory Block_Map
  imports Directory
begin

text \<open>
  The blocks of one file: what a well-formed inode with its bitmap is, that \<open>balloc\<close> and \<open>bmap\<close> of
  \<^verbatim>\<open>src/xv6/fs.c\<close> keep it so, hand out only blocks that were free, and leave the contents of the file as they are.
\<close>

section \<open>Well-formed files\<close>

text \<open>The disk block of file block \<open>n\<close> (0 when there is none) and its bytes, for an inode with the
  addresses \<open>A\<close> and blocks with the contents \<open>B\<close>.  A block that is not mapped reads as zeros.\<close>

definition faddr :: "u32 list \<Rightarrow> (u32 \<Rightarrow> bytes) \<Rightarrow> nat \<Rightarrow> u32" where
  "faddr A B n =
     (if n < NDIRECT then A ! n
      else if A ! NDIRECT = 0 then 0 else get32 (B (A ! NDIRECT)) (4 * (n - NDIRECT)))"

definition fdata :: "u32 list \<Rightarrow> (u32 \<Rightarrow> bytes) \<Rightarrow> nat \<Rightarrow> bytes" where
  "fdata A B n = (if faddr A B n = 0 then replicate BSIZE 0 else B (faddr A B n))"

definition used_blocks :: "u32 list \<Rightarrow> (u32 \<Rightarrow> bytes) \<Rightarrow> u32 set" where
  "used_blocks A B = (insert (A ! NDIRECT) (faddr A B ` {..<MAXFILE})) - {0}"

definition in_use :: "superblock \<Rightarrow> (u32 \<Rightarrow> bytes) \<Rightarrow> u32 \<Rightarrow> bool" where
  "in_use sp B b \<longleftrightarrow> bit_set (B (BBLOCK b sp)) (unat b mod BPB)"

definition bitmap_blocks :: "superblock \<Rightarrow> u32 set" where
  "bitmap_blocks sp = (\<lambda>b. BBLOCK b sp) ` {b. b < sb_size sp}"

definition free_blocks :: "superblock \<Rightarrow> (u32 \<Rightarrow> bytes) \<Rightarrow> u32 set" where
  "free_blocks sp B = {b. b < sb_size sp \<and> \<not> in_use sp B b}"

text \<open>The blocks that hold data of files: usable, no bitmap block, and not the block of the inode.\<close>

definition data_block :: "(u32 \<Rightarrow> bool) \<Rightarrow> superblock \<Rightarrow> u32 \<Rightarrow> u32 \<Rightarrow> bool" where
  "data_block U sp inum b \<longleftrightarrow> b \<noteq> 0 \<and> U b \<and> b < sb_size sp \<and> b \<notin> bitmap_blocks sp \<and> b \<noteq> IBLOCK inum sp"

definition file_ok :: "(u32 \<Rightarrow> bool) \<Rightarrow> superblock \<Rightarrow> u32 \<Rightarrow> u32 list \<Rightarrow> (u32 \<Rightarrow> bytes) \<Rightarrow> bool" where
  "file_ok U sp inum A B \<longleftrightarrow>
     length A = NDIRECT + 1 \<and> U (IBLOCK inum sp) \<and> (\<forall>b \<in> bitmap_blocks sp. U b \<and> b \<noteq> IBLOCK inum sp) \<and>
     (\<forall>b. U b \<longrightarrow> length (B b) = BSIZE) \<and>
     (\<forall>b \<in> free_blocks sp B. data_block U sp inum b) \<and>
     (\<forall>b \<in> used_blocks A B. data_block U sp inum b \<and> in_use sp B b) \<and>
     inj_on (faddr A B) {n. n < MAXFILE \<and> faddr A B n \<noteq> 0} \<and>
     (\<forall>n < MAXFILE. faddr A B n = A ! NDIRECT \<longrightarrow> A ! NDIRECT = 0)"

text \<open>A block that \<open>balloc\<close> has just handed out.\<close>

definition fresh :: "(u32 \<Rightarrow> bool) \<Rightarrow> superblock \<Rightarrow> u32 \<Rightarrow> u32 list \<Rightarrow> (u32 \<Rightarrow> bytes) \<Rightarrow> u32 \<Rightarrow> bool" where
  "fresh U sp inum A B a \<longleftrightarrow>
     file_ok U sp inum A B \<and> data_block U sp inum a \<and> in_use sp B a \<and> a \<notin> used_blocks A B \<and> B a = replicate BSIZE 0"

text \<open>The file keeps its contents and its blocks, and the block of its inode is not touched.\<close>

definition keeps :: "u32 \<Rightarrow> u32 list \<Rightarrow> (u32 \<Rightarrow> bytes) \<Rightarrow> u32 list \<Rightarrow> (u32 \<Rightarrow> bytes) \<Rightarrow> bool" where
  "keeps ib A B A' B' \<longleftrightarrow>
     B' ib = B ib \<and>
     (\<forall>n < MAXFILE. fdata A' B' n = fdata A B n \<and> (faddr A B n \<noteq> 0 \<longrightarrow> faddr A' B' n = faddr A B n))"

lemma keeps_refl [simp]: "keeps ib A B A B"
  by (simp add: keeps_def)

lemma keeps_trans [trans]: "keeps ib A B A' B' \<Longrightarrow> keeps ib A' B' A'' B'' \<Longrightarrow> keeps ib A B A'' B''"
  by (simp add: keeps_def)

lemma bit_set_bit: "bit_set d k \<longleftrightarrow> bit (d ! (k div 8)) (k mod 8)"
  unfolding bit_set_def bit_mask_def by (simp add: push_bit_eq_mult and_exp_eq_0_iff_not_bit)

lemma bit_set_alloc:
  assumes "k < 8 * length d"
  shows "bit_set (d[k div 8 := d ! (k div 8) OR bit_mask k]) j \<longleftrightarrow> j = k \<or> bit_set d j"
proof -
  have "k div 8 < length d" using assms by (simp add: less_mult_imp_div_less mult.commute)
  moreover have "k mod 8 < 8" "j mod 8 < 8" by simp_all
  moreover have "j = k \<longleftrightarrow> j div 8 = k div 8 \<and> j mod 8 = k mod 8" by (metis div_mult_mod_eq)
  ultimately show ?thesis
    by (cases "j div 8 = k div 8") (auto simp: bit_set_bit bit_mask_def bit_simps)
qed

lemma get32_zeros: "k + 4 \<le> n \<Longrightarrow> get32 (replicate n 0) k = 0"
  by (simp add: get32_def le32_def)

lemma BBLOCK_eq:
  assumes "BBLOCK a sp = BBLOCK b sp" "unat a mod BPB = unat b mod BPB" shows "a = b"
proof -
  have "a div of_nat BPB = b div of_nat BPB" using assms(1) by (simp add: BBLOCK_def)
  then have "unat (a div of_nat BPB) = unat (b div of_nat BPB)" by simp
  then have "unat a div BPB = unat b div BPB" by (simp add: unat_div BPB_def)
  then show ?thesis using assms(2) by (metis div_mult_mod_eq word_unat_eq_iff)
qed

text \<open>\<open>faddr\<close> and the sets only look at the blocks of the file and of the bitmap.\<close>

lemma faddr_cong: "A ! NDIRECT = 0 \<or> B' (A ! NDIRECT) = B (A ! NDIRECT) \<Longrightarrow> faddr A B' = faddr A B"
  by (auto simp: faddr_def fun_eq_iff)

lemma used_blocks_cong: "A ! NDIRECT = 0 \<or> B' (A ! NDIRECT) = B (A ! NDIRECT) \<Longrightarrow> used_blocks A B' = used_blocks A B"
  by (simp add: used_blocks_def faddr_cong)

lemma fdata_cong:
  assumes "\<forall>b \<in> used_blocks A B. B' b = B b" "n < MAXFILE" shows "fdata A B' n = fdata A B n"
proof -
  have "A ! NDIRECT = 0 \<or> B' (A ! NDIRECT) = B (A ! NDIRECT)" using assms(1) by (auto simp: used_blocks_def)
  then show ?thesis using assms by (auto simp: fdata_def faddr_cong used_blocks_def)
qed

lemma file_okD:
  assumes "file_ok U sp inum A B"
  shows "length A = NDIRECT + 1" "U (IBLOCK inum sp)" "b \<in> bitmap_blocks sp \<Longrightarrow> U b" "b \<in> bitmap_blocks sp \<Longrightarrow> b \<noteq> IBLOCK inum sp"
    "U b \<Longrightarrow> length (B b) = BSIZE" "b \<in> free_blocks sp B \<Longrightarrow> data_block U sp inum b"
    "b \<in> used_blocks A B \<Longrightarrow> data_block U sp inum b" "b \<in> used_blocks A B \<Longrightarrow> in_use sp B b"
    "n < MAXFILE \<Longrightarrow> n' < MAXFILE \<Longrightarrow> faddr A B n \<noteq> 0 \<Longrightarrow> faddr A B n = faddr A B n' \<Longrightarrow> n = n'"
    "n < MAXFILE \<Longrightarrow> faddr A B n = A ! NDIRECT \<Longrightarrow> A ! NDIRECT = 0"
  using assms unfolding file_ok_def inj_on_def by auto

lemma in_bitmap: "b < sb_size sp \<Longrightarrow> BBLOCK b sp \<in> bitmap_blocks sp"
  by (auto simp: bitmap_blocks_def)

lemma file_ok_keep:
  assumes ok: "file_ok U sp inum A B" and len: "\<And>b. U b \<Longrightarrow> length (B' b) = BSIZE"
    and keep: "\<forall>b \<in> used_blocks A B. B' b = B b \<and> in_use sp B' b" and free: "free_blocks sp B' \<subseteq> free_blocks sp B"
  shows "file_ok U sp inum A B'" "faddr A B' = faddr A B" "used_blocks A B' = used_blocks A B"
    "n < MAXFILE \<Longrightarrow> fdata A B' n = fdata A B n"
proof -
  have ind: "A ! NDIRECT = 0 \<or> B' (A ! NDIRECT) = B (A ! NDIRECT)" using keep by (auto simp: used_blocks_def)
  show f: "faddr A B' = faddr A B" by (rule faddr_cong) (rule ind)
  show u: "used_blocks A B' = used_blocks A B" by (rule used_blocks_cong) (rule ind)
  show "file_ok U sp inum A B'"
    using ok keep len free unfolding file_ok_def f u by blast
  show "n < MAXFILE \<Longrightarrow> fdata A B' n = fdata A B n" by (rule fdata_cong) (use keep in auto)
qed

lemma allocate_fresh:
  fixes B :: "u32 \<Rightarrow> bytes" and a :: u32
  assumes ok: "file_ok U sp inum A B" and a: "a \<in> free_blocks sp B" and B': "B' = (B(BBLOCK a sp := d', a := replicate BSIZE 0))"
    and d': "d' = (B (BBLOCK a sp))[unat a mod BPB div 8 := B (BBLOCK a sp) ! (unat a mod BPB div 8) OR bit_mask (unat a mod BPB)]"
  shows "fresh U sp inum A B' a" "free_blocks sp B' = free_blocks sp B - {a}" "faddr A B' = faddr A B"
    "keeps (IBLOCK inum sp) A B A B'" "b \<in> used_blocks A B \<Longrightarrow> B' b = B b"
proof -
  have da: "data_block U sp inum a" and sz: "a < sb_size sp" and un: "\<not> in_use sp B a"
    using file_okD(6) [OF ok a] a by (auto simp: free_blocks_def)
  have len: "length (B (BBLOCK a sp)) = BSIZE" by (rule file_okD(5) [OF ok file_okD(3) [OF ok in_bitmap [OF sz]]])
  have ab: "BBLOCK b sp \<noteq> a" if "b < sb_size sp" for b using in_bitmap [OF that] da by (auto simp: data_block_def)
  have use: "in_use sp B' b \<longleftrightarrow> b = a \<or> in_use sp B b" if "b < sb_size sp" for b
  proof (cases "BBLOCK b sp = BBLOCK a sp")
    case True
    have "unat a mod BPB < 8 * length (B (BBLOCK a sp))" unfolding len by (simp add: BPB_def BSIZE_def)
    from bit_set_alloc [OF this] True ab [OF that] show ?thesis using BBLOCK_eq [of b sp a] unfolding B' d' in_use_def by auto
  next
    case False
    then show ?thesis using ab [OF that] by (auto simp: in_use_def B')
  qed
  have keep: "B' b = B b \<and> in_use sp B' b" if "b \<in> used_blocks A B" for b
  proof -
    have "b < sb_size sp" "b \<notin> bitmap_blocks sp" "in_use sp B b"
      using file_okD(7,8) [OF ok that] by (auto simp: data_block_def)
    moreover from this have "b \<noteq> a" "b \<noteq> BBLOCK a sp" using un in_bitmap [OF sz] by auto
    ultimately show ?thesis using use by (simp add: B')
  qed
  show free: "free_blocks sp B' = free_blocks sp B - {a}" using use by (auto simp: free_blocks_def)
  have l: "length (B' b) = BSIZE" if "U b" for b using file_okD(5) [OF ok that] len by (simp add: B' d')
  have f: "free_blocks sp B' \<subseteq> free_blocks sp B" using free by auto
  note k = file_ok_keep [OF ok l ballI [OF keep] f, simplified]
  have "B' (IBLOCK inum sp) = B (IBLOCK inum sp)"
    using da file_okD(4) [OF ok in_bitmap [OF sz]] by (auto simp: B' data_block_def)
  then show "faddr A B' = faddr A B" "keeps (IBLOCK inum sp) A B A B'" "b \<in> used_blocks A B \<Longrightarrow> B' b = B b"
    using k keep by (auto simp: keeps_def)
  have "a \<notin> used_blocks A B" using un file_okD(8) [OF ok] by blast
  then show "fresh U sp inum A B' a" using k da use [OF sz] ab [OF sz] by (simp add: fresh_def B')
qed

text \<open>Where a fresh block is entered: in the inode, as the indirect block, or in the indirect block.  The
  contents of the file stay the same, the block reads as zeros before and after.\<close>

lemma file_ok_enter:
  assumes ok: "fresh U sp inum A B a" and len: "length A' = NDIRECT + 1" and ind: "A' ! NDIRECT = A ! NDIRECT"
    and n: "n < MAXFILE" "faddr A B n = 0" and len': "\<And>b. U b \<Longrightarrow> length (B' b) = BSIZE"
    and B': "\<And>b. b \<noteq> A ! NDIRECT \<or> A ! NDIRECT = 0 \<Longrightarrow> B' b = B b"
    and f: "\<And>n'. n' < MAXFILE \<Longrightarrow> faddr A' B' n' = (if n' = n then a else faddr A B n')"
  shows "file_ok U sp inum A' B'" "keeps (IBLOCK inum sp) A B A' B'" "free_blocks sp B' = free_blocks sp B"
proof -
  have ok': "file_ok U sp inum A B" and a: "data_block U sp inum a" "in_use sp B a" "a \<notin> used_blocks A B" "B a = replicate BSIZE 0"
    using ok by (auto simp: fresh_def)
  have a0: "a \<noteq> 0" using a(1) by (simp add: data_block_def)
  have indu: "A ! NDIRECT \<noteq> 0 \<Longrightarrow> A ! NDIRECT \<in> used_blocks A B" by (simp add: used_blocks_def)
  have nb: "A ! NDIRECT = 0 \<or> BBLOCK b sp \<noteq> A ! NDIRECT" if "b < sb_size sp" for b
    using file_okD(7) [OF ok' indu] in_bitmap [OF that] by (auto simp: data_block_def)
  have use: "in_use sp B' b \<longleftrightarrow> in_use sp B b" if "b < sb_size sp" for b
    using nb [OF that] B' [of "BBLOCK b sp"] by (auto simp: in_use_def)
  show free: "free_blocks sp B' = free_blocks sp B" using use by (auto simp: free_blocks_def)
  have used: "used_blocks A' B' \<subseteq> insert a (used_blocks A B)" using f ind by (auto simp: used_blocks_def)
  have u: "data_block U sp inum b \<and> in_use sp B' b" if "b \<in> used_blocks A' B'" for b
  proof -
    have "data_block U sp inum b \<and> in_use sp B b" using that used a(1,2) file_okD(7,8) [OF ok'] by blast
    then show ?thesis using use [of b] by (auto simp: data_block_def)
  qed
  have fa: "faddr A B n' \<noteq> a" if "n' < MAXFILE" for n' using a(3) a0 that by (auto simp: used_blocks_def)
  have inj: "inj_on (faddr A' B') {n. n < MAXFILE \<and> faddr A' B' n \<noteq> 0}"
    using file_okD(9) [OF ok'] fa f unfolding inj_on_def by (auto split: if_splits)
  have "a \<noteq> A ! NDIRECT" using a(3) a0 by (auto simp: used_blocks_def)
  then have noind: "\<forall>n < MAXFILE. faddr A' B' n = A' ! NDIRECT \<longrightarrow> A' ! NDIRECT = 0"
    using file_okD(10) [OF ok'] f ind by (auto split: if_splits)
  show "file_ok U sp inum A' B'"
    unfolding file_ok_def free using len len' u inj noind ok' by (auto simp: file_ok_def)
  have d: "fdata A' B' n' = fdata A B n'" if "n' < MAXFILE" for n'
    using f [OF that] a0 a(4) n B' [of a] \<open>a \<noteq> A ! NDIRECT\<close> B' [of "faddr A B n'"] file_okD(10) [OF ok' that]
    by (auto simp: fdata_def split: if_splits)
  have "B' (IBLOCK inum sp) = B (IBLOCK inum sp)"
    using file_okD(7) [OF ok' indu] by (cases "A ! NDIRECT = 0") (auto simp: data_block_def intro!: B')
  then show "keeps (IBLOCK inum sp) A B A' B'" using d f n(2) by (simp add: keeps_def)
qed

lemma enter_direct:
  assumes ok: "fresh U sp inum A B a" and n: "n < NDIRECT" "A ! n = 0"
  shows "file_ok U sp inum (A[n := a]) B" "keeps (IBLOCK inum sp) A B (A[n := a]) B" "faddr (A[n := a]) B n = a"
proof -
  have ok': "file_ok U sp inum A B" using ok by (simp add: fresh_def)
  have f: "faddr (A[n := a]) B n' = (if n' = n then a else faddr A B n')" for n'
    using n file_okD(1) [OF ok'] by (auto simp: faddr_def)
  have "length (A[n := a]) = NDIRECT + 1" "A[n := a] ! NDIRECT = A ! NDIRECT" "n < MAXFILE" "faddr A B n = 0"
    using n file_okD(1) [OF ok'] by (auto simp: MAXFILE_def faddr_def)
  note e = file_ok_enter [OF ok this file_okD(5) [OF ok'] _ f]
  show "file_ok U sp inum (A[n := a]) B" "keeps (IBLOCK inum sp) A B (A[n := a]) B"
    using e by auto
  show "faddr (A[n := a]) B n = a" using f by simp
qed

lemma enter_entry:
  assumes ok: "fresh U sp inum A B a" and n: "NDIRECT \<le> n" "n < MAXFILE" "A ! NDIRECT \<noteq> 0" "faddr A B n = 0"
    and B': "B' = B(A ! NDIRECT := put32 (B (A ! NDIRECT)) (4 * (n - NDIRECT)) a)"
  shows "file_ok U sp inum A B'" "keeps (IBLOCK inum sp) A B A B'" "faddr A B' n = a"
    "free_blocks sp B' = free_blocks sp B"
proof -
  have ok': "file_ok U sp inum A B" using ok by (simp add: fresh_def)
  have "A ! NDIRECT \<in> used_blocks A B" using n(3) by (simp add: used_blocks_def)
  then have "U (A ! NDIRECT)" using file_okD(7) [OF ok'] by (simp add: data_block_def)
  then have l: "length (B (A ! NDIRECT)) = BSIZE" by (rule file_okD(5) [OF ok'])
  have f: "faddr A B' n' = (if n' = n then a else faddr A B n')" if "n' < MAXFILE" for n'
    using n that l
    by (auto simp: faddr_def B' MAXFILE_def NDIRECT_def NINDIRECT_def BSIZE_def get32_put32_same intro!: get32_put32_other)
  have l': "length (B' b) = BSIZE" if "U b" for b using file_okD(5) [OF ok' that] l by (simp add: B')
  have c: "B' b = B b" if "b \<noteq> A ! NDIRECT \<or> A ! NDIRECT = 0" for b using that n(3) by (simp add: B')
  note e = file_ok_enter [OF ok file_okD(1) [OF ok'] refl n(2,4) l' c f]
  show "file_ok U sp inum A B'" "keeps (IBLOCK inum sp) A B A B'" "free_blocks sp B' = free_blocks sp B" using e by auto
  show "faddr A B' n = a" using f [OF n(2)] by simp
qed

lemma enter_indirect:
  assumes ok: "fresh U sp inum A B a" and ind: "A ! NDIRECT = 0"
  shows "file_ok U sp inum (A[NDIRECT := a]) B" "keeps (IBLOCK inum sp) A B (A[NDIRECT := a]) B"
    "n < MAXFILE \<Longrightarrow> faddr (A[NDIRECT := a]) B n = faddr A B n"
proof -
  have ok': "file_ok U sp inum A B" and a: "data_block U sp inum a" "in_use sp B a" "a \<notin> used_blocks A B" "B a = replicate BSIZE 0"
    using ok by (auto simp: fresh_def)
  have len: "length A = NDIRECT + 1" by (rule file_okD(1) [OF ok'])
  have f: "faddr (A[NDIRECT := a]) B n = faddr A B n" if "n < MAXFILE" for n
  proof -
    have "4 * (n - NDIRECT) + 4 \<le> BSIZE" using that by (simp add: MAXFILE_def NDIRECT_def NINDIRECT_def BSIZE_def)
    then show ?thesis using len ind a(4) get32_zeros by (simp add: faddr_def)
  qed
  then show "keeps (IBLOCK inum sp) A B (A[NDIRECT := a]) B" by (simp add: keeps_def fdata_def)
  have fa: "faddr A B n \<noteq> a" if "n < MAXFILE" for n using a(1,3) that by (auto simp: used_blocks_def data_block_def)
  have im: "faddr (A[NDIRECT := a]) B ` {..<MAXFILE} = faddr A B ` {..<MAXFILE}" using f by (intro image_cong) simp_all
  have nth: "A[NDIRECT := a] ! NDIRECT = a" using len by simp
  have "used_blocks (A[NDIRECT := a]) B \<subseteq> insert a (used_blocks A B)"
    unfolding used_blocks_def im nth by blast
  then have u: "\<forall>b \<in> used_blocks (A[NDIRECT := a]) B. data_block U sp inum b \<and> in_use sp B b"
    using file_okD(7,8) [OF ok'] a(1,2) by blast
  have inj: "inj_on (faddr (A[NDIRECT := a]) B) {n. n < MAXFILE \<and> faddr (A[NDIRECT := a]) B n \<noteq> 0}"
    using file_okD(9) [OF ok'] by (intro inj_onI) (simp add: f)
  have "\<forall>n < MAXFILE. faddr (A[NDIRECT := a]) B n = A[NDIRECT := a] ! NDIRECT \<longrightarrow> A[NDIRECT := a] ! NDIRECT = 0"
    unfolding nth using f fa by simp
  with u inj show "file_ok U sp inum (A[NDIRECT := a]) B" using ok' len unfolding file_ok_def by simp
  show "n < MAXFILE \<Longrightarrow> faddr (A[NDIRECT := a]) B n = faddr A B n" by (rule f)
qed

text \<open>Storing new bytes in a mapped block.\<close>

lemma file_ok_store:
  assumes ok: "file_ok U sp inum A B" and n: "n < MAXFILE" "faddr A B n \<noteq> 0" and d: "length d = BSIZE"
    and B': "B' = B(faddr A B n := d)"
  shows "file_ok U sp inum A B'" "faddr A B' = faddr A B"
    "n' < MAXFILE \<Longrightarrow> fdata A B' n' = (if n' = n then d else fdata A B n')" "free_blocks sp B' = free_blocks sp B"
    "B' (IBLOCK inum sp) = B (IBLOCK inum sp)"
proof -
  let ?a = "faddr A B n"
  have at: "B' b = (if b = ?a then d else B b)" for b using B' by simp
  have "?a \<in> used_blocks A B" using n by (auto simp: used_blocks_def)
  then have a: "?a \<notin> bitmap_blocks sp" "?a \<noteq> IBLOCK inum sp" using file_okD(7) [OF ok] by (auto simp: data_block_def)
  have use: "in_use sp B' b \<longleftrightarrow> in_use sp B b" if "b < sb_size sp" for b
    using in_bitmap [OF that] a by (auto simp: in_use_def at)
  show "B' (IBLOCK inum sp) = B (IBLOCK inum sp)" using a by (simp add: at)
  show free: "free_blocks sp B' = free_blocks sp B" using use by (auto simp: free_blocks_def)
  have ind: "A ! NDIRECT = 0 \<or> B' (A ! NDIRECT) = B (A ! NDIRECT)" using file_okD(10) [OF ok n(1)] n by (simp add: at) metis
  show f: "faddr A B' = faddr A B" by (rule faddr_cong) (rule ind)
  have u: "used_blocks A B' = used_blocks A B" by (rule used_blocks_cong) (rule ind)
  have "\<forall>b \<in> used_blocks A B. data_block U sp inum b \<and> in_use sp B' b"
    using file_okD(7,8) [OF ok] use by (auto simp: data_block_def)
  moreover have "\<forall>b. U b \<longrightarrow> length (B' b) = BSIZE" using file_okD(5) [OF ok] d by (simp add: at)
  ultimately show "file_ok U sp inum A B'" using ok unfolding file_ok_def f u free by simp
  show "n' < MAXFILE \<Longrightarrow> fdata A B' n' = (if n' = n then d else fdata A B n')"
    using file_okD(9) [OF ok n(1), of n'] n unfolding fdata_def f at by simp metis
qed

section \<open>Allocation\<close>

lemma txn_frame_fs: "txn_frame s s' \<Longrightarrow> sb s' = sb s" "txn_frame s s' \<Longrightarrow> icache s' = icache s"
  by (auto simp: txn_frame_def)

lemma bno_cong: "\<forall>j \<in> H. bufs s' ! j = bufs s ! j \<Longrightarrow> bno s' ` H = bno s ` H"
  by (intro image_cong) (simp_all add: bno_def)

declare balloc_bit.simps [simp del]

lemma balloc_bit_Some: "balloc_bit sz d b bi = Some k \<Longrightarrow> k < BPB \<and> b + k < sz \<and> \<not> bit_set d k"
  by (induction sz d b bi rule: balloc_bit.induct) (metis balloc_bit.simps option.distinct(1) option.inject)

lemma balloc_bit_None: "balloc_bit sz d b bi = None \<Longrightarrow> bi \<le> k \<Longrightarrow> k < BPB \<Longrightarrow> b + k < sz \<Longrightarrow> bit_set d k"
proof (induction sz d b bi rule: balloc_bit.induct)
  case (1 sz d b bi)
  then have "bi < BPB" "b + bi < sz" by linarith+
  then have "bit_set d bi" "balloc_bit sz d b (Suc bi) = None"
    using "1.prems"(1) by (simp_all add: balloc_bit.simps [of sz d b bi] split: if_splits)
  then show ?case using 1 by (cases "k = bi") auto
qed

lemma bzero_ok:
  assumes "txn me H (Suc m) s" "fs_block s b" "b \<notin> bno s ` H" "card H < 3"
  obtains s' where "bzero me 1 b s = Ret s'" "txn me H m s'" "blk s' = (blk s)(b := replicate BSIZE 0)" "txn_frame s s'"
    "\<And>j. j \<in> H \<Longrightarrow> bufs s' ! j = bufs s ! j"
proof -
  have "length (replicate BSIZE (0 :: u8)) = BSIZE" by simp
  from store.modify [OF assms this] obtain k s1 s2 s3 where "bread me 1 b s = Ret (k, s1)"
    "log_write k (set_bdata k (replicate BSIZE 0) s1) = Ret s2" "brelse me k s2 = Ret s3"
    "txn me H m s3" "blk s3 = (blk s)(b := replicate BSIZE 0)" "txn_frame s s3" "\<And>j. j \<in> H \<Longrightarrow> bufs s3 ! j = bufs s ! j"
    by metis
  then show thesis by (intro that [of s3]) (simp_all add: bzero_def)
qed

lemma start_block:
  assumes "BPB dvd b" "k < BPB" "b + k < unat (sb_size sp)"
  shows "unat (of_nat (b + k) :: u32) = b + k" "of_nat (b + k) < sb_size sp" "BBLOCK (of_nat (b + k)) sp = BBLOCK (of_nat b) sp"
    "unat (of_nat (b + k) :: u32) mod BPB = k"
proof -
  have l: "b + k < 2 ^ 32" "b < 2 ^ 32" using assms(3) unsigned_less [of "sb_size sp", where ?'a = nat] by simp_all
  show u: "unat (of_nat (b + k) :: u32) = b + k" using l(1) by (simp add: unat_of_nat take_bit_nat_eq_self del: of_nat_add)
  have ub: "unat (of_nat b :: u32) = b" using l(2) by (simp add: unat_of_nat take_bit_nat_eq_self del: of_nat_add)
  show "of_nat (b + k) < sb_size sp" using assms(3) u by (simp add: word_less_nat_alt)
  have "unat ((of_nat (b + k) :: u32) div of_nat BPB) = unat ((of_nat b :: u32) div of_nat BPB)"
    using assms(1,2) unfolding unat_div u ub by (auto simp: BPB_def)
  then show "BBLOCK (of_nat (b + k)) sp = BBLOCK (of_nat b) sp" unfolding BBLOCK_def by (metis word_unat_eq_iff)
  show "unat (of_nat (b + k) :: u32) mod BPB = k" using assms(1,2) u by auto
qed

text \<open>The contents of the disk after block \<open>a\<close> has been allocated.\<close>

definition allocate :: "superblock \<Rightarrow> u32 \<Rightarrow> (u32 \<Rightarrow> bytes) \<Rightarrow> u32 \<Rightarrow> bytes" where
  "allocate sp a B =
     (let d = B (BBLOCK a sp); k = unat a mod BPB
      in B(BBLOCK a sp := d[k div 8 := d ! (k div 8) OR bit_mask k], a := replicate BSIZE 0))"

lemma balloc_take:
  assumes t: "txn me H (Suc (Suc m)) s" "card H < 3" and ok: "file_ok (fs_block s) (sb s) inum A (blk s)"
    and H: "bno s ` H \<subseteq> used_blocks A (blk s)" and b: "BPB dvd b"
    and k: "balloc_bit (unat (sb_size (sb s))) (blk s (BBLOCK (of_nat b) (sb s))) b 0 = Some k"
  obtains a s' where "balloc_loop me 1 (b # bs) s = Ret (a, s')" "a \<in> free_blocks (sb s) (blk s)"
    "txn me H m s'" "txn_frame s s'" "blk s' = allocate (sb s) a (blk s)" "\<And>j. j \<in> H \<Longrightarrow> bufs s' ! j = bufs s ! j"
proof -
  let ?a = "of_nat (b + k) :: u32" and ?bb = "BBLOCK (of_nat b) (sb s)" and ?d = "blk s (BBLOCK (of_nat b) (sb s))"
  let ?d' = "?d[k div 8 := ?d ! (k div 8) OR bit_mask k]"
  have kk: "k < BPB" "b + k < unat (sb_size (sb s))" "\<not> bit_set ?d k" using balloc_bit_Some [OF k] by auto
  note a = start_block [OF b kk(1,2)]
  have free: "?a \<in> free_blocks (sb s) (blk s)"
    unfolding free_blocks_def in_use_def using a kk(3) by (simp del: of_nat_add)
  have bb: "?bb \<in> bitmap_blocks (sb s)" using in_bitmap [OF a(2)] a(3) by (simp del: of_nat_add)
  have da: "data_block (fs_block s) (sb s) inum ?a" by (rule file_okD(6) [OF ok free])
  have unH: "?bb \<notin> bno s ` H" using H bb file_okD(7) [OF ok] by (auto simp: data_block_def)
  have aH: "?a \<notin> bno s ` H" using H free file_okD(8) [OF ok] by (auto simp: free_blocks_def)
  have len: "length ?d' = BSIZE" using file_okD(5) [OF ok file_okD(3) [OF ok bb]] by simp
  from store.modify [OF t(1) file_okD(3) [OF ok bb] unH t(2) len] obtain bp s1 s2 s3 where
    m: "bread me 1 ?bb s = Ret (bp, s1)" "bdata bp s1 = ?d" "log_write bp (set_bdata bp ?d' s1) = Ret s2"
      "brelse me bp s2 = Ret s3" "txn me H (Suc m) s3" "blk s3 = (blk s)(?bb := ?d')" "txn_frame s s1" "txn_frame s s3"
      "\<And>j. j \<in> H \<Longrightarrow> bufs s3 ! j = bufs s ! j" by metis
  have "fs_block s3 ?a" "?a \<notin> bno s3 ` H"
    using da aH txn_frame_simps(10) [OF m(8)] bno_cong [of H s3 s] m(9) by (simp_all add: data_block_def)
  from bzero_ok [OF m(5) this t(2)] obtain s4 where
    z: "bzero me 1 ?a s3 = Ret s4" "txn me H m s4" "blk s4 = (blk s3)(?a := replicate BSIZE 0)" "txn_frame s3 s4"
      "\<And>j. j \<in> H \<Longrightarrow> bufs s4 ! j = bufs s3 ! j" by metis
  have "balloc_loop me 1 (b # bs) s = Ret (?a, s4)"
    using m(1-4) z(1) k txn_frame_fs(1) [OF m(7)] by (simp add: Let_def del: of_nat_add)
  moreover have "blk s4 = allocate (sb s) ?a (blk s)"
    unfolding allocate_def Let_def a(3,4) z(3) m(6) ..
  moreover have "bufs s4 ! j = bufs s ! j" if "j \<in> H" for j using m(9) [OF that] z(5) [OF that] by simp
  ultimately show thesis using that free z(2) txn_frame_trans [OF m(8) z(4)] by blast
qed

lemma balloc_loop_ok:
  assumes "txn me H (Suc (Suc m)) s" "card H < 3" "file_ok (fs_block s) (sb s) inum A (blk s)"
    and "bno s ` H \<subseteq> used_blocks A (blk s)" "\<forall>b \<in> set bs. BPB dvd b \<and> b < unat (sb_size (sb s))"
    and "b \<in> set bs" "k < BPB" "b + k < unat (sb_size (sb s))" "\<not> bit_set (blk s (BBLOCK (of_nat b) (sb s))) k"
  obtains a s' where "balloc_loop me 1 bs s = Ret (a, s')" "a \<in> free_blocks (sb s) (blk s)"
    "txn me H m s'" "txn_frame s s'" "blk s' = allocate (sb s) a (blk s)" "\<And>j. j \<in> H \<Longrightarrow> bufs s' ! j = bufs s ! j"
  using assms
proof (induction bs arbitrary: s thesis)
  case Nil
  then show ?case by simp
next
  case (Cons b0 bs)
  note t = Cons.prems(2,3) and ok = Cons.prems(4) and H = Cons.prems(5)
  let ?bb = "BBLOCK (of_nat b0) (sb s)"
  show ?case
  proof (cases "balloc_bit (unat (sb_size (sb s))) (blk s ?bb) b0 0")
    case (Some k)
    then show ?thesis using balloc_take [OF t ok H _ Some] Cons.prems(1,6) by (metis list.set_intros(1))
  next
    case None
    have z: "b0 < unat (sb_size (sb s))" "BPB dvd b0" using Cons.prems(6) by simp_all
    have bb: "?bb \<in> bitmap_blocks (sb s)" using start_block [OF z(2), of 0 "sb s"] z(1) in_bitmap [of "of_nat b0" "sb s"] by (simp add: BPB_def)
    have unH: "?bb \<notin> bno s ` H" using H bb file_okD(7) [OF ok] by (auto simp: data_block_def)
    from store.look [OF t(1) store.usable_block [OF file_okD(3) [OF ok bb]] unH t(2)] obtain bp s1 s2 where
      l: "bread me 1 ?bb s = Ret (bp, s1)" "bdata bp s1 = blk s ?bb" "brelse me bp s1 = Ret s2" "txn me H (Suc (Suc m)) s2"
        "blk s2 = blk s" "txn_frame s s1" "txn_frame s s2" "\<And>j. j \<in> H \<Longrightarrow> bufs s2 ! j = bufs s ! j" by metis
    have "b \<in> set bs" using Cons.prems(7-10) balloc_bit_None [OF None, of k] by auto
    moreover note sb = txn_frame_fs(1) [OF l(7)] txn_frame_simps(10) [OF l(7)] bno_cong [of H s2 s] l(5)
    ultimately obtain a s' where r: "balloc_loop me 1 bs s2 = Ret (a, s')" "a \<in> free_blocks (sb s) (blk s)"
      "txn me H m s'" "txn_frame s2 s'" "blk s' = allocate (sb s) a (blk s)" "\<And>j. j \<in> H \<Longrightarrow> bufs s' ! j = bufs s2 ! j"
      using Cons.IH [of s2] l(4,8) Cons.prems(3-10) by simp metis
    have "balloc_loop me 1 (b0 # bs) s = Ret (a, s')" using l(1-3) r(1) None txn_frame_fs(1) [OF l(6)] by simp
    then show ?thesis using Cons.prems(1) r txn_frame_trans [OF l(7) r(4)] l(8) by auto
  qed
qed

lemma balloc_ok:
  assumes t: "txn me H (Suc (Suc m)) s" "card H < 3" and ok: "file_ok (fs_block s) (sb s) inum A (blk s)"
    and H: "bno s ` H \<subseteq> used_blocks A (blk s)" and free: "free_blocks (sb s) (blk s) \<noteq> {}"
  obtains a s' where "balloc me 1 s = Ret (a, s')" "txn me H m s'" "txn_frame s s'" "\<And>j. j \<in> H \<Longrightarrow> bufs s' ! j = bufs s ! j"
    "fresh (fs_block s) (sb s) inum A (blk s') a" "faddr A (blk s') = faddr A (blk s)"
    "keeps (IBLOCK inum (sb s)) A (blk s) A (blk s')" "\<And>b. b \<in> used_blocks A (blk s) \<Longrightarrow> blk s' b = blk s b"
    "free_blocks (sb s) (blk s') = free_blocks (sb s) (blk s) - {a}" "a \<in> free_blocks (sb s) (blk s)"
proof -
  obtain f where f: "f < sb_size (sb s)" "\<not> bit_set (blk s (BBLOCK f (sb s))) (unat f mod BPB)"
    using free by (auto simp: free_blocks_def in_use_def)
  let ?b = "unat f div BPB * BPB" and ?k = "unat f mod BPB" and ?sz = "unat (sb_size (sb s))"
  have fk: "?b + ?k = unat f" by simp
  have k: "?k < BPB" "?b + ?k < ?sz" using f(1) unfolding fk by (simp_all add: BPB_def word_less_nat_alt)
  have "BBLOCK (of_nat ?b) (sb s) = BBLOCK f (sb s)" using start_block(3) [OF _ k] unfolding fk by simp
  then have bit: "\<not> bit_set (blk s (BBLOCK (of_nat ?b) (sb s))) ?k" using f(2) by simp
  have starts: "\<forall>b \<in> set (bitmap_starts ?sz). BPB dvd b \<and> b < ?sz"
    by (auto simp: bitmap_starts_def BPB_def)
  have "unat f div BPB < (?sz + BPB - 1) div BPB" using k(2) unfolding fk by (simp add: BPB_def)
  then have mem: "?b \<in> set (bitmap_starts ?sz)" unfolding bitmap_starts_def by (auto intro: image_eqI)
  from balloc_loop_ok [OF t ok H starts mem k bit] obtain a s' where
    r: "balloc me 1 s = Ret (a, s')" "a \<in> free_blocks (sb s) (blk s)" "txn me H m s'" "txn_frame s s'"
      "blk s' = allocate (sb s) a (blk s)" "\<And>j. j \<in> H \<Longrightarrow> bufs s' ! j = bufs s ! j" unfolding balloc_def by metis
  note al = allocate_fresh [OF ok r(2) r(5) [unfolded allocate_def Let_def] refl]
  show thesis by (rule that [OF r(1,3,4,6) al(1,3,4,5,2) r(2)])
qed

section \<open>The block map\<close>

abbreviation addrs :: "nat \<Rightarrow> 'a fsst_scheme \<Rightarrow> u32 list" where
  "addrs i s \<equiv> i_addrs (icache s ! i)"

definition fs_ok :: "nat \<Rightarrow> 'a fsst_scheme \<Rightarrow> bool" where
  "fs_ok i s \<longleftrightarrow>
     i < length (icache s) \<and> i_dev (icache s ! i) = 1 \<and>
     file_ok (fs_block s) (sb s) (i_inum (icache s ! i)) (addrs i s) (blk s)"

abbreviation blocks_left :: "'a fsst_scheme \<Rightarrow> nat" where
  "blocks_left s \<equiv> card (free_blocks (sb s) (blk s))"

definition same_file :: "nat \<Rightarrow> 'a fsst_scheme \<Rightarrow> 'a fsst_scheme \<Rightarrow> bool" where
  "same_file i s s' \<longleftrightarrow> keeps (IBLOCK (i_inum (icache s ! i)) (sb s)) (addrs i s) (blk s) (addrs i s') (blk s')"

text \<open>What the operations on one inode leave alone: everything but the caches, the log and the addresses
  in the inode.\<close>

abbreviation set_addrs :: "nat \<Rightarrow> u32 list \<Rightarrow> 'a fsst_scheme \<Rightarrow> 'a fsst_scheme" where
  "set_addrs i A s \<equiv> upd_inode i (\<lambda>ip. ip\<lparr>i_addrs := A\<rparr>) s"

definition file_frame :: "nat \<Rightarrow> 'a fsst_scheme \<Rightarrow> 'a fsst_scheme \<Rightarrow> bool" where
  "file_frame i s s' \<longleftrightarrow> (\<exists>A. txn_frame (set_addrs i A s) s')"

lemma txn_more:
  fixes f :: "inode \<Rightarrow> inode"
  shows "txn me H m (upd_inode i f s) = txn me H m s" "blk (upd_inode i f s) = blk s" "fs_block (upd_inode i f s) = fs_block s"
    "bufs (upd_inode i f s) = bufs s" "bno (upd_inode i f s) = bno s" "sb (upd_inode i f s) = sb s"
    "memdisk (upd_inode i f s) = memdisk s" "icache (upd_inode i f s) = (icache s)[i := f (icache s ! i)]"
  by (simp_all add: upd_inode_def txn_def holds_def cache_ok_def mypid_def pblocks_def pinned_def bno_def blk_def fs_block_def
      fun_eq_iff split: option.splits)

lemma txn_frame_upd: "txn_frame s t \<Longrightarrow> txn_frame (upd_inode i f s) (upd_inode i f t)"
  unfolding txn_frame_def
proof (elim exE conjE)
  fix ps bs l lh assume "t = s\<lparr>procs := ps, bufs := bs, lru := l, log_lh := lh\<rparr>" "map p_pid ps = map p_pid (procs s)"
  then show "\<exists>ps bs l lh. upd_inode i f t = (upd_inode i f s)\<lparr>procs := ps, bufs := bs, lru := l, log_lh := lh\<rparr> \<and>
      map p_pid ps = map p_pid (procs (upd_inode i f s))"
    by (intro exI [of _ ps] exI [of _ bs] exI [of _ l] exI [of _ lh]) (simp add: upd_inode_def)
qed

lemma upd_inode_twice [simp]: "upd_inode i f (upd_inode i g s) = upd_inode i (\<lambda>ip. f (g ip)) s"
  by (cases "i < length (icache s)") (simp_all add: upd_inode_def list_update_beyond)

lemma set_addrs_same [simp]: "set_addrs i (addrs i s) s = s"
  by (simp add: upd_inode_def)

lemma file_frame_txn: "txn_frame s s' \<Longrightarrow> file_frame i s s'"
  unfolding file_frame_def by (metis set_addrs_same)

lemma file_frame_set: "txn_frame s t \<Longrightarrow> file_frame i s (set_addrs i A t)"
  unfolding file_frame_def by (metis txn_frame_upd)

lemma file_frame_trans [trans]: "file_frame i s t \<Longrightarrow> file_frame i t u \<Longrightarrow> file_frame i s u"
proof -
  assume "file_frame i s t" "file_frame i t u"
  then obtain A A' where "txn_frame (set_addrs i A s) t" "txn_frame (set_addrs i A' t) u" by (auto simp: file_frame_def)
  from txn_frame_trans [OF txn_frame_upd [OF this(1)] this(2)] show ?thesis by (auto simp: file_frame_def)
qed

lemma file_frame_simps:
  assumes "file_frame i s s'"
  shows "sb s' = sb s" "fs_block s' = fs_block s" "length (icache s') = length (icache s)" "memdisk s' = memdisk s"
    "\<exists>A. icache s' = (icache s)[i := (icache s ! i)\<lparr>i_addrs := A\<rparr>]"
proof -
  obtain A where a: "txn_frame (set_addrs i A s) s'" using assms by (auto simp: file_frame_def)
  show "sb s' = sb s" "fs_block s' = fs_block s" "length (icache s') = length (icache s)" "memdisk s' = memdisk s"
    using txn_frame_fs [OF a] txn_frame_simps(1,10) [OF a] by (simp_all add: txn_more)
  show "\<exists>A. icache s' = (icache s)[i := (icache s ! i)\<lparr>i_addrs := A\<rparr>]"
    using txn_frame_fs(2) [OF a] by (auto simp: txn_more)
qed

lemma same_file_refl [simp]: "same_file i s s"
  by (simp add: same_file_def)

lemma same_file_trans:
  assumes "file_frame i s t" "same_file i s t" "same_file i t u" shows "same_file i s u"
proof -
  have "i_inum (icache t ! i) = i_inum (icache s ! i)"
    using file_frame_simps(3,5) [OF assms(1)] by (cases "i < length (icache s)") (auto simp: list_update_beyond)
  then show ?thesis using assms(2,3) file_frame_simps(1) [OF assms(1)] unfolding same_file_def by (auto intro: keeps_trans)
qed

lemma txn_weaken: "txn me H m s \<Longrightarrow> m' \<le> m \<Longrightarrow> txn me H m' s"
  by (auto simp: txn_def)

lemma fs_ok_txn: "fs_ok i s \<Longrightarrow> txn_frame s s' \<Longrightarrow> blk s' = blk s \<Longrightarrow> fs_ok i s'"
  using txn_frame_fs [of s s'] txn_frame_simps(10) [of s s'] by (simp add: fs_ok_def)

lemma mapped_used: "n < MAXFILE \<Longrightarrow> faddr A B n \<noteq> 0 \<Longrightarrow> faddr A B n \<in> used_blocks A B"
  by (auto simp: used_blocks_def)

lemma indirect_used: "A ! NDIRECT \<noteq> 0 \<Longrightarrow> A ! NDIRECT \<in> used_blocks A B"
  by (simp add: used_blocks_def)

lemma used_fs_block: "file_ok U sp inum A B \<Longrightarrow> b \<in> used_blocks A B \<Longrightarrow> U b"
  using file_okD(7) [of U sp inum A B b] by (simp add: data_block_def)

lemma MAXFILE_word: "n < MAXFILE \<Longrightarrow> unat (of_nat n :: u32) = n"
  by (simp add: unat_of_nat take_bit_nat_eq_self MAXFILE_def NDIRECT_def NINDIRECT_def)

lemma faddr_indirect: "NDIRECT \<le> n \<Longrightarrow> A ! NDIRECT \<noteq> 0 \<Longrightarrow> faddr A B n = get32 (B (A ! NDIRECT)) (4 * (n - NDIRECT))"
  by (simp add: faddr_def)

text \<open>A mapped block is found without any change.\<close>

lemma bmap_mapped:
  assumes t: "txn me {} m s" and ok: "fs_ok i s" and n: "n < MAXFILE" "faddr (addrs i s) (blk s) n \<noteq> 0"
  obtains s' where "bmap me i (of_nat n) s = Ret (faddr (addrs i s) (blk s) n, s')" "txn me {} m s'" "txn_frame s s'" "blk s' = blk s"
proof (cases "n < NDIRECT")
  case True
  then show ?thesis using that [of s] t n by (simp add: bmap_def MAXFILE_word faddr_def)
next
  case False
  let ?ind = "addrs i s ! NDIRECT"
  have ind: "?ind \<noteq> 0" using n(2) False by (auto simp: faddr_def split: if_splits)
  have f: "file_ok (fs_block s) (sb s) (i_inum (icache s ! i)) (addrs i s) (blk s)" and dev: "i_dev (icache s ! i) = 1"
    using ok by (simp_all add: fs_ok_def)
  have u: "unat ?ind < length (memdisk s)" using used_fs_block [OF f indirect_used [OF ind]] by (rule store.usable_block)
  from store.look [OF t u] obtain k s1 s2 where
    l: "bread me 1 ?ind s = Ret (k, s1)" "bdata k s1 = blk s ?ind" "brelse me k s1 = Ret s2" "txn me {} m s2"
      "blk s2 = blk s" "txn_frame s s2" by (metis card.empty empty_iff image_empty zero_less_numeral)
  have "n - NDIRECT < NINDIRECT" using n(1) False by (simp add: MAXFILE_def)
  then have "bmap me i (of_nat n) s = Ret (faddr (addrs i s) (blk s) n, s2)"
    using False ind l(1-3) n dev by (simp add: bmap_def MAXFILE_word faddr_indirect)
  then show ?thesis using that l(4-6) by blast
qed

text \<open>A fresh block for the indirect addresses, when there is none yet.\<close>

lemma bmap_indirect_block:
  assumes t: "txn me {} (Suc (Suc m)) s" and ok: "fs_ok i s" and free: "1 < blocks_left s"
  obtains s' where
    "(if addrs i s ! NDIRECT = 0 then
        bnd (balloc me 1 s) (\<lambda>(addr, s). Ret (addr, upd_inode i (\<lambda>ip. ip\<lparr>i_addrs := (i_addrs ip)[NDIRECT := addr]\<rparr>) s))
      else Ret (addrs i s ! NDIRECT, s)) = Ret (addrs i s' ! NDIRECT, s')"
    "addrs i s' ! NDIRECT \<noteq> 0" "txn me {} m s'" "fs_ok i s'" "file_frame i s s'" "blocks_left s \<le> Suc (blocks_left s')"
    "same_file i s s'"
    "\<And>n. n < MAXFILE \<Longrightarrow> faddr (addrs i s') (blk s') n = faddr (addrs i s) (blk s) n"
proof (cases "addrs i s ! NDIRECT = 0")
  case False
  then show ?thesis using that [of s] ok txn_weaken [OF t] file_frame_txn [OF txn_frame_refl [of s], of i] by simp
next
  case True
  let ?A = "addrs i s" and ?inum = "i_inum (icache s ! i)"
  have f: "file_ok (fs_block s) (sb s) ?inum ?A (blk s)" and i: "i < length (icache s)" "i_dev (icache s ! i) = 1"
    using ok by (simp_all add: fs_ok_def)
  have ne: "free_blocks (sb s) (blk s) \<noteq> {}" using free by auto
  from balloc_ok [OF t _ f _ ne] obtain a s1 where
    b: "balloc me 1 s = Ret (a, s1)" "txn me {} m s1" "txn_frame s s1" "fresh (fs_block s) (sb s) ?inum ?A (blk s1) a"
      "faddr ?A (blk s1) = faddr ?A (blk s)" "keeps (IBLOCK ?inum (sb s)) ?A (blk s) ?A (blk s1)"
      "free_blocks (sb s) (blk s1) = free_blocks (sb s) (blk s) - {a}" "a \<in> free_blocks (sb s) (blk s)"
    by (metis card.empty empty_iff empty_subsetI image_empty zero_less_numeral)
  let ?s = "set_addrs i (?A[NDIRECT := a]) s1"
  note fr = txn_frame_fs [OF b(3)] txn_frame_simps(10) [OF b(3)] and e = enter_indirect [OF b(4) True]
  have A: "addrs i ?s = ?A[NDIRECT := a]" using i by (simp add: txn_more fr)
  have a0: "a \<noteq> 0" using b(4) by (simp add: fresh_def data_block_def)
  have "length ?A = NDIRECT + 1" by (rule file_okD(1) [OF f])
  then have n: "addrs i ?s ! NDIRECT = a" unfolding A by simp
  have "fs_ok i ?s" using e(1) i fr by (simp add: fs_ok_def txn_more)
  moreover have "blocks_left s \<le> Suc (blocks_left ?s)" using b(7,8) fr by (simp add: txn_more card_Suc_Diff1)
  moreover have "upd_inode i (\<lambda>ip. ip\<lparr>i_addrs := (i_addrs ip)[NDIRECT := a]\<rparr>) s1 = ?s" by (simp add: upd_inode_def fr)
  ultimately show ?thesis
    using that [of ?s] True b(1,2) n a0 file_frame_set [OF b(3)] keeps_trans [OF b(6) e(2)] e(3) b(5) A
    by (simp add: txn_more same_file_def)
qed

text \<open>A fresh block entered in the indirect block.\<close>

lemma bmap_entry:
  assumes t: "txn me {} (Suc (Suc (Suc m))) s" and ok: "fs_ok i s" and free: "0 < blocks_left s"
    and n: "NDIRECT \<le> n" "n < MAXFILE" "addrs i s ! NDIRECT \<noteq> 0" "faddr (addrs i s) (blk s) n = 0"
  obtains a bp s1 s2 s3 s4 where
    "bread me 1 (addrs i s ! NDIRECT) s = Ret (bp, s1)" "get32 (bdata bp s1) (4 * (n - NDIRECT)) = 0" "balloc me 1 s1 = Ret (a, s2)"
    "log_write bp (set_bdata bp (put32 (bdata bp s2) (4 * (n - NDIRECT)) a) s2) = Ret s3" "brelse me bp s3 = Ret s4"
    "txn me {} m s4" "fs_ok i s4" "txn_frame s s4" "blocks_left s \<le> Suc (blocks_left s4)"
    "same_file i s s4"
    "faddr (addrs i s4) (blk s4) n = a" "a \<noteq> 0"
proof -
  let ?A = "addrs i s" and ?inum = "i_inum (icache s ! i)" and ?ind = "addrs i s ! NDIRECT"
  have f: "file_ok (fs_block s) (sb s) ?inum ?A (blk s)" using ok by (simp add: fs_ok_def)
  have ui: "fs_block s ?ind" by (rule used_fs_block [OF f indirect_used [OF n(3)]])
  from store.rd_law [OF t store.usable_block [OF ui]] obtain bp s1 where
    r: "bread me 1 ?ind s = Ret (bp, s1)" "txn me {bp} (Suc (Suc (Suc m))) s1" "blk s1 = blk s" "txn_frame s s1" "bno s1 bp = ?ind"
      "bdata bp s1 = blk s ?ind" by (metis card.empty empty_iff image_empty zero_less_numeral)
  note f1 = txn_frame_fs [OF r(4)] txn_frame_simps(10) [OF r(4)]
  have ok1: "file_ok (fs_block s1) (sb s1) ?inum ?A (blk s1)" using f by (simp add: f1 r(3))
  have H: "bno s1 ` {bp} \<subseteq> used_blocks ?A (blk s1)" using indirect_used [OF n(3)] r(5) by simp
  have ne: "free_blocks (sb s1) (blk s1) \<noteq> {}" using free by (auto simp: f1 r(3))
  have c: "card {bp} < 3" by simp
  from balloc_ok [OF r(2) c ok1 H ne] obtain a s2 where
    b: "balloc me 1 s1 = Ret (a, s2)" "txn me {bp} (Suc m) s2" "txn_frame s1 s2" "bufs s2 ! bp = bufs s1 ! bp"
      "fresh (fs_block s1) (sb s1) ?inum ?A (blk s2) a" "faddr ?A (blk s2) = faddr ?A (blk s1)"
      "keeps (IBLOCK ?inum (sb s1)) ?A (blk s1) ?A (blk s2)" "\<And>b. b \<in> used_blocks ?A (blk s1) \<Longrightarrow> blk s2 b = blk s1 b"
      "free_blocks (sb s1) (blk s2) = free_blocks (sb s1) (blk s1) - {a}" "a \<in> free_blocks (sb s1) (blk s1)"
    by (metis singletonI)
  have bno2: "bno s2 bp = ?ind" and d2: "bdata bp s2 = blk s2 ?ind"
    using r(3,5,6) b(4,8) H by (simp_all add: bno_def bdata_def)
  note f2 = txn_frame_fs [OF b(3)] txn_frame_simps(10) [OF b(3)]
  let ?d = "put32 (blk s2 ?ind) (4 * (n - NDIRECT)) a"
  have len: "length ?d = BSIZE" using file_okD(5) [of "fs_block s1" "sb s1" ?inum ?A "blk s2" ?ind] b(5) ui f1 by (simp add: fresh_def)
  have u2: "fs_block s2 (bno s2 bp)" using ui f1 f2 bno2 by simp
  from store.finish [OF b(2) _ u2 len] obtain s3 s4 where
    l: "log_write bp (set_bdata bp ?d s2) = Ret s3" "brelse me bp s3 = Ret s4" "txn me {} m s4" "blk s4 = (blk s2)(?ind := ?d)"
      "txn_frame s2 s4" by (metis bno2 empty_iff)
  note e = enter_entry [OF b(5) n(1-3) _ l(4)] and f4 = txn_frame_fs [OF l(5)] txn_frame_simps(10) [OF l(5)]
  have z: "faddr ?A (blk s2) n = 0" using n(4) b(6) r(3) by simp
  have A4: "addrs i s4 = ?A" "sb s4 = sb s" by (simp_all add: f1 f2 f4)
  have "get32 (bdata bp s1) (4 * (n - NDIRECT)) = 0" using n faddr_indirect r(6) by metis
  moreover have "fs_ok i s4" using e(1) [OF z] ok by (simp add: fs_ok_def f1 f2 f4)
  moreover have "blocks_left s \<le> Suc (blocks_left s4)"
    using e(4) [OF z] b(9,10) by (simp add: f1 A4 r(3) card_Suc_Diff1)
  moreover have "txn_frame s s4" using r(4) b(3) l(5) by (blast intro: txn_frame_trans)
  moreover have "a \<noteq> 0" using b(5) by (simp add: fresh_def data_block_def)
  moreover have "same_file i s s4" using keeps_trans [OF b(7) e(2) [OF z]] by (simp add: same_file_def A4 r(3) f1)
  ultimately show thesis using that [OF r(1) _ b(1)] l d2 e(3) [OF z] A4 by simp
qed

lemma faddr_direct: "n < NDIRECT \<Longrightarrow> faddr A B n = A ! n"
  by (simp add: faddr_def)

lemma bmap_direct:
  assumes t: "txn me {} (Suc (Suc m)) s" and ok: "fs_ok i s" and direct: "n < NDIRECT" "addrs i s ! n = 0" and free: "1 < blocks_left s"
  obtains s' where "bmap me i (of_nat n) s = Ret (faddr (addrs i s') (blk s') n, s')" "faddr (addrs i s') (blk s') n \<noteq> 0"
    "txn me {} m s'" "fs_ok i s'" "file_frame i s s'" "blocks_left s \<le> blocks_left s' + 2"
    "same_file i s s'"
proof -
  let ?A = "addrs i s" and ?inum = "i_inum (icache s ! i)"
  have f: "file_ok (fs_block s) (sb s) ?inum ?A (blk s)" and i: "i < length (icache s)" "i_dev (icache s ! i) = 1"
    using ok by (simp_all add: fs_ok_def)
  have u: "unat (of_nat n :: u32) = n" using direct(1) by (simp add: MAXFILE_word MAXFILE_def)
  have ne: "free_blocks (sb s) (blk s) \<noteq> {}" using free by auto
  from balloc_ok [OF t _ f _ ne] obtain a s1 where
    b: "balloc me 1 s = Ret (a, s1)" "txn me {} m s1" "txn_frame s s1" "fresh (fs_block s) (sb s) ?inum ?A (blk s1) a"
      "keeps (IBLOCK ?inum (sb s)) ?A (blk s) ?A (blk s1)"
      "free_blocks (sb s) (blk s1) = free_blocks (sb s) (blk s) - {a}" "a \<in> free_blocks (sb s) (blk s)"
    by (metis card.empty empty_iff empty_subsetI image_empty zero_less_numeral)
  let ?s = "set_addrs i (?A[n := a]) s1"
  note fr = txn_frame_fs [OF b(3)] txn_frame_simps(10) [OF b(3)] and e = enter_direct [OF b(4) direct]
  have A: "addrs i ?s = ?A[n := a]" using i by (simp add: txn_more fr)
  have "fs_ok i ?s" using e(1) i fr by (simp add: fs_ok_def txn_more)
  moreover have "blocks_left s \<le> blocks_left ?s + 2" 
    using card_Suc_Diff1 [OF finite b(7)] b(6) by (simp add: txn_more fr(1))
  moreover have "upd_inode i (\<lambda>ip. ip\<lparr>i_addrs := (i_addrs ip)[n := a]\<rparr>) s1 = ?s" by (simp add: upd_inode_def fr)
  moreover have "a \<noteq> 0" using b(4) by (simp add: fresh_def data_block_def)
  moreover have "bmap me i (of_nat n) s = Ret (a, ?s)"
    unfolding bmap_def Let_def u i(2) using direct b(1) calculation(3) by simp
  ultimately show thesis
    using b(2) keeps_trans [OF b(5) e(2)] e(3) file_frame_set [OF b(3), of i] A
    by (intro that [of ?s]) (simp_all add: txn_more same_file_def)
qed

text \<open>\<open>bmap\<close> always gives the block of the file, and the file keeps its contents.\<close>

lemma bmap_ok:
  assumes t: "txn me {} (m + 5) s" and ok: "fs_ok i s" and n: "n < MAXFILE" and free: "1 < blocks_left s"
  obtains s' where "bmap me i (of_nat n) s = Ret (faddr (addrs i s') (blk s') n, s')" "faddr (addrs i s') (blk s') n \<noteq> 0"
    "txn me {} m s'" "fs_ok i s'" "file_frame i s s'" "blocks_left s \<le> blocks_left s' + 2"
    "same_file i s s'" "faddr (addrs i s) (blk s) n \<noteq> 0 \<Longrightarrow> icache s' = icache s"
proof -
  let ?A = "addrs i s" and ?inum = "i_inum (icache s ! i)"
  have f: "file_ok (fs_block s) (sb s) ?inum ?A (blk s)" and i: "i < length (icache s)" "i_dev (icache s ! i) = 1"
    using ok by (simp_all add: fs_ok_def)
  note u = MAXFILE_word [OF n]
  consider (mapped) "faddr ?A (blk s) n \<noteq> 0" | (direct) "n < NDIRECT" "?A ! n = 0" | (indirect) "NDIRECT \<le> n" "faddr ?A (blk s) n = 0"
    using faddr_direct [of n ?A "blk s"] by (metis not_less)
  then show thesis
  proof cases
    case mapped
    from bmap_mapped [OF t ok n mapped] obtain s' where
      b: "bmap me i (of_nat n) s = Ret (faddr ?A (blk s) n, s')" "txn me {} (m + 5) s'" "txn_frame s s'" "blk s' = blk s" by metis
    note fr = txn_frame_fs [OF b(3)]
    show thesis
    proof (rule that [of s'])
      show "txn me {} m s'" by (rule txn_weaken [OF b(2)]) simp
      show "fs_ok i s'" by (rule fs_ok_txn [OF ok b(3,4)])
      show "file_frame i s s'" by (rule file_frame_txn [OF b(3)])
    qed (use b(1,4) mapped fr in \<open>simp_all add: same_file_def\<close>)
  next
    case direct
    have t2: "txn me {} (Suc (Suc m)) s" by (rule txn_weaken [OF t]) simp
    show thesis 
      by (rule bmap_direct [OF t2 ok direct free]) (rule that; simp add: direct faddr_direct)
  next
    case indirect
    have "txn me {} (Suc (Suc (Suc (Suc (Suc m))))) s" by (rule txn_weaken [OF t]) simp
    then obtain s1 where
      x: "(if ?A ! NDIRECT = 0 then
            bnd (balloc me 1 s) (\<lambda>(addr, s). Ret (addr, upd_inode i (\<lambda>ip. ip\<lparr>i_addrs := (i_addrs ip)[NDIRECT := addr]\<rparr>) s))
          else Ret (?A ! NDIRECT, s)) = Ret (addrs i s1 ! NDIRECT, s1)"
        "addrs i s1 ! NDIRECT \<noteq> 0" "txn me {} (Suc (Suc (Suc m))) s1" "fs_ok i s1" "file_frame i s s1" "blocks_left s \<le> Suc (blocks_left s1)"
        "same_file i s s1"
        "\<And>n. n < MAXFILE \<Longrightarrow> faddr (addrs i s1) (blk s1) n = faddr ?A (blk s) n" 
      by (rule bmap_indirect_block [OF _ ok free]) (rule that)
    have g: "0 < blocks_left s1" "faddr (addrs i s1) (blk s1) n = 0" using free x(6,8) n indirect by simp_all
    from bmap_entry [OF x(3,4) g(1) indirect(1) n x(2) g(2)] obtain a bp t1 t2 t3 t4 where
      y: "bread me 1 (addrs i s1 ! NDIRECT) s1 = Ret (bp, t1)" "get32 (bdata bp t1) (4 * (n - NDIRECT)) = 0" "balloc me 1 t1 = Ret (a, t2)"
        "log_write bp (set_bdata bp (put32 (bdata bp t2) (4 * (n - NDIRECT)) a) t2) = Ret t3" "brelse me bp t3 = Ret t4"
        "txn me {} m t4" "fs_ok i t4" "txn_frame s1 t4" "blocks_left s1 \<le> Suc (blocks_left t4)"
        "same_file i s1 t4"
        "faddr (addrs i t4) (blk t4) n = a" "a \<noteq> 0" by metis
    have "\<not> n < NDIRECT" "n - NDIRECT < NINDIRECT" using indirect(1) n by (simp_all add: MAXFILE_def)
    then have "bmap me i (of_nat n) s = Ret (a, t4)"
      unfolding bmap_def Let_def u i(2) using x(1) y(1-5) by simp
    then show thesis
    proof (rule that [of t4, unfolded y(11)])
      show "file_frame i s t4" by (rule file_frame_trans [OF x(5) file_frame_txn [OF y(8)]])
      show "blocks_left s \<le> blocks_left t4 + 2" using x(6) y(9) by linarith
      show "same_file i s t4" by (rule same_file_trans [OF x(5,7) y(10)])
    qed (use y(6,7,12) indirect(2) in auto)
  qed
qed

end
