(* ===== verification/File_Data.thy ===== *)
theory File_Data
  imports Block_Map File
begin

text \<open>
  The bytes of a file.  \<open>readi\<close> returns the bytes that the blocks of the file hold, \<open>writei\<close> replaces
  the bytes it is given and no others, and both keep the inode in the cache well formed and in
  agreement with its copy on the disk (\<^verbatim>\<open>src/xv6/fs.c\<close>).
\<close>

section \<open>The bytes of a file\<close>

definition fbyte :: "nat \<Rightarrow> 'a fsst_scheme \<Rightarrow> nat \<Rightarrow> u8" where
  "fbyte i s p = fdata (addrs i s) (blk s) (p div BSIZE) ! (p mod BSIZE)"

text \<open>The inode agrees with the disk, and every block below the size of the file is mapped.\<close>

definition synced :: "nat \<Rightarrow> 'a fsst_scheme \<Rightarrow> bool" where
  "synced i s \<longleftrightarrow>
     (let ip = icache s ! i in get_dinode (blk s (IBLOCK (i_inum ip) (sb s))) (dinode_off (i_inum ip)) = inode_dinode ip)"

definition full :: "nat \<Rightarrow> 'a fsst_scheme \<Rightarrow> bool" where
  "full i s \<longleftrightarrow> (\<forall>n < MAXFILE. n * BSIZE < unat (i_size (icache s ! i)) \<longrightarrow> faddr (addrs i s) (blk s) n \<noteq> 0)"

definition inode_ok :: "nat \<Rightarrow> 'a fsst_scheme \<Rightarrow> bool" where
  "inode_ok i s \<longleftrightarrow>
     fs_ok i s \<and> unat (i_size (icache s ! i)) \<le> MAXFILE * BSIZE \<and> i_type (icache s ! i) \<noteq> T_DEV \<and> full i s \<and> synced i s"

lemma chunk_bounds:
  assumes "0 < rest" shows "off mod BSIZE + chunk off rest \<le> BSIZE" "chunk off rest \<le> rest"
proof -
  have "off mod BSIZE < BSIZE" by (simp add: BSIZE_def)
  then show "off mod BSIZE + chunk off rest \<le> BSIZE" "chunk off rest \<le> rest" by (auto simp: chunk_def)
qed

lemma in_chunk:
  assumes "0 < rest" "off \<le> p" "p < off + chunk off rest"
  shows "p div BSIZE = off div BSIZE" "p mod BSIZE = off mod BSIZE + (p - off)"
proof -
  have "off mod BSIZE + (p - off) < BSIZE" using chunk_bounds(1) [OF assms(1), of off] assms(2,3) by linarith
  moreover have "p = off div BSIZE * BSIZE + (off mod BSIZE + (p - off))" using assms(2) by simp
  ultimately show "p div BSIZE = off div BSIZE" "p mod BSIZE = off mod BSIZE + (p - off)"
    by (metis add.commute add_cancel_right_left div_less div_mult_self1 less_nat_zero_code mod_less mod_mult_self1 nat_neq_iff)+
qed

text \<open>A position of the block that holds \<open>off\<close> is in the chunk or outside of the range.\<close>

lemma in_chunk_iff:
  assumes "0 < rest" "p div BSIZE = off div BSIZE"
  shows "off \<le> p \<and> p < off + chunk off rest \<longleftrightarrow> off mod BSIZE \<le> p mod BSIZE \<and> p mod BSIZE < off mod BSIZE + chunk off rest"
proof -
  have "p = off div BSIZE * BSIZE + p mod BSIZE" "off = off div BSIZE * BSIZE + off mod BSIZE"
    using assms(2) div_mult_mod_eq by metis+
  then show ?thesis by linarith
qed

section \<open>Reading\<close>

definition readable :: "nat \<Rightarrow> 'a logst_scheme \<Rightarrow> bool" where
  "readable me s \<longleftrightarrow> holds me {} s \<and> card (pblocks s) < NBUF"

lemma txn_readable: "txn me {} m s \<Longrightarrow> readable me s"
  by (auto simp: txn_def readable_def entries_ok_def distinct_card)

lemma read_at:
  assumes "readable me s" "unat b < length (memdisk s)"
  obtains k s1 s2 where "bread me 1 b s = Ret (k, s1)" "bdata k s1 = blk s b" "brelse me k s1 = Ret s2" "readable me s2"
    "blk s2 = blk s" "txn_frame s s1" "txn_frame s s2"
proof -
  have "b \<notin> bno s ` {}" "card {} + card (pblocks s) < NBUF \<or> b \<in> pblocks s" "holds me {} s"
    using assms(1) by (simp_all add: readable_def)
  from cache.read_block [OF this(3) assms(2) this(1,2)] obtain k s1 s2 where
    "bread me 1 b s = Ret (k, s1)" "bdata k s1 = blk s b" "brelse me k s1 = Ret s2" "holds me {} s2" "blk s2 = blk s"
    "pblocks s2 = pblocks s" "bio_frame s s1" "bio_frame s s2" by metis
  then show thesis using that assms(1) by (simp add: readable_def bio_frame_txn)
qed

lemma bmap_read:
  assumes t: "readable me s" and ok: "fs_ok i s" and n: "n < MAXFILE" "faddr (addrs i s) (blk s) n \<noteq> 0"
  obtains s' where "bmap me i (of_nat n) s = Ret (faddr (addrs i s) (blk s) n, s')" "readable me s'" "txn_frame s s'" "blk s' = blk s"
proof (cases "n < NDIRECT")
  case True
  then show ?thesis using that [of s] t n by (simp add: bmap_def MAXFILE_word faddr_def)
next
  case False
  let ?ind = "addrs i s ! NDIRECT"
  have ind: "?ind \<noteq> 0" using n(2) False by (auto simp: faddr_def split: if_splits)
  have f: "file_ok (fs_block s) (sb s) (i_inum (icache s ! i)) (addrs i s) (blk s)" and dev: "i_dev (icache s ! i) = 1"
    using ok by (simp_all add: fs_ok_def)
  have u: "unat ?ind < length (memdisk s)" using used_fs_block [OF f indirect_used [OF ind]] by (rule store.usable_block)
  from read_at [OF t u] obtain k s1 s2 where
    l: "bread me 1 ?ind s = Ret (k, s1)" "bdata k s1 = blk s ?ind" "brelse me k s1 = Ret s2" "readable me s2"
      "blk s2 = blk s" "txn_frame s s2" by metis
  have "n - NDIRECT < NINDIRECT" using n(1) False by (simp add: MAXFILE_def)
  then have "bmap me i (of_nat n) s = Ret (faddr (addrs i s) (blk s) n, s2)"
    using False ind l(1-3) n dev by (simp add: bmap_def MAXFILE_word faddr_indirect)
  then show ?thesis using that l(4-6) by blast
qed

declare readi_loop.simps [simp del] writei_loop.simps [simp del]

lemma readi_step:
  assumes t: "readable me s" and ok: "fs_ok i s" and n: "off div BSIZE < MAXFILE" "faddr (addrs i s) (blk s) (off div BSIZE) \<noteq> 0"
    and r: "0 < rest"
  obtains s' where
    "readi_loop me i off rest s =
       bnd (readi_loop me i (off + chunk off rest) (rest - chunk off rest) s') (\<lambda>(bs', s).
         Ret (map (fbyte i s') [off..<off + chunk off rest] @ bs', s))"
    "readable me s'" "txn_frame s s'" "blk s' = blk s"
proof -
  let ?a = "faddr (addrs i s) (blk s) (off div BSIZE)"
  from bmap_read [OF t ok n] obtain s1 where
    b: "bmap me i (of_nat (off div BSIZE)) s = Ret (?a, s1)" "readable me s1" "txn_frame s s1" "blk s1 = blk s" by metis
  have f: "file_ok (fs_block s) (sb s) (i_inum (icache s ! i)) (addrs i s) (blk s)" and dev: "i_dev (icache s ! i) = 1"
    using ok by (simp_all add: fs_ok_def)
  have ua: "fs_block s ?a" by (rule used_fs_block [OF f mapped_used [OF n]])
  then have "unat ?a < length (memdisk s1)" using txn_frame_simps(1) [OF b(3)] store.usable_block [of s ?a] by simp
  from read_at [OF b(2) this] obtain k s2 s3 where
    l: "bread me 1 ?a s1 = Ret (k, s2)" "bdata k s2 = blk s1 ?a" "brelse me k s2 = Ret s3" "readable me s3"
      "blk s3 = blk s1" "txn_frame s1 s3" by metis
  let ?m = "chunk off rest" and ?d = "blk s ?a"
  have fr: "txn_frame s s3" using b(3) l(6) by (rule txn_frame_trans)
  have len: "length ?d = BSIZE" by (rule file_okD(5) [OF f ua])
  have bytes: "take ?m (drop (off mod BSIZE) ?d) = map (fbyte i s3) [off..<off + ?m]"
  proof (rule nth_equalityI)
    show "length (take ?m (drop (off mod BSIZE) ?d)) = length (map (fbyte i s3) [off..<off + ?m])"
      using chunk_bounds(1) [OF r, of off] len by simp
    fix j assume "j < length (take ?m (drop (off mod BSIZE) ?d))"
    then have j: "j < ?m" by simp
    then have "fbyte i s3 (off + j) = ?d ! (off mod BSIZE + j)"
      using in_chunk [OF r, of off "off + j"] n(2) l(5) b(4) txn_frame_fs(2) [OF fr] by (simp add: fbyte_def fdata_def)
    then show "take ?m (drop (off mod BSIZE) ?d) ! j = map (fbyte i s3) [off..<off + ?m] ! j"
      using j chunk_bounds(1) [OF r, of off] len by simp
  qed
  have d1: "i_dev (icache s1 ! i) = 1" using dev txn_frame_fs(2) [OF b(3)] by simp
  have "readi_loop me i off rest s =
      bnd (readi_loop me i (off + ?m) (rest - ?m) s3) (\<lambda>(bs', s). Ret (map (fbyte i s3) [off..<off + ?m] @ bs', s))"
    unfolding readi_loop.simps [of me i off] using r b(1,4) d1 l(1,2,3) bytes by (simp add: Let_def)
  then show thesis using that l(4,5) b(4) fr by simp
qed

lemma fbyte_cong: "txn_frame s s' \<Longrightarrow> blk s' = blk s \<Longrightarrow> fbyte i s' = fbyte i s"
  using txn_frame_fs(2) [of s s'] by (intro ext) (simp add: fbyte_def)

text \<open>The blocks of a range of positions.\<close>

definition mapped_range :: "nat \<Rightarrow> 'a fsst_scheme \<Rightarrow> nat \<Rightarrow> nat \<Rightarrow> bool" where
  "mapped_range i s off len \<longleftrightarrow> (\<forall>p. off \<le> p \<and> p < off + len \<longrightarrow> faddr (addrs i s) (blk s) (p div BSIZE) \<noteq> 0)"

lemma readi_loop_ok:
  assumes "readable me s" "fs_ok i s" "off + rest \<le> MAXFILE * BSIZE" "mapped_range i s off rest"
  obtains s' where "readi_loop me i off rest s = Ret (map (fbyte i s) [off..<off + rest], s')" "readable me s'" "txn_frame s s'"
    "blk s' = blk s"
  using assms
proof (induction rest arbitrary: off s thesis rule: less_induct)
  case (less rest)
  show ?case
  proof (cases "rest = 0")
    case True
    then show ?thesis using less.prems(1) [of s] less.prems(2) by (simp add: readi_loop.simps)
  next
    case False
    then have r: "0 < rest" by simp
    let ?m = "chunk off rest"
    have m: "0 < ?m" "?m \<le> rest" using chunk_pos [OF r] chunk_bounds(2) [OF r] by auto
    have "off < MAXFILE * BSIZE" using less.prems(4) r by linarith
    then have n: "off div BSIZE < MAXFILE" by (simp add: less_mult_imp_div_less)
    have f: "faddr (addrs i s) (blk s) (off div BSIZE) \<noteq> 0" using less.prems(5) r by (simp add: mapped_range_def)
    from readi_step [OF less.prems(2,3) n f r] obtain s1 where
      st: "readi_loop me i off rest s =
          bnd (readi_loop me i (off + ?m) (rest - ?m) s1) (\<lambda>(bs', s). Ret (map (fbyte i s1) [off..<off + ?m] @ bs', s))"
        "readable me s1" "txn_frame s s1" "blk s1 = blk s" by metis
    have "mapped_range i s1 (off + ?m) (rest - ?m)"
      using less.prems(5) m txn_frame_fs(2) [OF st(3)] st(4) by (simp add: mapped_range_def)
    then obtain s2 where
      l: "readi_loop me i (off + ?m) (rest - ?m) s1 = Ret (map (fbyte i s1) [off + ?m..<off + ?m + (rest - ?m)], s2)" "readable me s2"
        "txn_frame s1 s2" "blk s2 = blk s1"
      using less.IH [of "rest - ?m" "off + ?m" s1] m less.prems(4) st(2) fs_ok_txn [OF less.prems(3) st(3,4)] by auto
    have "[off..<off + ?m] @ [off + ?m..<off + ?m + (rest - ?m)] = [off..<off + rest]"
      using m upt_add_eq_append [of off "off + ?m" "rest - ?m"] by simp
    then have "readi_loop me i off rest s = Ret (map (fbyte i s) [off..<off + rest], s2)"
      using st(1) l(1) fbyte_cong [OF st(3,4)] by (simp flip: map_append)
    then show ?thesis using less.prems(1) l(2,4) st(4) txn_frame_trans [OF st(3) l(3)] by simp
  qed
qed

lemma MAXFILE_bytes: "MAXFILE * BSIZE = 71680"
  by (simp add: MAXFILE_def NDIRECT_def NINDIRECT_def BSIZE_def)

lemma full_mapped:
  assumes "full i s" "unat (i_size (icache s ! i)) \<le> MAXFILE * BSIZE" "off + len \<le> unat (i_size (icache s ! i))"
  shows "mapped_range i s off len"
  unfolding mapped_range_def
proof (intro allI impI)
  fix p assume p: "off \<le> p \<and> p < off + len"
  then have "p < MAXFILE * BSIZE" using assms(2,3) by linarith
  then have "p div BSIZE < MAXFILE" by (simp add: less_mult_imp_div_less)
  moreover have "p div BSIZE * BSIZE < unat (i_size (icache s ! i))"
    using p assms(3) div_times_less_eq_dividend [of p BSIZE] by linarith
  ultimately show "faddr (addrs i s) (blk s) (p div BSIZE) \<noteq> 0" using assms(1) by (simp add: full_def)
qed

lemma readi_ok:
  assumes t: "readable me s" and ok: "inode_ok i s" and n: "unat off + n \<le> unat (i_size (icache s ! i))"
  obtains s' where "readi me i off (of_nat n) s = Ret (int n, map (fbyte i s) [unat off..<unat off + n], s')" "readable me s'"
    "txn_frame s s'" "blk s' = blk s"
proof -
  have o: "fs_ok i s" "unat (i_size (icache s ! i)) \<le> MAXFILE * BSIZE" "i_type (icache s ! i) \<noteq> T_DEV" "full i s"
    using ok by (simp_all add: inode_ok_def)
  have b: "n \<le> 71680" "unat off + n \<le> 71680" using n o(2) by (simp_all add: MAXFILE_bytes)
  have un: "unat (of_nat n :: u32) = n" using b by (simp add: unat_of_nat take_bit_nat_eq_self)
  have sum: "unat (off + of_nat n) = unat off + n" using b by (subst unat_add_lem [THEN iffD1]) (simp_all add: un)
  have g: "\<not> off > i_size (icache s ! i)" "\<not> off + of_nat n < off" "\<not> off + of_nat n > i_size (icache s ! i)"
    using n by (simp_all add: word_less_nat_alt sum)
  have si: "sint (of_nat n :: u32) = int n" by (rule sint_of_nat_small) (use b in simp)
  have "unat off + n \<le> MAXFILE * BSIZE" using n o(2) by simp
  from readi_loop_ok [OF t o(1) this full_mapped [OF o(4,2) n]] obtain s' where
    r: "readi_loop me i (unat off) n s = Ret (map (fbyte i s) [unat off..<unat off + n], s')" "readable me s'" "txn_frame s s'"
      "blk s' = blk s" by metis
  have "readi me i off (of_nat n) s = Ret (int n, map (fbyte i s) [unat off..<unat off + n], s')"
    unfolding readi_def Let_def using o(3) g r(1) un si by simp
  then show thesis using that r by blast
qed

section \<open>Inodes on disk\<close>

lemma get16_put_list: "j + 2 \<le> off \<Longrightarrow> get16 (put_list off bs d) j = get16 d j"
  by (induction off bs d rule: put_list.induct) (simp_all add: get16_put32_other)

lemma get_put_dinode:
  assumes "k + 64 \<le> length d" "length (d_addrs v) = NDIRECT + 1"
  shows "get_dinode (put_dinode d k v) k = v"
proof -
  have "map (\<lambda>j. get32 (put_dinode d k v) (k + 12 + 4 * j)) [0..<NDIRECT + 1] = d_addrs v"
    using assms by (intro nth_equalityI) (simp_all add: put_dinode_def get32_put_list NDIRECT_def del: upt_Suc)
  then show ?thesis
    using assms(1)
    by (cases v) (simp add: get_dinode_def put_dinode_def get16_put_list get32_put_list_before byte_simps del: upt_Suc)
qed

lemma dinode_off_bound: "dinode_off inum + 64 \<le> BSIZE"
proof -
  have "unat inum mod IPB < 8" by (simp add: IPB_def)
  then show ?thesis by (simp add: dinode_off_def BSIZE_def)
qed

lemma file_ok_inode_block:
  assumes ok: "file_ok U sp inum A B" and d: "length d = BSIZE" and B': "B' = B(IBLOCK inum sp := d)"
  shows "file_ok U sp inum A B'" "faddr A B' = faddr A B" "n < MAXFILE \<Longrightarrow> fdata A B' n = fdata A B n"
proof -
  have use: "in_use sp B' b \<longleftrightarrow> in_use sp B b" if "b < sb_size sp" for b
    using file_okD(4) [OF ok in_bitmap [OF that]] by (simp add: in_use_def B')
  have "B' b = B b \<and> in_use sp B' b" if "b \<in> used_blocks A B" for b
    using file_okD(7,8) [OF ok that] use [of b] by (auto simp: data_block_def B')
  moreover have "free_blocks sp B' \<subseteq> free_blocks sp B" using use by (auto simp: free_blocks_def)
  moreover have "length (B' b) = BSIZE" if "U b" for b using file_okD(5) [OF ok that] d by (simp add: B')
  ultimately show "file_ok U sp inum A B'" "faddr A B' = faddr A B" "n < MAXFILE \<Longrightarrow> fdata A B' n = fdata A B n"
    using file_ok_keep [OF ok, of B'] by blast+
qed

lemma iupdate_ok:
  assumes t: "txn me {} (Suc m) s" and ok: "fs_ok i s"
  obtains s' where "iupdate me i s = Ret s'" "txn me {} m s'" "fs_ok i s'" "txn_frame s s'" "synced i s'"
    "\<And>p. p < MAXFILE * BSIZE \<Longrightarrow> fbyte i s' p = fbyte i s p" "faddr (addrs i s') (blk s') = faddr (addrs i s) (blk s)"
proof -
  let ?ip = "icache s ! i" let ?ib = "IBLOCK (i_inum ?ip) (sb s)" and ?o = "dinode_off (i_inum ?ip)"
  let ?d = "put_dinode (blk s ?ib) ?o (inode_dinode ?ip)"
  have f: "file_ok (fs_block s) (sb s) (i_inum ?ip) (addrs i s) (blk s)" and dev: "i_dev ?ip = 1"
    using ok by (simp_all add: fs_ok_def)
  have u: "fs_block s ?ib" by (rule file_okD(2) [OF f])
  have l0: "length (blk s ?ib) = BSIZE" by (rule file_okD(5) [OF f u])
  then have len: "length ?d = BSIZE" by (simp add: put_dinode_def)
  from store.modify [OF t u _ _ len] obtain k s1 s2 s3 where
    m: "bread me 1 ?ib s = Ret (k, s1)" "bdata k s1 = blk s ?ib" "log_write k (set_bdata k ?d s1) = Ret s2" "brelse me k s2 = Ret s3"
      "txn me {} m s3" "blk s3 = (blk s)(?ib := ?d)" "txn_frame s s3"
    by (metis card.empty empty_iff image_empty zero_less_numeral)
  note fr = txn_frame_fs [OF m(7)] txn_frame_simps(10) [OF m(7)] and k = file_ok_inode_block [OF f len m(6)]
  have "iupdate me i s = Ret s3" using m(1-4) dev by (simp add: iupdate_def Let_def)
  moreover have "fs_ok i s3" using k(1) ok by (simp add: fs_ok_def fr)
  moreover have "synced i s3"
    using get_put_dinode [of ?o "blk s ?ib" "inode_dinode ?ip"] dinode_off_bound [of "i_inum ?ip"] l0 file_okD(1) [OF f]
    by (simp add: synced_def Let_def fr m(6) inode_dinode_def)
  moreover have "fbyte i s3 p = fbyte i s p" if "p < MAXFILE * BSIZE" for p
    using k(3) [of "p div BSIZE"] that by (simp add: fbyte_def fr less_mult_imp_div_less)
  moreover have "faddr (addrs i s3) (blk s3) = faddr (addrs i s) (blk s)" using k(2) by (simp add: fr)
  ultimately show thesis using that m(5,7) by blast
qed

section \<open>Writing\<close>

lemma length_patch [simp]: "k + length xs \<le> length d \<Longrightarrow> length (patch d k xs) = length d"
  by (simp add: patch_def)

lemma nth_patch:
  "k + length xs \<le> length d \<Longrightarrow> j < length d \<Longrightarrow>
    patch d k xs ! j = (if k \<le> j \<and> j < k + length xs then xs ! (j - k) else d ! j)"
  by (auto simp: patch_def nth_append min_def)

text \<open>The state of the file after one block has been written.\<close>

definition wrote :: "nat \<Rightarrow> nat \<Rightarrow> bytes \<Rightarrow> 'a fsst_scheme \<Rightarrow> 'a fsst_scheme \<Rightarrow> bool" where
  "wrote i off src s s' \<longleftrightarrow>
     file_frame i s s' \<and> fs_ok i s' \<and>
     blk s' (IBLOCK (i_inum (icache s ! i)) (sb s)) = blk s (IBLOCK (i_inum (icache s ! i)) (sb s)) \<and>
     (\<forall>p < MAXFILE * BSIZE. fbyte i s' p = (if off \<le> p \<and> p < off + length src then src ! (p - off) else fbyte i s p)) \<and>
     (\<forall>n < MAXFILE. faddr (addrs i s) (blk s) n \<noteq> 0 \<longrightarrow> faddr (addrs i s') (blk s') n \<noteq> 0) \<and>
     mapped_range i s' off (length src) \<and> (mapped_range i s off (length src) \<longrightarrow> icache s' = icache s)"

lemma file_frame_inum: "file_frame i s s' \<Longrightarrow> i_inum (icache s' ! i) = i_inum (icache s ! i)"
  using file_frame_simps(3,5) [of i s s'] by (cases "i < length (icache s)") (auto simp: list_update_beyond)

lemma wrote_trans:
  assumes 1: "wrote i off xs s t" and 2: "wrote i (off + length xs) ys t u" and len: "off + length xs + length ys \<le> MAXFILE * BSIZE"
  shows "wrote i off (xs @ ys) s u"
proof -
  have f: "file_frame i s t" "file_frame i t u" using 1 2 by (simp_all add: wrote_def)
  note e = file_frame_inum [OF f(1)] file_frame_simps(1) [OF f(1)]
  have r: "fbyte i u p = (if off \<le> p \<and> p < off + length (xs @ ys) then (xs @ ys) ! (p - off) else fbyte i s p)"
    if "p < MAXFILE * BSIZE" for p
    using 1 2 that by (auto simp: wrote_def nth_append)
  have lt: "p div BSIZE < MAXFILE" if "p < off + length xs + length ys" for p
    using that len by (simp add: less_mult_imp_div_less)
  have m: "mapped_range i u off (length (xs @ ys))"
    unfolding mapped_range_def
  proof (intro allI impI)
    fix p assume p: "off \<le> p \<and> p < off + length (xs @ ys)"
    show "faddr (addrs i u) (blk u) (p div BSIZE) \<noteq> 0"
    proof (cases "p < off + length xs")
      case True
      then have "faddr (addrs i t) (blk t) (p div BSIZE) \<noteq> 0" using 1 p by (simp add: wrote_def mapped_range_def)
      then show ?thesis using 2 lt [of p] p by (simp add: wrote_def)
    qed (use 2 p in \<open>simp add: wrote_def mapped_range_def\<close>)
  qed
  have c: "icache u = icache s" if "mapped_range i s off (length (xs @ ys))"
  proof -
    have "mapped_range i s off (length xs)" using that by (simp add: mapped_range_def)
    moreover have "mapped_range i t (off + length xs) (length ys)"
      unfolding mapped_range_def
    proof (intro allI impI)
      fix p assume p: "off + length xs \<le> p \<and> p < off + length xs + length ys"
      then have "faddr (addrs i s) (blk s) (p div BSIZE) \<noteq> 0" using that by (simp add: mapped_range_def)
      then show "faddr (addrs i t) (blk t) (p div BSIZE) \<noteq> 0" using 1 lt [of p] p by (simp add: wrote_def)
    qed
    ultimately show ?thesis using 1 2 by (simp add: wrote_def)
  qed
  show ?thesis
    unfolding wrote_def using r m c file_frame_trans [OF f] 1 2 e by (simp add: wrote_def)
qed

lemma fbyte_patch:
  assumes d: "\<And>n. n < MAXFILE \<Longrightarrow> fdata (addrs i s') (blk s') n =
      (if n = off div BSIZE then patch (fdata (addrs i s) (blk s) n) (off mod BSIZE) (take (chunk off (length src)) src)
       else fdata (addrs i s) (blk s) n)"
    and len: "length (fdata (addrs i s) (blk s) (off div BSIZE)) = BSIZE" and src: "src \<noteq> []" and p: "p < MAXFILE * BSIZE"
  shows "fbyte i s' p = (if off \<le> p \<and> p < off + chunk off (length src) then src ! (p - off) else fbyte i s p)"
proof (cases "p div BSIZE = off div BSIZE")
  case False
  then have "\<not> (off \<le> p \<and> p < off + chunk off (length src))" using in_chunk(1) [of "length src" off p] src by auto
  then show ?thesis using d [of "p div BSIZE"] p False by (auto simp: fbyte_def less_mult_imp_div_less)
next
  case True
  have pos: "0 < length src" using src by simp
  note c = chunk_bounds [OF pos, of off] and iff = in_chunk_iff [OF pos True]
  have "p mod BSIZE < BSIZE" by (simp add: BSIZE_def)
  then have "fbyte i s' p =
      (if off mod BSIZE \<le> p mod BSIZE \<and> p mod BSIZE < off mod BSIZE + chunk off (length src)
       then take (chunk off (length src)) src ! (p mod BSIZE - off mod BSIZE) else fbyte i s p)"
    using d [OF less_mult_imp_div_less [OF p]] True len c by (simp add: fbyte_def nth_patch min_absorb2)
  then show ?thesis unfolding iff [symmetric] using in_chunk(2) [OF pos, of off p] by auto
qed

text \<open>One block: \<open>bmap\<close> has led from \<open>s\<close> to \<open>s1\<close>, and the new bytes have been stored in its block.\<close>

lemma wrote_block:
  fixes s :: "'a fsst_scheme"
  defines "n off \<equiv> off div BSIZE"
  assumes ok: "fs_ok i s1" and ff: "file_frame i s s1" and sf: "same_file i s s1" and n: "n off < MAXFILE" "faddr (addrs i s1) (blk s1) (n off) \<noteq> 0"
    and ic: "faddr (addrs i s) (blk s) (n off) \<noteq> 0 \<Longrightarrow> icache s1 = icache s" and src: "src \<noteq> []" and tf: "txn_frame s1 s'"
    and blk: "blk s' = (blk s1)(faddr (addrs i s1) (blk s1) (n off) :=
        patch (blk s1 (faddr (addrs i s1) (blk s1) (n off))) (off mod BSIZE) (take (chunk off (length src)) src))"
  shows "wrote i off (take (chunk off (length src)) src) s s'" "blocks_left s' = blocks_left s1"
proof -
  let ?m = "chunk off (length src)" and ?k = "off mod BSIZE" and ?n = "n off" let ?a = "faddr (addrs i s1) (blk s1) ?n"
  have f: "file_ok (fs_block s1) (sb s1) (i_inum (icache s1 ! i)) (addrs i s1) (blk s1)" using ok by (simp add: fs_ok_def)
  have pos: "0 < length src" using src by simp
  have l1: "length (blk s1 ?a) = BSIZE" by (rule file_okD(5) [OF f used_fs_block [OF f mapped_used [OF n]]])
  have lt: "length (take ?m src) = ?m" using chunk_bounds(2) [OF pos, of off] by simp
  have len: "length (patch (blk s1 ?a) ?k (take ?m src)) = BSIZE" using chunk_bounds(1) [OF pos, of off] l1 lt by simp
  note fr = txn_frame_fs [OF tf] txn_frame_simps(10) [OF tf] and st = file_ok_store [OF f n len blk]
  show "blocks_left s' = blocks_left s1" using st(4) by (simp add: fr)
  have same: "fdata (addrs i s1) (blk s1) n' = fdata (addrs i s) (blk s) n'" if "n' < MAXFILE" for n'
    using sf that by (simp add: same_file_def keeps_def)
  have an: "fdata (addrs i s) (blk s) ?n = blk s1 ?a" using same [OF n(1)] n(2) by (simp add: fdata_def)
  have d: "fdata (addrs i s') (blk s') n' =
      (if n' = off div BSIZE then patch (fdata (addrs i s) (blk s) n') ?k (take ?m src) else fdata (addrs i s) (blk s) n')"
    if "n' < MAXFILE" for n'
    using st(3) [OF that] same [OF that] an by (simp add: fr n_def)
  have ld: "length (fdata (addrs i s) (blk s) (off div BSIZE)) = BSIZE" using l1 an by (simp add: n_def)
  show "wrote i off (take ?m src) s s'"
    unfolding wrote_def
  proof (intro conjI allI impI)
    show "file_frame i s s'" by (rule file_frame_trans [OF ff file_frame_txn [OF tf]])
    show "fs_ok i s'" using st(1) ok by (simp add: fs_ok_def fr)
    show "blk s' (IBLOCK (i_inum (icache s ! i)) (sb s)) = blk s (IBLOCK (i_inum (icache s ! i)) (sb s))"
      using st(5) sf file_frame_inum [OF ff] file_frame_simps(1) [OF ff] by (simp add: same_file_def keeps_def)
    show "fbyte i s' p = (if off \<le> p \<and> p < off + length (take ?m src) then take ?m src ! (p - off) else fbyte i s p)"
      if "p < MAXFILE * BSIZE" for p
      using fbyte_patch [OF d ld src that] unfolding lt by (cases "off \<le> p \<and> p < off + ?m") auto
    show "faddr (addrs i s') (blk s') n' \<noteq> 0" if "n' < MAXFILE" "faddr (addrs i s) (blk s) n' \<noteq> 0" for n'
      using st(2) sf that by (simp add: fr same_file_def keeps_def)
    show "mapped_range i s' off (length (take ?m src))"
      unfolding mapped_range_def lt fr st(2) using in_chunk(1) [OF pos, of off] n(2) unfolding n_def by metis
    show "icache s' = icache s" if "mapped_range i s off (length (take ?m src))"
      unfolding fr using that ic chunk_pos [OF pos, of off] unfolding mapped_range_def lt n_def by simp
  qed
qed

lemma writei_step:
  assumes t: "txn me {} (m + 6) s" and ok: "fs_ok i s" and off: "off < MAXFILE * BSIZE" and src: "src \<noteq> []" and free: "1 < blocks_left s"
  obtains s' where
    "writei_loop me i off src s = writei_loop me i (off + chunk off (length src)) (drop (chunk off (length src)) src) s'"
    "txn me {} m s'" "wrote i off (take (chunk off (length src)) src) s s'" "blocks_left s \<le> blocks_left s' + 2"
proof -
  let ?n = "off div BSIZE" and ?m = "chunk off (length src)" and ?k = "off mod BSIZE"
  have n: "?n < MAXFILE" using off by (simp add: less_mult_imp_div_less)
  have pos: "0 < length src" using src by simp
  have t5: "txn me {} (Suc m + 5) s" by (rule txn_weaken [OF t]) simp
  from bmap_ok [OF t5 ok n free] obtain s1 where
    b: "bmap me i (of_nat ?n) s = Ret (faddr (addrs i s1) (blk s1) ?n, s1)" "faddr (addrs i s1) (blk s1) ?n \<noteq> 0" "txn me {} (Suc m) s1"
      "fs_ok i s1" "file_frame i s s1" "blocks_left s \<le> blocks_left s1 + 2" "same_file i s s1"
      "faddr (addrs i s) (blk s) ?n \<noteq> 0 \<Longrightarrow> icache s1 = icache s" by metis
  let ?a = "faddr (addrs i s1) (blk s1) ?n" let ?d = "patch (blk s1 ?a) ?k (take ?m src)"
  have f: "file_ok (fs_block s1) (sb s1) (i_inum (icache s1 ! i)) (addrs i s1) (blk s1)" and dev: "i_dev (icache s1 ! i) = 1"
    using b(4) by (simp_all add: fs_ok_def)
  have ua: "fs_block s1 ?a" by (rule used_fs_block [OF f mapped_used [OF n b(2)]])
  have len: "length ?d = BSIZE" using chunk_bounds [OF pos, of off] file_okD(5) [OF f ua] by simp
  from store.modify [OF b(3) ua _ _ len] obtain bp s2 s3 s4 where
    w: "bread me 1 ?a s1 = Ret (bp, s2)" "bdata bp s2 = blk s1 ?a" "log_write bp (set_bdata bp ?d s2) = Ret s3" "brelse me bp s3 = Ret s4"
      "txn me {} m s4" "blk s4 = (blk s1)(?a := ?d)" "txn_frame s1 s4"
    by (metis card.empty empty_iff image_empty zero_less_numeral)
  have "writei_loop me i off src s = writei_loop me i (off + ?m) (drop ?m src) s4"
    unfolding writei_loop.simps [of me i off] using src b(1) w(1-4) dev by (simp add: Let_def)
  then show thesis using that w(5) b(6) wrote_block [OF b(4,5,7) n b(2,8) src w(7,6)] by simp
qed

text \<open>The number of blocks that a range of positions touches, at most.\<close>

definition blocks_touched :: "nat \<Rightarrow> nat \<Rightarrow> nat" where
  "blocks_touched off len = (off mod BSIZE + len + BSIZE - 1) div BSIZE"

lemma blocks_touched_pos: "0 < len \<Longrightarrow> 0 < blocks_touched off len"
  by (simp add: blocks_touched_def BSIZE_def)

lemma blocks_touched_next:
  assumes "chunk off len < len"
  shows "blocks_touched off len = Suc (blocks_touched (off + chunk off len) (len - chunk off len))"
proof -
  have m: "off mod BSIZE < BSIZE" by (simp add: BSIZE_def)
  have c: "chunk off len = BSIZE - off mod BSIZE" "BSIZE < off mod BSIZE + len" using assms by (auto simp: chunk_def min_def split: if_splits)
  have "(off + (BSIZE - off mod BSIZE)) mod BSIZE = (off mod BSIZE + (BSIZE - off mod BSIZE)) mod BSIZE"
    by (simp add: mod_add_left_eq)
  then have z: "(off + chunk off len) mod BSIZE = 0" using c(1) m by simp
  have "off mod BSIZE + len + BSIZE - 1 = (len - chunk off len + BSIZE - 1) + BSIZE" using c m by linarith
  then have "blocks_touched off len = (len - chunk off len + BSIZE - 1) div BSIZE + 1"
    by (simp add: blocks_touched_def BSIZE_def)
  then show ?thesis unfolding blocks_touched_def z by simp
qed

lemma wrote_nil: "fs_ok i s \<Longrightarrow> wrote i off [] s s"
  by (auto simp: wrote_def mapped_range_def file_frame_txn)

lemma writei_loop_ok:
  assumes "txn me {} (m + 6 * blocks_touched off (length src)) s" "fs_ok i s" "off + length src \<le> MAXFILE * BSIZE"
    and "2 * blocks_touched off (length src) \<le> blocks_left s"
  obtains s' where "writei_loop me i off src s = Ret s'" "txn me {} m s'" "wrote i off src s s'"
  using assms
proof (induction "length src" arbitrary: off src s thesis rule: less_induct)
  case less
  show ?case
  proof (cases "src = []")
    case True
    then show ?thesis
      using less.prems(1) [of s] txn_weaken [OF less.prems(2), of m] wrote_nil [OF less.prems(3), of off] by (simp add: writei_loop.simps)
  next
    case False
    let ?c = "chunk off (length src)"
    have pos: "0 < length src" using False by simp
    have c: "0 < ?c" "?c \<le> length src" using chunk_pos [OF pos] chunk_bounds(2) [OF pos] by auto
    let ?b = "blocks_touched off (length src)" and ?b' = "blocks_touched (off + ?c) (length src - ?c)"
    obtain r where r: "?b = Suc r" using blocks_touched_pos [OF pos, of off] by (cases ?b) auto
    have t: "txn me {} (m + 6 * r + 6) s" using less.prems(2) by (simp add: r algebra_simps)
    have off: "off < MAXFILE * BSIZE" "1 < blocks_left s" using less.prems(4,5) pos r by linarith+
    from writei_step [OF t less.prems(3) off(1) False off(2)] obtain s1 where
      w: "writei_loop me i off src s = writei_loop me i (off + ?c) (drop ?c src) s1" "txn me {} (m + 6 * r) s1"
        "wrote i off (take ?c src) s s1" "blocks_left s \<le> blocks_left s1 + 2" by metis
    show ?thesis
    proof (cases "?c = length src")
      case True
      then show ?thesis using w less.prems(1) [of s1] txn_weaken [OF w(2), of m] by (simp add: writei_loop.simps)
    next
      case False
      then have "?b' = r" using blocks_touched_next [of off "length src"] c r by simp
      then have p: "length (drop ?c src) < length src" "txn me {} (m + 6 * blocks_touched (off + ?c) (length (drop ?c src))) s1"
        "fs_ok i s1" "off + ?c + length (drop ?c src) \<le> MAXFILE * BSIZE"
        "2 * blocks_touched (off + ?c) (length (drop ?c src)) \<le> blocks_left s1"
        using c w(2-4) r less.prems(4,5) pos by (simp_all add: wrote_def)
      obtain s2 where l: "writei_loop me i (off + ?c) (drop ?c src) s1 = Ret s2" "txn me {} m s2" "wrote i (off + ?c) (drop ?c src) s1 s2"
        by (rule less.hyps [OF p(1) _ p(2-5)]) (rule that)
      have "wrote i off (take ?c src @ drop ?c src) s s2"
        using l(3) c less.prems(4) by (intro wrote_trans [OF w(3)]) (simp_all add: min_absorb2)
      then show ?thesis using less.prems(1) w(1) l by simp
    qed
  qed
qed

text \<open>Every block below the new end of the file is mapped after the write.\<close>

lemma wrote_full:
  assumes w: "wrote i off src s t" and full: "full i s" and off: "off \<le> unat (i_size (icache s ! i))"
    and n: "n < MAXFILE" "n * BSIZE < max (unat (i_size (icache s ! i))) (off + length src)"
  shows "faddr (addrs i t) (blk t) n \<noteq> 0"
proof (cases "n * BSIZE < unat (i_size (icache s ! i))")
  case True
  then show ?thesis using full n(1) w by (simp add: full_def wrote_def)
next
  case False
  then have "off \<le> n * BSIZE" "n * BSIZE < off + length src" using off n(2) by linarith+
  moreover have "n * BSIZE div BSIZE = n" by (simp add: BSIZE_def)
  ultimately show ?thesis using w unfolding wrote_def mapped_range_def by metis
qed

lemma file_range_words:
  fixes off :: u32
  assumes "unat off + n \<le> MAXFILE * BSIZE"
  shows "unat (of_nat n :: u32) = n" "unat (off + of_nat n) = unat off + n" "sint (of_nat n :: u32) = int n" "\<not> off + of_nat n < off"
    "\<not> off + of_nat n > of_nat (MAXFILE * BSIZE)"
proof -
  have b: "unat off + n \<le> 71680" using assms by (simp add: MAXFILE_bytes)
  show un: "unat (of_nat n :: u32) = n" using b by (simp add: unat_of_nat take_bit_nat_eq_self)
  show sum: "unat (off + of_nat n) = unat off + n" using b by (subst unat_add_lem [THEN iffD1]) (simp_all add: un)
  show "sint (of_nat n :: u32) = int n" by (rule sint_of_nat_small) (use b in simp)
  show "\<not> off + of_nat n < off" "\<not> off + of_nat n > of_nat (MAXFILE * BSIZE)"
    using b by (simp_all add: word_less_nat_alt sum MAXFILE_bytes)
qed

text \<open>The end of \<open>writei\<close> when the file grows.\<close>

lemma size_update:
  assumes t: "txn me {} (Suc m) s" and ok: "fs_ok i s"
  obtains s' where "iupdate me i (upd_inode i (\<lambda>ip. ip\<lparr>i_size := z\<rparr>) s) = Ret s'" "txn me {} m s'" "fs_ok i s'" "synced i s'"
    "icache s' ! i = (icache s ! i)\<lparr>i_size := z\<rparr>" "\<And>p. p < MAXFILE * BSIZE \<Longrightarrow> fbyte i s' p = fbyte i s p"
    "faddr (addrs i s') (blk s') = faddr (addrs i s) (blk s)"
proof -
  let ?s = "upd_inode i (\<lambda>ip. ip\<lparr>i_size := z\<rparr>) s"
  have i: "i < length (icache s)" using ok by (simp add: fs_ok_def)
  have "txn me {} (Suc m) ?s" "fs_ok i ?s" using t ok i by (simp_all add: txn_more fs_ok_def)
  from iupdate_ok [OF this] obtain s' where
    u: "iupdate me i ?s = Ret s'" "txn me {} m s'" "fs_ok i s'" "txn_frame ?s s'" "synced i s'"
      "\<And>p. p < MAXFILE * BSIZE \<Longrightarrow> fbyte i s' p = fbyte i ?s p" "faddr (addrs i s') (blk s') = faddr (addrs i ?s) (blk ?s)" by metis
  have "icache s' ! i = (icache s ! i)\<lparr>i_size := z\<rparr>" using txn_frame_fs(2) [OF u(4)] i by (simp add: txn_more)
  moreover have "fbyte i ?s = fbyte i s" using i by (intro ext) (simp add: fbyte_def txn_more)
  moreover have "faddr (addrs i s') (blk s') = faddr (addrs i s) (blk s)" using u(7) i by (simp add: txn_more)
  ultimately show thesis using that u by simp
qed

lemma writei_ok:
  fixes off :: u32
  assumes t: "txn me {} m s" and ok: "inode_ok i s" and off: "off \<le> i_size (icache s ! i)" and len: "unat off + length src \<le> MAXFILE * BSIZE"
    and room: "6 * blocks_touched (unat off) (length src) < m" and free: "2 * blocks_touched (unat off) (length src) \<le> blocks_left s"
  obtains s' where "writei me i src off s = Ret (int (length src), s')" "txn me {} 0 s'" "inode_ok i s'"
    "unat (i_size (icache s' ! i)) = max (unat (i_size (icache s ! i))) (unat off + length src)"
    "\<And>p. p < MAXFILE * BSIZE \<Longrightarrow>
      fbyte i s' p = (if unat off \<le> p \<and> p < unat off + length src then src ! (p - unat off) else fbyte i s p)"
proof -
  let ?n = "of_nat (length src) :: u32" and ?ip = "icache s ! i" and ?b = "blocks_touched (unat off) (length src)"
  have o: "fs_ok i s" "unat (i_size ?ip) \<le> MAXFILE * BSIZE" "i_type ?ip \<noteq> T_DEV" "full i s" "synced i s"
    using ok by (simp_all add: inode_ok_def)
  have off0: "\<not> off > i_size ?ip" using off by simp
  note g = file_range_words [OF len] and off' = off [unfolded word_le_nat_alt]
  obtain m' where m': "m = Suc m' + 6 * ?b" using room less_iff_Suc_add [of "6 * ?b" m] by auto
  from writei_loop_ok [OF t [unfolded m'] o(1) len free] obtain s1 where
    l: "writei_loop me i (unat off) src s = Ret s1" "txn me {} (Suc m') s1" "wrote i (unat off) src s s1" by metis
  have ff: "file_frame i s s1" "fs_ok i s1" "i < length (icache s)" using l(3) o(1) by (simp_all add: wrote_def fs_ok_def)
  have ip1: "i_size (icache s1 ! i) = i_size ?ip" "i_type (icache s1 ! i) = i_type ?ip"
    using file_frame_simps(5) [OF ff(1)] ff(3) by auto
  note mapped = wrote_full [OF l(3) o(4) off']
  show thesis
  proof (cases "off + ?n > i_size ?ip")
    case False
    then have nog: "unat off + length src \<le> unat (i_size ?ip)" using g(2) by (simp add: word_less_nat_alt)
    then have ic: "icache s1 = icache s" using full_mapped [OF o(4,2) nog] l(3) by (simp add: wrote_def)
    have "synced i s1" using o(5) l(3) file_frame_simps(1) [OF ff(1)] ic by (simp add: synced_def Let_def wrote_def)
    moreover have "full i s1" using mapped nog ic by (simp add: full_def max_absorb1)
    ultimately have "inode_ok i s1" using o(2,3) ff(2) ip1 by (simp add: inode_ok_def)
    moreover have "writei me i src off s = Ret (int (length src), s1)"
      unfolding writei_def Let_def by (simp add: o(3) off0 g(3-5) l(1) False ip1 del: of_nat_mult)
    ultimately show thesis
      using that [of s1] txn_weaken [OF l(2)] l(3) nog ip1 by (simp add: wrote_def max_absorb1)
  next
    case True
    then have grow: "unat (i_size ?ip) < unat off + length src" using g(2) by (simp add: word_less_nat_alt)
    then have n0: "0 < ?n" using off' by (auto simp: word_less_nat_alt g(1))
    from size_update [OF l(2) ff(2)] obtain s2 where
      u: "iupdate me i (upd_inode i (\<lambda>ip. ip\<lparr>i_size := off + ?n\<rparr>) s1) = Ret s2" "txn me {} m' s2" "fs_ok i s2" "synced i s2"
        "icache s2 ! i = (icache s1 ! i)\<lparr>i_size := off + ?n\<rparr>" "\<And>p. p < MAXFILE * BSIZE \<Longrightarrow> fbyte i s2 p = fbyte i s1 p"
        "faddr (addrs i s2) (blk s2) = faddr (addrs i s1) (blk s1)" by metis
    have "full i s2" using mapped grow unfolding full_def u(7) unfolding u(5) by (simp add: g(2) max_absorb2)
    then have "inode_ok i s2" using o(3) len u(3,4,5) ip1(2) by (simp add: inode_ok_def g(2))
    moreover have "writei me i src off s = Ret (int (length src), s2)"
      unfolding writei_def Let_def by (simp add: o(3) off0 g(3-5) l(1) True n0 ip1 u(1) del: of_nat_mult)
    ultimately show thesis
      using that [of s2] txn_weaken [OF u(2)] u(5,6) l(3) grow by (simp add: wrote_def g(2) max_absorb2)
  qed
qed

section \<open>Properties\<close>

text \<open>C6: What is written is read back, and nothing else changes.  Inside a transaction with room in the
  log for six blocks for every block of the range and one more, and with two free blocks on the disk for
  each, \<open>writei\<close> at an offset up to the end of a well-formed file stores all bytes, whatever blocks
  (direct, indirect, the indirect block itself) it has to allocate for them.  The file grows to the end of
  the range, every other byte of it keeps its value, the inode stays well formed and agrees with its copy on
  disk, and \<open>readi\<close> of the range returns exactly the bytes written.\<close>

theorem writei_readi:
  fixes off :: u32
  assumes "txn me {} m s" "inode_ok i s" "off \<le> i_size (icache s ! i)" "unat off + length src \<le> MAXFILE * BSIZE"
    and "6 * blocks_touched (unat off) (length src) < m" "2 * blocks_touched (unat off) (length src) \<le> blocks_left s"
  shows "\<exists>s' s''. writei me i src off s = Ret (int (length src), s') \<and> inode_ok i s' \<and>
    unat (i_size (icache s' ! i)) = max (unat (i_size (icache s ! i))) (unat off + length src) \<and>
    (\<forall>p < MAXFILE * BSIZE. fbyte i s' p = (if unat off \<le> p \<and> p < unat off + length src then src ! (p - unat off) else fbyte i s p)) \<and>
    readi me i off (of_nat (length src)) s' = Ret (int (length src), src, s'')"
proof -
  from writei_ok [OF assms] obtain s' where
    w: "writei me i src off s = Ret (int (length src), s')" "txn me {} 0 s'" "inode_ok i s'"
      "unat (i_size (icache s' ! i)) = max (unat (i_size (icache s ! i))) (unat off + length src)"
      "\<And>p. p < MAXFILE * BSIZE \<Longrightarrow>
        fbyte i s' p = (if unat off \<le> p \<and> p < unat off + length src then src ! (p - unat off) else fbyte i s p)" by metis
  have "unat off + length src \<le> unat (i_size (icache s' ! i))" using w(4) by simp
  from readi_ok [OF txn_readable [OF w(2)] w(3) this] obtain s'' where
    r: "readi me i off (of_nat (length src)) s' = Ret (int (length src), map (fbyte i s') [unat off..<unat off + length src], s'')" by metis
  have "map (fbyte i s') [unat off..<unat off + length src] = src"
    using w(5) assms(4) by (intro nth_equalityI) auto
  then show ?thesis using w r by auto
qed

text \<open>An empty file on an otherwise empty disk with the geometry of the file system image.\<close>

definition bitmap_image :: bytes where
  "bitmap_image = replicate 7 255 @ [7] @ replicate 504 0"

definition empty_file_kern :: kern where
  "empty_file_kern = zero_kern\<lparr>log_outstanding := 1,
     memdisk := (replicate 1000 (replicate BSIZE 0))
       [32 := put_dinode (replicate BSIZE 0) (dinode_off 1) (zero_dinode T_FILE), 58 := bitmap_image],
     icache := (replicate NINODE zero_inode)[0 := zero_inode\<lparr>i_dev := 1, i_inum := 1, i_ref := 1, i_valid := True, i_type := T_FILE\<rparr>]\<rparr>"

lemma empty_file_fields:
  "memdisk empty_file_kern = (replicate 1000 (replicate BSIZE 0))
       [32 := put_dinode (replicate BSIZE 0) (dinode_off 1) (zero_dinode T_FILE), 58 := bitmap_image]"
  "bufs empty_file_kern = replicate NBUF zero_buf" "lru empty_file_kern = rev [0..<NBUF]" "procs empty_file_kern = replicate NPROC zero_proc"
  "log_start empty_file_kern = 2" "log_size empty_file_kern = 30" "log_dev empty_file_kern = 1" "log_lh empty_file_kern = []"
  "log_outstanding empty_file_kern = 1" "sb_size (sb empty_file_kern) = 1000" "sb_inodestart (sb empty_file_kern) = 32"
  "sb_bmapstart (sb empty_file_kern) = 58"
  "icache empty_file_kern ! 0 = zero_inode\<lparr>i_dev := 1, i_inum := 1, i_ref := 1, i_valid := True, i_type := T_FILE\<rparr>"
  "0 < length (icache empty_file_kern)"
  by (simp_all add: empty_file_kern_def zero_kern_def LOGSIZE_def MAXOPBLOCKS_def ROOTDEV_def NINODE_def)

lemma empty_file_blk: "blk empty_file_kern b = memdisk empty_file_kern ! unat b"
  by (rule blk_uncached) (simp add: empty_file_fields zero_buf_def)

lemma empty_file_txn: "txn 0 {} 7 empty_file_kern"
proof -
  have l: "\<forall>d \<in> set (memdisk empty_file_kern). length d = BSIZE"
    unfolding empty_file_fields by (auto dest!: set_update_subset_insert [THEN subsetD] simp: put_dinode_def bitmap_image_def BSIZE_def)
  have "holds 0 {} empty_file_kern"
    unfolding holds_def cache_ok_def using l
    by (auto simp: empty_file_fields one_copy_def buf_ok_def zero_buf_def initsleeplock_def NPROC_def)
  moreover have "pblocks empty_file_kern = {}" by (auto simp: pblocks_def pinned_def empty_file_fields zero_buf_def)
  moreover have "header_list (memdisk empty_file_kern ! 2) = []"
    unfolding empty_file_fields by (simp add: header_list_def get32_zeros BSIZE_def)
  ultimately show ?thesis
    by (simp add: txn_def empty_file_fields NBUF_def entries_ok_def)
qed

lemma bitmap_image_bits:
  assumes "k < 4096" shows "bit_set bitmap_image k \<longleftrightarrow> k < 59"
proof -
  have m: "(7 :: u8) = mask 3" "(255 :: u8) = mask 8" by (simp_all add: mask_eq_exp_minus_1)
  have e: "k = k div 8 * 8 + k mod 8" "k mod 8 < 8" by simp_all
  consider "k div 8 < 7" | "k div 8 = 7" | "7 < k div 8" by linarith
  then show ?thesis
  proof cases
    case 1
    then have "k < 59" using e by linarith
    then show ?thesis using 1 by (simp add: bit_set_bit bitmap_image_def nth_append m bit_mask_iff)
  next
    case 2
    then have "k < 59 \<longleftrightarrow> k mod 8 < 3" using e by linarith
    then show ?thesis using 2 by (simp add: bit_set_bit bitmap_image_def nth_append m bit_mask_iff)
  next
    case 3
    moreover have "k div 8 < 512" using assms by simp
    moreover have "\<not> k < 59" using 3 e by linarith
    ultimately show ?thesis by (simp add: bit_set_bit bitmap_image_def nth_append nth_Cons')
  qed
qed

lemma empty_file_free: "free_blocks (sb empty_file_kern) (blk empty_file_kern) = {b. 59 \<le> unat b \<and> unat b < 1000}"
proof -
  have "in_use (sb empty_file_kern) (blk empty_file_kern) b \<longleftrightarrow> unat b < 59" if "unat b < 1000" for b
  proof -
    have "unat (b div 4096) = 0" using that by (simp add: unat_div)
    then have "b div 4096 = 0" by (simp add: unat_eq_0)
    then have "BBLOCK b (sb empty_file_kern) = 58" by (simp add: BBLOCK_def BPB_def empty_file_fields)
    then show ?thesis using that bitmap_image_bits [of "unat b"] by (simp add: in_use_def empty_file_blk empty_file_fields BPB_def)
  qed
  then show ?thesis by (auto simp: free_blocks_def empty_file_fields word_less_nat_alt not_less)
qed

lemma empty_file_bitmap: "bitmap_blocks (sb empty_file_kern) = {58}"
proof -
  have "BBLOCK b (sb empty_file_kern) = 58" if "b < 1000" for b
  proof -
    have "unat (b div 4096) = 0" using that by (simp add: unat_div word_less_nat_alt)
    then have "b div 4096 = 0" by (simp add: unat_eq_0)
    then show ?thesis by (simp add: BBLOCK_def BPB_def empty_file_fields)
  qed
  moreover have "\<exists>b :: u32. b < 1000" by (rule exI [of _ 0]) simp
  ultimately show ?thesis unfolding bitmap_blocks_def empty_file_fields by (auto simp: image_iff)
qed

lemma empty_file_ok: "inode_ok 0 empty_file_kern"
proof -
  let ?s = empty_file_kern and ?A = "replicate 13 0 :: u32 list"
  have A: "addrs 0 ?s = ?A" by (simp add: empty_file_fields zero_inode_def NDIRECT_def)
  have fa: "faddr ?A (blk ?s) n = 0" if "n < MAXFILE" for n by (auto simp: faddr_def NDIRECT_def nth_append)
  have ib: "IBLOCK 1 (sb ?s) = 32" by (simp add: IBLOCK_def IPB_def empty_file_fields)
  have used: "used_blocks ?A (blk ?s) = {}" using fa by (auto simp: used_blocks_def NDIRECT_def)
  have u: "fs_block ?s b \<longleftrightarrow> unat b < 1000 \<and> \<not> (2 \<le> unat b \<and> unat b < 32)" for b
  proof -
    define k where "k = unat b"
    show ?thesis unfolding fs_block_def in_log_def empty_file_fields k_def [symmetric] by auto
  qed
  have len: "length (blk ?s b) = BSIZE" if "fs_block ?s b" for b
    using empty_file_txn that by (intro length_blk) (auto simp: txn_def holds_def fs_block_def)
  have data: "data_block (fs_block ?s) (sb ?s) 1 b" if "59 \<le> unat b" "unat b < 1000" for b
    using that unfolding data_block_def u empty_file_bitmap ib by (auto simp: empty_file_fields word_less_nat_alt)
  have "file_ok (fs_block ?s) (sb ?s) 1 ?A (blk ?s)"
    unfolding file_ok_def empty_file_bitmap empty_file_free used ib using len data fa
    by (auto simp: u inj_on_def NDIRECT_def)
  then have "fs_ok 0 ?s" using empty_file_fields(14) unfolding fs_ok_def A by (simp add: empty_file_fields(13))
  moreover have "synced 0 ?s"
    using get_put_dinode [of "dinode_off 1" "replicate BSIZE 0" "zero_dinode T_FILE"] dinode_off_bound [of 1]
    by (simp add: synced_def empty_file_fields(13) ib empty_file_blk empty_file_fields(1) zero_dinode_def inode_dinode_def zero_inode_def)
  moreover have "i_size (icache ?s ! 0) = 0" "i_type (icache ?s ! 0) = T_FILE" by (simp_all add: empty_file_fields(13) zero_inode_def)
  ultimately show ?thesis by (simp add: inode_ok_def full_def T_FILE_def T_DEV_def)
qed

theorem writei_readi_witness:
  "\<exists>s' s''. writei 0 0 [1, 2, 3] 0 empty_file_kern = Ret (3, s') \<and> readi 0 0 0 3 s' = Ret (3, [1, 2, 3], s'')"
proof -
  have "{59, 60} \<subseteq> free_blocks (sb empty_file_kern) (blk empty_file_kern)" unfolding empty_file_free by simp
  from card_mono [OF _ this] have "2 * blocks_touched (unat (0 :: u32)) (length [1, 2, 3 :: u8]) \<le> blocks_left empty_file_kern"
    by (simp add: blocks_touched_def BSIZE_def)
  moreover have "6 * blocks_touched (unat (0 :: u32)) (length [1, 2, 3 :: u8]) < 7" by (simp add: blocks_touched_def BSIZE_def)
  ultimately show ?thesis
    using writei_readi [OF empty_file_txn empty_file_ok, of 0 "[1, 2, 3]"] by (simp add: MAXFILE_bytes) blast
qed

end
