(* ===== verification/Page_Table.thy ===== *)
theory Page_Table
  imports Vm
begin

text \<open>
  What the page tables built by \<^verbatim>\<open>src/xv6/vm.c\<close> mean.  The entry of a virtual address is read off memory
  by \<open>pte_at\<close>, independently of the code; \<open>walkpgdir\<close>, \<open>mappages\<close> and \<open>allocuvm\<close> are related to it for a
  directory whose tables are pairwise different pages that are not on the free list.
\<close>

section \<open>Words of a page\<close>

lemma load32_cong: "(\<And>k. k < 4 \<Longrightarrow> m' (x + k) = m (x + k)) \<Longrightarrow> load32 m' x = load32 m x"
proof -
  assume c: "\<And>k. k < 4 \<Longrightarrow> m' (x + k) = m (x + k)"
  have "m' x = m x" "m' (x + 1) = m (x + 1)" "m' (x + 2) = m (x + 2)" "m' (x + 3) = m (x + 3)"
    using c [of 0] c [of 1] c [of 2] c [of 3] by simp_all
  then show ?thesis by (simp add: load32_def)
qed

lemma store32_other: "(\<And>k. k < 4 \<Longrightarrow> y \<noteq> x + k) \<Longrightarrow> store32 m x v y = m y"
proof -
  assume c: "\<And>k. k < 4 \<Longrightarrow> y \<noteq> x + k"
  show ?thesis using c [of 0] c [of 1] c [of 2] c [of 3] by (simp add: store32_def)
qed

lemma slot_offset:
  assumes "(i :: u32) < 1024" "k < 4" shows "unat (4 * i + k) = 4 * unat i + unat k" "4 * i + k < PGSIZE"
proof -
  have l: "unat i < 1024" "unat k < 4" using assms by (simp_all add: word_less_nat_alt)
  then have "unat (4 * i) = 4 * unat i" by (simp add: unat_word_ariths)
  then show "unat (4 * i + k) = 4 * unat i + unat k" using l by (simp add: unat_add_no_wrap)
  then show "4 * i + k < PGSIZE" using l by (simp add: PGSIZE_def word_less_nat_alt)
qed

lemma page_words_differ:
  assumes "a mod PGSIZE = 0" "b mod PGSIZE = 0" "a \<noteq> b" "k < PGSIZE" "j < PGSIZE" shows "a + k \<noteq> b + j"
  using aligned_pages_disjoint [OF assms(1-4)] assms(5) by (metis add_diff_cancel_left')

lemma slots_differ:
  assumes a: "a mod PGSIZE = 0" "b mod PGSIZE = 0" and i: "i < 1024" "j < 1024" "k < 4" "l < 4" and ne: "a \<noteq> b \<or> i \<noteq> j"
  shows "a + 4 * i + k \<noteq> b + 4 * j + (l :: u32)"
proof (cases "a = b")
  case True
  then have "unat i \<noteq> unat j" using ne by (simp add: word_unat_eq_iff)
  moreover have "unat k < 4" "unat l < 4" using i by (simp_all add: word_less_nat_alt)
  ultimately have "unat (4 * i + k) \<noteq> unat (4 * j + l)" using slot_offset(1) [OF i(1,3)] slot_offset(1) [OF i(2,4)] by linarith
  then show ?thesis using True by (auto simp: add.assoc)
next
  case False
  then show ?thesis using page_words_differ [OF a False slot_offset(2) [OF i(1,3)] slot_offset(2) [OF i(2,4)]] by (simp add: add.assoc)
qed

lemma load32_store32_slot:
  assumes "a mod PGSIZE = 0" "b mod PGSIZE = 0" "i < 1024" "j < 1024"
  shows "load32 (store32 m (a + 4 * i) v) (b + 4 * j) = (if a = b \<and> i = j then v else load32 m (b + 4 * j))"
proof (cases "a = b \<and> i = j")
  case False
  then have "load32 (store32 m (a + 4 * i) v) (b + 4 * j) = load32 m (b + 4 * j)"
    using slots_differ [OF assms(2,1,4,3)] by (intro load32_cong store32_other) auto
  then show ?thesis using False by auto
qed simp

lemma load32_fill_slot:
  assumes "a mod PGSIZE = 0" "b mod PGSIZE = 0" "j < 1024"
  shows "load32 (memset m a 0 PGSIZE) (b + 4 * j) = (if a = b then 0 else load32 m (b + 4 * j))"
proof (cases "a = b")
  case True
  have "mem_fill m b 0 PGSIZE (b + 4 * j + k) = 0" if "k < 4" for k
    using slot_offset(2) [OF assms(3) that] by (simp add: mem_fill_def add.assoc)
  from this [of 0] this [of 1] this [of 2] this [of 3]
  show ?thesis using True by (simp add: memset_is_fill load32_def le32_def)
next
  case False
  then have "load32 (memset m a 0 PGSIZE) (b + 4 * j) = load32 m (b + 4 * j)"
    using aligned_pages_disjoint [OF assms(2,1)] slot_offset(2) [OF assms(3)]
    by (intro load32_cong) (auto simp: memset_is_fill mem_fill_def add.assoc)
  then show ?thesis using False by simp
qed

section \<open>Directories\<close>

text \<open>The page table for index \<open>i\<close> of the directory, the entry for an address, and the pages that the
  directory and its tables take.\<close>

definition table_at :: "memory \<Rightarrow> u32 \<Rightarrow> u32 \<Rightarrow> u32 option" where
  "table_at m pgdir i =
     (let pde = load32 m (pgdir + 4 * i) in if present pde then Some (P2V (PTE_ADDR pde)) else None)"

definition pte_at :: "memory \<Rightarrow> u32 \<Rightarrow> u32 \<Rightarrow> u32" where
  "pte_at m pgdir va = (case table_at m pgdir (PDX va) of Some t \<Rightarrow> load32 m (t + 4 * PTX va) | None \<Rightarrow> 0)"

definition table_pages :: "memory \<Rightarrow> u32 \<Rightarrow> u32 set" where
  "table_pages m pgdir = insert pgdir {t. \<exists>i < 1024. table_at m pgdir i = Some t}"

definition pgdir_ok :: "memory \<Rightarrow> u32 \<Rightarrow> bool" where
  "pgdir_ok m pgdir \<longleftrightarrow>
     pgdir mod PGSIZE = 0 \<and> (\<forall>i < 1024. \<forall>t. table_at m pgdir i = Some t \<longrightarrow> t \<noteq> pgdir \<and> t \<noteq> 0) \<and>
     (\<forall>i < 1024. \<forall>j < 1024. \<forall>t. table_at m pgdir i = Some t \<and> table_at m pgdir j = Some t \<longrightarrow> i = j)"

definition vm_ok :: "'a machine_scheme \<Rightarrow> u32 \<Rightarrow> u32 list \<Rightarrow> bool" where
  "vm_ok s pgdir ps \<longleftrightarrow> pgdir_ok (mem s) pgdir \<and> free_pages s ps \<and> set ps \<inter> table_pages (mem s) pgdir = {}"

lemma unat_PDX: "unat (PDX a) = unat a div 4194304" and unat_PTX: "unat (PTX a) = unat a div 4096 mod 1024"
proof -
  have "(0x3FF :: u32) = mask 10" by (simp add: mask_eq_exp_minus_1)
  then have m: "x AND 0x3FF = x mod 1024" for x :: u32 using take_bit_eq_mask [of 10 x] take_bit_eq_mod [of 10 x] by simp
  have u: "unat (x mod 1024) = unat x mod 1024" for x :: u32 by (simp add: unat_mod_distrib)
  have "unat a div 4194304 < 1024" using unat_lt32 [of a] by simp
  then show "unat (PDX a) = unat a div 4194304" unfolding PDX_def m u unat_drop_bit32 by simp
  show "unat (PTX a) = unat a div 4096 mod 1024" unfolding PTX_def m u unat_drop_bit32 by simp
qed

lemma index_less: "PDX va < 1024" "PTX va < 1024"
proof -
  have "unat va div 4194304 < 1024" using unat_lt32 [of va] by simp
  then show "PDX va < 1024" "PTX va < 1024" by (simp_all add: word_less_nat_alt unat_PDX unat_PTX)
qed

lemma P2V_aligned: "x mod PGSIZE = 0 \<Longrightarrow> P2V x mod PGSIZE = 0"
proof -
  assume "x mod PGSIZE = 0"
  then have "4096 dvd unat x" by (simp add: page_aligned_unat mod_eq_0_iff_dvd)
  then have "4096 dvd unat x + 2147483648" by (intro dvd_add) simp_all
  then show ?thesis by (simp add: page_aligned_unat P2V_def KERNBASE_def unat_word_ariths mod_mod_cancel mod_eq_0_iff_dvd)
qed

lemma V2P_aligned: "x mod PGSIZE = 0 \<Longrightarrow> V2P x mod PGSIZE = 0"
proof -
  assume "x mod PGSIZE = 0"
  moreover have "V2P x = P2V x" by (simp add: V2P_def P2V_def KERNBASE_def)
  ultimately show ?thesis using P2V_aligned by simp
qed

lemma indices_page: "PDX a = PDX b \<and> PTX a = PTX b \<longleftrightarrow> PGROUNDDOWN a = PGROUNDDOWN b"
proof -
  have e: "unat x div 4096 = unat x div 4194304 * 1024 + unat x div 4096 mod 1024" for x :: u32
  proof -
    have "unat x div 4194304 = unat x div 4096 div 1024" by (simp add: div_mult2_eq [symmetric])
    then show ?thesis by simp
  qed
  have d: "unat x div 4194304 = unat x div 4096 div 1024" for x :: u32 by (simp add: div_mult2_eq [symmetric])
  have "PGROUNDDOWN a = PGROUNDDOWN b \<longleftrightarrow> unat a div 4096 = unat b div 4096" by (simp add: word_unat_eq_iff unat_PGROUNDDOWN)
  moreover have "unat a div 4096 = unat b div 4096 \<longleftrightarrow> unat (PDX a) = unat (PDX b) \<and> unat (PTX a) = unat (PTX b)"
    unfolding unat_PDX unat_PTX using e [of a] e [of b] d by metis
  ultimately show ?thesis by (auto simp: word_unat_eq_iff)
qed

lemma PTE_ADDR_round: "PTE_ADDR x = PGROUNDDOWN x"
  by (simp add: PTE_ADDR_def PGROUNDDOWN_def PGSIZE_def)

text \<open>An entry keeps the page and the flags that it was made of.\<close>

lemma aligned_bit: "x mod PGSIZE = 0 \<Longrightarrow> n < 12 \<Longrightarrow> \<not> bit x n"
proof -
  assume "x mod PGSIZE = 0" "n < 12"
  then have "take_bit 12 x = 0" by (simp add: take_bit_eq_mod PGSIZE_def)
  then have "\<not> bit (take_bit 12 x) n" by simp
  then show ?thesis using \<open>n < 12\<close> by (simp add: bit_take_bit_iff)
qed

lemma flag_bit: "f < PGSIZE \<Longrightarrow> 12 \<le> n \<Longrightarrow> \<not> bit f n"
proof -
  assume "f < PGSIZE" "12 \<le> n"
  then have "f mod 4096 = f" by (intro mod_word_less) (simp add: PGSIZE_def)
  then have "take_bit 12 f = f" by (simp add: take_bit_eq_mod)
  then have "bit f n \<longleftrightarrow> bit (take_bit 12 f) n" by simp
  then show ?thesis using \<open>12 \<le> n\<close> by (simp add: bit_take_bit_iff)
qed

lemma entry_page: "x mod PGSIZE = 0 \<Longrightarrow> f < PGSIZE \<Longrightarrow> PTE_ADDR (x OR f) = x"
proof -
  assume a: "x mod PGSIZE = 0" "f < PGSIZE"
  show ?thesis unfolding PTE_ADDR_round PGROUNDDOWN_shift
  proof (rule bit_word_eqI)
    fix n assume n: "n < LENGTH(32)"
    show "bit (push_bit 12 (drop_bit 12 (x OR f))) n \<longleftrightarrow> bit x n"
      using n aligned_bit [OF a(1), of n] flag_bit [OF a(2), of n] by (cases "n < 12") (simp_all add: bit_simps)
  qed
qed

lemma entry_flag: "x mod PGSIZE = 0 \<Longrightarrow> j < PGSIZE \<Longrightarrow> (x OR f) AND j = f AND j"
proof -
  assume a: "x mod PGSIZE = 0" "j < PGSIZE"
  show ?thesis
  proof (rule bit_word_eqI)
    fix n assume n: "n < LENGTH(32)"
    show "bit ((x OR f) AND j) n \<longleftrightarrow> bit (f AND j) n"
      using n aligned_bit [OF a(1), of n] flag_bit [OF a(2), of n] by (cases "n < 12") (simp_all add: bit_simps)
  qed
qed

lemma V2P_inverse [simp]: "P2V (V2P a) = a" "V2P (P2V a) = a"
  by (simp_all add: P2V_def V2P_def)

lemma table_aligned: "table_at m pgdir i = Some t \<Longrightarrow> t mod PGSIZE = 0"
  by (auto simp: table_at_def Let_def PTE_ADDR_round intro: P2V_aligned PGROUNDDOWN_aligned split: if_splits)

lemma pgdir_okD:
  assumes "pgdir_ok m pgdir"
  shows "pgdir mod PGSIZE = 0" "i < 1024 \<Longrightarrow> table_at m pgdir i = Some t \<Longrightarrow> t \<noteq> pgdir \<and> t \<noteq> 0"
    "i < 1024 \<Longrightarrow> j < 1024 \<Longrightarrow> table_at m pgdir i = Some t \<Longrightarrow> table_at m pgdir j = Some t \<Longrightarrow> i = j"
  using assms by (auto simp: pgdir_ok_def)

lemma slot_nonzero: "t mod PGSIZE = 0 \<Longrightarrow> t \<noteq> 0 \<Longrightarrow> i < 1024 \<Longrightarrow> t + 4 * i \<noteq> 0"
  using page_words_differ [of t 0 "4 * i" 0] slot_offset(2) [of i 0] by (simp add: PGSIZE_def)

text \<open>The tables and entries only depend on the pages of the directory and its tables.\<close>

lemma table_at_cong: "(\<And>i. i < 1024 \<Longrightarrow> load32 m' (pgdir + 4 * i) = load32 m (pgdir + 4 * i)) \<Longrightarrow> i < 1024 \<Longrightarrow>
    table_at m' pgdir i = table_at m pgdir i"
  by (simp add: table_at_def)

text \<open>Storing an entry changes the mapping of its page and of no other.\<close>

lemma store_entry:
  assumes ok: "pgdir_ok m pgdir" and t: "table_at m pgdir (PDX a) = Some t" and m': "m' = store32 m (t + 4 * PTX a) v"
  shows "i < 1024 \<Longrightarrow> table_at m' pgdir i = table_at m pgdir i"
    "pte_at m' pgdir va = (if PGROUNDDOWN va = PGROUNDDOWN a then v else pte_at m pgdir va)"
proof -
  have at: "t mod PGSIZE = 0" by (rule table_aligned [OF t])
  have ne: "t \<noteq> pgdir" using pgdir_okD(2) [OF ok index_less(1) t] by simp
  have T: "table_at m' pgdir i = table_at m pgdir i" if "i < 1024" for i
    using load32_store32_slot [OF at pgdir_okD(1) [OF ok] index_less(2)] ne that by (intro table_at_cong) (simp_all add: m')
  then show "i < 1024 \<Longrightarrow> table_at m' pgdir i = table_at m pgdir i" by simp
  show "pte_at m' pgdir va = (if PGROUNDDOWN va = PGROUNDDOWN a then v else pte_at m pgdir va)"
  proof (cases "table_at m pgdir (PDX va)")
    case None
    then have "PDX va \<noteq> PDX a" using t by auto
    then show ?thesis using None T [OF index_less(1)] indices_page [of va a] by (auto simp: pte_at_def)
  next
    case (Some u)
    have tu: "t = u \<longleftrightarrow> PDX va = PDX a"
      using pgdir_okD(3) [OF ok index_less(1) index_less(1) t, of va] Some t by auto
    have "load32 m' (u + 4 * PTX va) = (if t = u \<and> PTX a = PTX va then v else load32 m (u + 4 * PTX va))"
      unfolding m' by (rule load32_store32_slot [OF at table_aligned [OF Some] index_less(2) index_less(2)])
    then show ?thesis
      unfolding pte_at_def T [OF index_less(1)] Some option.case tu indices_page [symmetric] by (simp only: eq_commute [of "PTX a"])
  qed
qed

lemma pgdir_ok_cong: "(\<And>i. i < 1024 \<Longrightarrow> table_at m' pgdir i = table_at m pgdir i) \<Longrightarrow> pgdir_ok m' pgdir = pgdir_ok m pgdir"
  by (simp add: pgdir_ok_def)

lemma table_pages_cong: "(\<And>i. i < 1024 \<Longrightarrow> table_at m' pgdir i = table_at m pgdir i) \<Longrightarrow> table_pages m' pgdir = table_pages m pgdir"
  by (auto simp: table_pages_def)

lemma chain_cong: "(\<And>q. q \<in> set ps \<Longrightarrow> load32 m' q = load32 m q) \<Longrightarrow> chain m' r ps = chain m r ps"
  by (induction ps arbitrary: r) auto

lemma free_pages_mem:
  assumes "free_pages s ps" "\<And>q. q \<in> set ps \<Longrightarrow> load32 m' q = load32 (mem s) q"
  shows "free_pages (s\<lparr>mem := m'\<rparr>) ps"
  using assms chain_cong [of ps m' "mem s"] by (simp add: free_pages_def)

lemma free_aligned: "free_pages s ps \<Longrightarrow> p \<in> set ps \<Longrightarrow> p mod PGSIZE = 0 \<and> p \<noteq> 0"
  using page_ok_nonzero by (auto simp: free_pages_def page_ok_def)

lemma walk_found:
  "table_at (mem s) pgdir (PDX va) = Some t \<Longrightarrow> walkpgdir pgdir va c s = (t + 4 * PTX va, s)"
  by (auto simp: table_at_def walkpgdir_def Let_def split: if_splits)

text \<open>The memory after a new page table \<open>p\<close> has been entered.\<close>

definition with_table :: "u32 \<Rightarrow> u32 \<Rightarrow> u32 \<Rightarrow> memory \<Rightarrow> memory" where
  "with_table pgdir p i m = store32 (memset m p 0 PGSIZE) (pgdir + 4 * i) (V2P p OR PTE_P OR PTE_W OR PTE_U)"

lemma with_table_view:
  assumes ok: "pgdir_ok m pgdir" and p: "p mod PGSIZE = 0" "p \<noteq> 0" "p \<notin> table_pages m pgdir"
    and i: "i < 1024" "table_at m pgdir i = None" and m': "m' = with_table pgdir p i m"
  shows "j < 1024 \<Longrightarrow> table_at m' pgdir j = (if j = i then Some p else table_at m pgdir j)"
    "pte_at m' pgdir va = pte_at m pgdir va" "q mod PGSIZE = 0 \<Longrightarrow> q \<noteq> pgdir \<Longrightarrow> q \<noteq> p \<Longrightarrow> j < 1024 \<Longrightarrow> load32 m' (q + 4 * j) = load32 m (q + 4 * j)"
proof -
  let ?v = "V2P p OR PTE_P OR PTE_W OR PTE_U"
  have g: "pgdir mod PGSIZE = 0" by (rule pgdir_okD(1) [OF ok])
  have pg: "p \<noteq> pgdir" using p(3) by (simp add: table_pages_def)
  have w: "load32 m' (q + 4 * j) = (if pgdir = q \<and> i = j then ?v else if p = q then 0 else load32 m (q + 4 * j))"
    if "q mod PGSIZE = 0" "j < 1024" for q j
    unfolding m' with_table_def load32_store32_slot [OF g that(1) i(1) that(2)] load32_fill_slot [OF p(1) that] by simp
  have fl: "PTE_P OR PTE_W OR PTE_U < PGSIZE" "(PTE_P OR PTE_W OR PTE_U) AND PTE_P \<noteq> 0" "PTE_P < PGSIZE"
    by (simp_all add: PTE_P_def PTE_W_def PTE_U_def PGSIZE_def)
  have e: "PTE_ADDR ?v = V2P p" by (rule entry_page [OF V2P_aligned [OF p(1)] fl(1)])
  have pr: "present ?v" unfolding present_def entry_flag [OF V2P_aligned [OF p(1)] fl(3)] by (rule fl(2))
  have T: "table_at m' pgdir j = (if j = i then Some p else table_at m pgdir j)" if "j < 1024" for j
  proof -
    have "load32 m' (pgdir + 4 * j) = (if i = j then ?v else load32 m (pgdir + 4 * j))" using w [OF g that] pg by simp
    then show ?thesis unfolding table_at_def Let_def using e pr by (cases "j = i") simp_all
  qed
  then show "j < 1024 \<Longrightarrow> table_at m' pgdir j = (if j = i then Some p else table_at m pgdir j)" by simp
  show "q mod PGSIZE = 0 \<Longrightarrow> q \<noteq> pgdir \<Longrightarrow> q \<noteq> p \<Longrightarrow> j < 1024 \<Longrightarrow> load32 m' (q + 4 * j) = load32 m (q + 4 * j)" using w [of q j] by simp
  show "pte_at m' pgdir va = pte_at m pgdir va"
  proof (cases "PDX va = i")
    case True
    then show ?thesis using T [OF index_less(1), of va] w [OF p(1) index_less(2), of va] pg i(2) by (simp add: pte_at_def)
  next
    case False
    show ?thesis
    proof (cases "table_at m pgdir (PDX va)")
      case (Some u)
      have "u \<noteq> pgdir" "u \<noteq> p" using pgdir_okD(2) [OF ok index_less(1) Some] p(3) Some index_less(1) by (auto simp: table_pages_def)
      then show ?thesis using T [OF index_less(1), of va] False Some w [OF table_aligned [OF Some] index_less(2), of va] by (simp add: pte_at_def)
    qed (use T [OF index_less(1), of va] False in \<open>simp add: pte_at_def\<close>)
  qed
qed

lemma walk_alloc:
  assumes vm: "vm_ok s pgdir (p # qs)" and none: "table_at (mem s) pgdir (PDX va) = None"
  obtains s' where "walkpgdir pgdir va True s = (p + 4 * PTX va, s')" "mem s' = with_table pgdir p (PDX va) (mem s)"
    "vm_ok s' pgdir qs" "table_pages (mem s') pgdir = insert p (table_pages (mem s) pgdir)"
proof -
  have ok: "pgdir_ok (mem s) pgdir" and fp: "free_pages s (p # qs)" and dj: "set (p # qs) \<inter> table_pages (mem s) pgdir = {}"
    using vm by (simp_all add: vm_ok_def)
  have p: "p mod PGSIZE = 0" "p \<noteq> 0" "p \<notin> table_pages (mem s) pgdir" using free_aligned [OF fp] dj by auto
  have k: "kalloc s = (p, s\<lparr>freelist := load32 (mem s) p\<rparr>)" "free_pages (s\<lparr>freelist := load32 (mem s) p\<rparr>) qs"
    using kalloc_free_pages [OF fp] by simp_all
  let ?m = "with_table pgdir p (PDX va) (mem s)"
  let ?s = "s\<lparr>freelist := load32 (mem s) p, mem := ?m\<rparr>"
  note v = with_table_view [OF ok p index_less(1) none refl]
  have "\<not> present (load32 (mem s) (pgdir + 4 * PDX va))" using none by (auto simp: table_at_def split: if_splits)
  then have w: "walkpgdir pgdir va True s = (p + 4 * PTX va, ?s)"
    using k(1) p(2) by (simp add: walkpgdir_def Let_def with_table_def)
  have TP: "table_pages ?m pgdir = insert p (table_pages (mem s) pgdir)"
  proof -
    have "(\<exists>j < 1024. table_at ?m pgdir j = Some t) \<longleftrightarrow> t = p \<or> (\<exists>j < 1024. table_at (mem s) pgdir j = Some t)" for t
      using v(1) index_less(1) [of va] none by (metis option.distinct(1) option.inject)
    then show ?thesis unfolding table_pages_def by auto
  qed
  have tp: "t \<noteq> p" if "j < 1024" "table_at (mem s) pgdir j = Some t" for j t using p(3) that by (auto simp: table_pages_def)
  have "pgdir_ok ?m pgdir"
    unfolding pgdir_ok_def
  proof (intro conjI allI impI)
    show "pgdir mod PGSIZE = 0" by (rule pgdir_okD(1) [OF ok])
    show "t \<noteq> pgdir" "t \<noteq> 0" if "j < 1024" "table_at ?m pgdir j = Some t" for j t
      using v(1) [OF that(1)] that(2) pgdir_okD(2) [OF ok that(1), of t] p unfolding table_pages_def by (cases "j = PDX va"; simp)+
    show "j = l" if "j < 1024" "l < 1024" "table_at ?m pgdir j = Some t \<and> table_at ?m pgdir l = Some t" for j l t
    proof -
      have a: "(if j = PDX va then Some p else table_at (mem s) pgdir j) = Some t"
        "(if l = PDX va then Some p else table_at (mem s) pgdir l) = Some t"
        using v(1) [OF that(1)] v(1) [OF that(2)] that(3) by simp_all
      show ?thesis
        using a pgdir_okD(3) [OF ok that(1,2), of t] tp [OF that(1), of t] tp [OF that(2), of t]
        by (cases "j = PDX va"; cases "l = PDX va") simp_all
    qed
  qed
  moreover have "free_pages ?s qs"
  proof -
    have "load32 ?m q = load32 (mem s) q" if "q \<in> set qs" for q
      using v(3) [of q 0] free_aligned [OF fp, of q] that dj fp by (auto simp: table_pages_def free_pages_def)
    then show ?thesis using free_pages_mem [OF k(2), of ?m] by simp
  qed
  moreover have "set qs \<inter> table_pages ?m pgdir = {}" using dj fp unfolding TP by (auto simp: free_pages_def)
  ultimately have "vm_ok ?s pgdir qs" by (simp add: vm_ok_def)
  then show thesis using that [of ?s] w TP by simp
qed

section \<open>Mapping pages\<close>

lemma in_page:
  assumes "a mod PGSIZE = 0" shows "PGROUNDDOWN va = a \<longleftrightarrow> unat a \<le> unat va \<and> unat va < unat a + 4096"
proof -
  obtain x where x: "unat a = 4096 * x" using assms by (auto simp: page_aligned_unat mod_eq_0_iff_dvd elim: dvdE)
  have "PGROUNDDOWN va = a \<longleftrightarrow> unat va div 4096 = x" by (simp add: word_unat_eq_iff unat_PGROUNDDOWN x mult.commute)
  also have "\<dots> \<longleftrightarrow> unat a \<le> unat va \<and> unat va < unat a + 4096" unfolding x by (auto simp: div_nat_eqI)
  finally show ?thesis .
qed

lemma aligned_no_wrap:
  assumes "a mod PGSIZE = 0" "k < PGSIZE" shows "unat (a + k) = unat a + unat k"
proof -
  obtain x where x: "unat a = 4096 * x" using assms(1) by (auto simp: page_aligned_unat mod_eq_0_iff_dvd elim: dvdE)
  have "4096 * x < 2 ^ 32" using unat_lt32 [of a] x by simp
  then have "x < 2 ^ 20" by simp
  moreover have "unat k < 4096" using assms(2) by (simp add: PGSIZE_def word_less_nat_alt)
  ultimately show ?thesis using x by (intro unat_add_no_wrap) simp
qed

lemma page_of_offset: "a mod PGSIZE = 0 \<Longrightarrow> k < PGSIZE \<Longrightarrow> PGROUNDDOWN (a + k) = a"
  using in_page [of a "a + k"] aligned_no_wrap [of a k] by (simp add: PGSIZE_def word_less_nat_alt)

text \<open>Memory outside of a set of pages is the same.\<close>

definition same_outside :: "u32 set \<Rightarrow> memory \<Rightarrow> memory \<Rightarrow> bool" where
  "same_outside P m m' \<longleftrightarrow> (\<forall>x. PGROUNDDOWN x \<notin> P \<longrightarrow> m' x = m x)"

lemma same_outside_refl [simp]: "same_outside P m m"
  by (simp add: same_outside_def)

lemma same_outside_trans [trans]: "same_outside P m m' \<Longrightarrow> same_outside Q m' m'' \<Longrightarrow> P \<subseteq> Q \<Longrightarrow> same_outside Q m m''"
  by (auto simp: same_outside_def)

lemma same_outside_mono: "same_outside P m m' \<Longrightarrow> P \<subseteq> Q \<Longrightarrow> same_outside Q m m'"
  by (auto simp: same_outside_def)

lemma outside_store: "t mod PGSIZE = 0 \<Longrightarrow> i < 1024 \<Longrightarrow> same_outside {t} m (store32 m (t + 4 * i) v)"
  unfolding same_outside_def
proof (intro allI impI store32_other)
  fix x k :: u32 assume t: "t mod PGSIZE = 0" "i < 1024" "PGROUNDDOWN x \<notin> {t}" "k < 4"
  then show "x \<noteq> t + 4 * i + k" using page_of_offset [OF t(1) slot_offset(2) [OF t(2,4)]] by (auto simp: add.assoc)
qed

lemma outside_fill: "t mod PGSIZE = 0 \<Longrightarrow> same_outside {t} m (memset m t c PGSIZE)"
  unfolding same_outside_def memset_is_fill mem_fill_def
proof (intro allI impI)
  fix x :: u32 assume t: "t mod PGSIZE = 0" "PGROUNDDOWN x \<notin> {t}"
  then have "\<not> x - t < PGSIZE" using page_of_offset [OF t(1), of "x - t"] by auto
  then show "(if x - t < PGSIZE then ucast c else m x) = m x" by simp
qed

lemma outside_with_table:
  "pgdir mod PGSIZE = 0 \<Longrightarrow> p mod PGSIZE = 0 \<Longrightarrow> i < 1024 \<Longrightarrow> same_outside {p, pgdir} m (with_table pgdir p i m)"
  unfolding with_table_def
  by (rule same_outside_trans [OF same_outside_mono [OF outside_fill] same_outside_mono [OF outside_store]]) auto

text \<open>\<open>walkpgdir\<close> with allocation finds or makes the entry.\<close>

lemma walk_ok:
  assumes vm: "vm_ok s pgdir ps" and ps: "ps \<noteq> []"
  obtains t s' us qs where "walkpgdir pgdir a True s = (t + 4 * PTX a, s')" "t + 4 * PTX a \<noteq> 0" "vm_ok s' pgdir qs"
    "table_at (mem s') pgdir (PDX a) = Some t" "\<And>va. pte_at (mem s') pgdir va = pte_at (mem s) pgdir va"
    "ps = us @ qs" "length us \<le> 1" "table_pages (mem s') pgdir = set us \<union> table_pages (mem s) pgdir"
    "same_outside (table_pages (mem s') pgdir) (mem s) (mem s')"
proof (cases "table_at (mem s) pgdir (PDX a)")
  case (Some t)
  have "t + 4 * PTX a \<noteq> 0"
    using vm pgdir_okD(2) [OF _ index_less(1) Some] by (intro slot_nonzero [OF table_aligned [OF Some]]) (auto simp: vm_ok_def index_less)
  then show ?thesis using that [of t s ps "[]"] walk_found [OF Some] vm Some by simp
next
  case None
  obtain p qs where p: "ps = p # qs" using ps by (cases ps) auto
  have ok: "pgdir_ok (mem s) pgdir" and fp: "free_pages s (p # qs)" and dj: "p \<notin> table_pages (mem s) pgdir"
    using vm p by (auto simp: vm_ok_def)
  have pa: "p mod PGSIZE = 0" "p \<noteq> 0" using free_aligned [OF fp, of p] by auto
  from walk_alloc [OF vm [unfolded p] None] obtain s' where
    w: "walkpgdir pgdir a True s = (p + 4 * PTX a, s')" "mem s' = with_table pgdir p (PDX a) (mem s)" "vm_ok s' pgdir qs"
      "table_pages (mem s') pgdir = insert p (table_pages (mem s) pgdir)" by metis
  note v = with_table_view [OF ok pa dj index_less(1) None w(2)]
  have "same_outside (table_pages (mem s') pgdir) (mem s) (mem s')"
  proof (rule same_outside_mono)
    show "same_outside {p, pgdir} (mem s) (mem s')"
      unfolding w(2) by (rule outside_with_table [OF pgdir_okD(1) [OF ok] pa(1) index_less(1)])
    show "{p, pgdir} \<subseteq> table_pages (mem s') pgdir" unfolding w(4) by (simp add: table_pages_def)
  qed
  then show ?thesis
    using that [of p s' qs "[p]"] w v(1) [OF index_less(1)] v(2) slot_nonzero [OF pa index_less(2)] p by simp
qed

text \<open>The entries after \<open>n\<close> pages from \<open>a\<close> on have been mapped to the pages from \<open>pa\<close> on.\<close>

definition mapped_to :: "nat \<Rightarrow> u32 \<Rightarrow> u32 \<Rightarrow> u32 \<Rightarrow> (u32 \<Rightarrow> u32) \<Rightarrow> u32 \<Rightarrow> u32" where
  "mapped_to n a pa perm f va =
     (if unat a \<le> unat va \<and> unat va < unat a + 4096 * n then (pa + (PGROUNDDOWN va - a)) OR perm OR PTE_P else f va)"

lemma map_one:
  assumes vm: "vm_ok s pgdir ps" and ps: "ps \<noteq> []" and a: "a mod PGSIZE = 0" and un: "\<not> present (pte_at (mem s) pgdir a)"
  obtains s' us qs where
    "mappages_loop n pgdir a pa perm s = (case n of 0 \<Rightarrow> Ret (0, s') | Suc k \<Rightarrow> mappages_loop k pgdir (a + PGSIZE) (pa + PGSIZE) perm s')"
    "vm_ok s' pgdir qs" "\<And>va. pte_at (mem s') pgdir va = mapped_to 1 a pa perm (pte_at (mem s) pgdir) va"
    "ps = us @ qs" "length us \<le> 1" "table_pages (mem s') pgdir = set us \<union> table_pages (mem s) pgdir"
    "same_outside (table_pages (mem s') pgdir) (mem s) (mem s')"
proof -
  obtain t s1 us qs where
    w: "walkpgdir pgdir a True s = (t + 4 * PTX a, s1)" "t + 4 * PTX a \<noteq> 0" "vm_ok s1 pgdir qs"
      "table_at (mem s1) pgdir (PDX a) = Some t" "\<And>va. pte_at (mem s1) pgdir va = pte_at (mem s) pgdir va"
      "ps = us @ qs" "length us \<le> 1" "table_pages (mem s1) pgdir = set us \<union> table_pages (mem s) pgdir"
      "same_outside (table_pages (mem s1) pgdir) (mem s) (mem s1)" by (rule walk_ok [OF vm ps, of a]) (rule that)
  let ?v = "pa OR perm OR PTE_P" let ?m = "store32 (mem s1) (t + 4 * PTX a) ?v" let ?s = "s1\<lparr>mem := ?m\<rparr>"
  have ok1: "pgdir_ok (mem s1) pgdir" and fp: "free_pages s1 qs" and dj: "set qs \<inter> table_pages (mem s1) pgdir = {}"
    using w(3) by (simp_all add: vm_ok_def)
  note st = store_entry [OF ok1 w(4) refl, where v = ?v]
  have at: "t mod PGSIZE = 0" by (rule table_aligned [OF w(4)])
  have tp: "table_pages ?m pgdir = table_pages (mem s1) pgdir" by (rule table_pages_cong) (rule st(1))
  have t: "t \<in> table_pages (mem s1) pgdir" using w(4) index_less(1) by (auto simp: table_pages_def)
  have "load32 ?m q = load32 (mem s1) q" if "q \<in> set qs" for q
    using load32_store32_slot [OF at _ index_less(2), of q 0] free_aligned [OF fp that] that dj t by auto
  from free_pages_mem [OF fp this] have "vm_ok ?s pgdir qs"
    using dj ok1 tp pgdir_ok_cong [OF st(1)] by (simp add: vm_ok_def)
  moreover have "pte_at (mem ?s) pgdir va = mapped_to 1 a pa perm (pte_at (mem s) pgdir) va" for va
    using st(2) [of va] w(5) [of va] in_page [OF a, of va] page_of_offset [OF a, of 0] by (auto simp: mapped_to_def PGSIZE_def)
  moreover have "load32 (mem s1) (t + 4 * PTX a) = pte_at (mem s) pgdir a" using w(4) w(5) [of a] by (simp add: pte_at_def)
  then have "mappages_loop n pgdir a pa perm s = (case n of 0 \<Rightarrow> Ret (0, ?s) | Suc k \<Rightarrow> mappages_loop k pgdir (a + PGSIZE) (pa + PGSIZE) perm ?s)"
    using w(1,2) un by (simp add: mappages_loop.simps [of n] Let_def split: nat.splits)
  moreover have "same_outside (table_pages ?m pgdir) (mem s) ?m"
    unfolding tp by (rule same_outside_trans [OF w(9) same_outside_mono [OF outside_store [OF at index_less(2)]]]) (use t in auto)
  ultimately show thesis using that [of ?s qs us] w(6-8) tp by simp
qed

lemma mappages_loop_ok:
  assumes "vm_ok s pgdir ps" "Suc n \<le> length ps" "a mod PGSIZE = 0" "unat a + 4096 * Suc n \<le> 2 ^ 32"
    and "\<And>va. unat a \<le> unat va \<Longrightarrow> unat va < unat a + 4096 * Suc n \<Longrightarrow> \<not> present (pte_at (mem s) pgdir va)"
  obtains s' us qs where "mappages_loop n pgdir a pa perm s = Ret (0, s')"
    "vm_ok s' pgdir qs" "\<And>va. pte_at (mem s') pgdir va = mapped_to (Suc n) a pa perm (pte_at (mem s) pgdir) va"
    "ps = us @ qs" "length us \<le> Suc n" "table_pages (mem s') pgdir = set us \<union> table_pages (mem s) pgdir"
    "same_outside (table_pages (mem s') pgdir) (mem s) (mem s')"
  using assms
proof (induction n arbitrary: s ps a pa thesis)
  case 0
  have p: "ps \<noteq> []" "\<not> present (pte_at (mem s) pgdir a)" using "0.prems"(3,6) by auto
  show ?case by (rule map_one [OF "0.prems"(2) p(1) "0.prems"(4) p(2), of 0 pa perm]) (rule "0.prems"(1); (assumption | simp))
next
  case (Suc n)
  note P = Suc.prems
  have p: "ps \<noteq> []" "\<not> present (pte_at (mem s) pgdir a)" using P(3,6) by auto
  obtain s1 us1 qs1 where
    o: "mappages_loop (Suc n) pgdir a pa perm s = mappages_loop n pgdir (a + PGSIZE) (pa + PGSIZE) perm s1"
      "vm_ok s1 pgdir qs1" "\<And>va. pte_at (mem s1) pgdir va = mapped_to 1 a pa perm (pte_at (mem s) pgdir) va"
      "ps = us1 @ qs1" "length us1 \<le> 1" "table_pages (mem s1) pgdir = set us1 \<union> table_pages (mem s) pgdir"
      "same_outside (table_pages (mem s1) pgdir) (mem s) (mem s1)"
    by (rule map_one [OF P(2) p(1) P(4) p(2), of "Suc n" pa perm]) (rule that; (assumption | simp))
  have a1: "unat (a + PGSIZE) = unat a + 4096" using P(5) by (subst unat_add_no_wrap) (simp_all add: PGSIZE_def)
  have al: "(a + PGSIZE) mod PGSIZE = 0" using P(4) unfolding page_aligned_unat a1 by simp
  have len: "Suc n \<le> length qs1" using P(3) o(4,5) by simp
  have un: "\<not> present (pte_at (mem s1) pgdir va)" if "unat (a + PGSIZE) \<le> unat va" "unat va < unat (a + PGSIZE) + 4096 * Suc n" for va
    using P(6) [of va] that o(3) [of va] unfolding a1 by (simp add: mapped_to_def)
  have top: "unat (a + PGSIZE) + 4096 * Suc n \<le> 2 ^ 32" using P(5) unfolding a1 by simp
  obtain s' us qs where
    r: "mappages_loop n pgdir (a + PGSIZE) (pa + PGSIZE) perm s1 = Ret (0, s')" "vm_ok s' pgdir qs"
      "\<And>va. pte_at (mem s') pgdir va = mapped_to (Suc n) (a + PGSIZE) (pa + PGSIZE) perm (pte_at (mem s1) pgdir) va"
      "qs1 = us @ qs" "length us \<le> Suc n" "table_pages (mem s') pgdir = set us \<union> table_pages (mem s1) pgdir"
      "same_outside (table_pages (mem s') pgdir) (mem s1) (mem s')"
    by (rule Suc.IH [OF _ o(2) len al top un]) (rule that)
  have "pte_at (mem s') pgdir va = mapped_to (Suc (Suc n)) a pa perm (pte_at (mem s) pgdir) va" for va
    unfolding r(3) mapped_to_def a1 o(3) by (auto simp: algebra_simps)
  moreover have "same_outside (table_pages (mem s') pgdir) (mem s) (mem s')"
    by (rule same_outside_trans [OF o(7) r(7)]) (simp add: r(6))
  ultimately show ?case
    using P(1) [of s' qs "us1 @ us"] o(1,4-6) r(1,2,4-6) by (simp add: Un_assoc Un_left_commute)
qed

section \<open>Growing a process\<close>

text \<open>Changes to other pages.\<close>

lemma data_change:
  assumes vm: "vm_ok s pgdir ps" and m': "same_outside P (mem s) m'" and P: "P \<inter> table_pages (mem s) pgdir = {}" "P \<inter> set ps = {}"
  shows "vm_ok (s\<lparr>mem := m'\<rparr>) pgdir ps" "pte_at m' pgdir va = pte_at (mem s) pgdir va" "table_pages m' pgdir = table_pages (mem s) pgdir"
proof -
  have ok: "pgdir_ok (mem s) pgdir" and fp: "free_pages s ps" and dj: "set ps \<inter> table_pages (mem s) pgdir = {}" using vm by (simp_all add: vm_ok_def)
  have w: "load32 m' (t + 4 * i) = load32 (mem s) (t + 4 * i)" if "t mod PGSIZE = 0" "i < 1024" "t \<notin> P" for t i
    using m' page_of_offset [OF that(1) slot_offset(2) [OF that(2)]] that(3)
    by (intro load32_cong) (simp add: same_outside_def add.assoc)
  have g: "pgdir mod PGSIZE = 0" "pgdir \<notin> P" using pgdir_okD(1) [OF ok] P(1) by (auto simp: table_pages_def)
  have T: "table_at m' pgdir i = table_at (mem s) pgdir i" if "i < 1024" for i
    by (rule table_at_cong [OF _ that]) (rule w [OF g(1) _ g(2)])
  show tp: "table_pages m' pgdir = table_pages (mem s) pgdir" by (rule table_pages_cong) (rule T)
  have "load32 m' q = load32 (mem s) q" if "q \<in> set ps" for q
    using w [of q 0] free_aligned [OF fp that] that P(2) by auto
  from free_pages_mem [OF fp this] show "vm_ok (s\<lparr>mem := m'\<rparr>) pgdir ps"
    using dj ok tp pgdir_ok_cong [OF T] by (simp add: vm_ok_def)
  show "pte_at m' pgdir va = pte_at (mem s) pgdir va"
  proof (cases "table_at (mem s) pgdir (PDX va)")
    case (Some t)
    then have "t \<notin> P" using P(1) index_less(1) by (auto simp: table_pages_def)
    then show ?thesis using Some T [OF index_less(1)] w [OF table_aligned [OF Some] index_less(2)] by (simp add: pte_at_def)
  qed (use T [OF index_less(1)] in \<open>simp add: pte_at_def\<close>)
qed

lemma kalloc_vm:
  assumes "vm_ok s pgdir (p # ps)"
  shows "kalloc s = (p, s\<lparr>freelist := load32 (mem s) p\<rparr>)" "vm_ok (s\<lparr>freelist := load32 (mem s) p\<rparr>) pgdir ps"
    "p mod PGSIZE = 0" "p \<noteq> 0" "p \<notin> set ps" "p \<notin> table_pages (mem s) pgdir"
proof -
  have fp: "free_pages s (p # ps)" using assms by (simp add: vm_ok_def)
  from kalloc_free_pages [OF fp] show k: "kalloc s = (p, s\<lparr>freelist := load32 (mem s) p\<rparr>)" by simp
  have "free_pages (s\<lparr>freelist := load32 (mem s) p\<rparr>) ps" using kalloc_free_pages(2) [OF fp] k by simp
  then show "vm_ok (s\<lparr>freelist := load32 (mem s) p\<rparr>) pgdir ps" using assms by (auto simp: vm_ok_def)
  show "p mod PGSIZE = 0" "p \<noteq> 0" using free_aligned [OF fp, of p] by auto
  show "p \<notin> set ps" using fp by (simp add: free_pages_def)
  show "p \<notin> table_pages (mem s) pgdir" using assms by (auto simp: vm_ok_def)
qed

lemma mappages_page: "a mod PGSIZE = 0 \<Longrightarrow> mappages pgdir a PGSIZE pa perm s = mappages_loop 0 pgdir a pa perm s"
proof -
  assume a: "a mod PGSIZE = 0"
  have "(0 :: u32) < PGSIZE" "PGSIZE - 1 < PGSIZE" by (simp_all add: PGSIZE_def)
  from page_of_offset [OF a this(1)] page_of_offset [OF a this(2)] have "PGROUNDDOWN a = a" "PGROUNDDOWN (a + PGSIZE - 1) = a"
    by (simp_all add: add_diff_eq)
  then show ?thesis by (simp add: mappages_def)
qed

text \<open>A page of zeros.\<close>

definition zero_page :: "memory \<Rightarrow> u32 \<Rightarrow> bool" where
  "zero_page m p \<longleftrightarrow> (\<forall>k < PGSIZE. m (p + k) = 0)"

lemma zero_page_fill: "zero_page (memset m p 0 PGSIZE) p"
  by (simp add: zero_page_def memset_is_fill mem_fill_def)

lemma zero_page_keep: "zero_page m p \<Longrightarrow> same_outside P m m' \<Longrightarrow> p mod PGSIZE = 0 \<Longrightarrow> p \<notin> P \<Longrightarrow> zero_page m' p"
  using page_of_offset [of p] by (simp add: zero_page_def same_outside_def)

lemma allocuvm_step:
  assumes vm: "vm_ok s pgdir (p # ps)" and ps: "ps \<noteq> []" and a: "a mod PGSIZE = 0" and un: "\<not> present (pte_at (mem s) pgdir a)"
  obtains s' us qs where "allocuvm_loop (Suc n) pgdir a oldsz newsz s = allocuvm_loop n pgdir (a + PGSIZE) oldsz newsz s'"
    "vm_ok s' pgdir qs" "\<And>va. pte_at (mem s') pgdir va = mapped_to 1 a (V2P p) (PTE_W OR PTE_U) (pte_at (mem s) pgdir) va"
    "ps = us @ qs" "length us \<le> 1" "table_pages (mem s') pgdir = set us \<union> table_pages (mem s) pgdir"
    "same_outside (insert p (table_pages (mem s') pgdir)) (mem s) (mem s')" "zero_page (mem s') p"
proof -
  note k = kalloc_vm [OF vm]
  let ?s1 = "s\<lparr>freelist := load32 (mem s) p\<rparr>" let ?m = "memset (mem s) p 0 PGSIZE" let ?s2 = "?s1\<lparr>mem := ?m\<rparr>"
  have P: "{p} \<inter> table_pages (mem ?s1) pgdir = {}" "{p} \<inter> set ps = {}" using k(5,6) by simp_all
  have o2: "same_outside {p} (mem ?s1) ?m" using outside_fill [OF k(3)] by simp
  note d = data_change [OF k(2) o2 P]
  have un2: "\<not> present (pte_at (mem ?s2) pgdir a)" using un d(2) [of a] by simp
  obtain s' us qs where
    m: "mappages_loop 0 pgdir a (V2P p) (PTE_W OR PTE_U) ?s2 = Ret (0, s')" "vm_ok s' pgdir qs"
      "\<And>va. pte_at (mem s') pgdir va = mapped_to 1 a (V2P p) (PTE_W OR PTE_U) (pte_at (mem ?s2) pgdir) va" "ps = us @ qs" "length us \<le> 1"
      "table_pages (mem s') pgdir = set us \<union> table_pages (mem ?s2) pgdir" "same_outside (table_pages (mem s') pgdir) (mem ?s2) (mem s')"
    by (rule map_one [OF d(1) ps a un2, of 0 "V2P p" "PTE_W OR PTE_U"]) (rule that; (assumption | simp))
  have tp: "table_pages (mem s') pgdir = set us \<union> table_pages (mem s) pgdir" using m(6) d(3) by simp
  have "p \<notin> table_pages (mem s') pgdir" using tp k(5,6) m(4) by auto
  then have z: "zero_page (mem s') p" using zero_page_keep [OF _ m(7) k(3)] zero_page_fill [of "mem s" p] by simp
  have "allocuvm_loop (Suc n) pgdir a oldsz newsz s = allocuvm_loop n pgdir (a + PGSIZE) oldsz newsz s'"
    using k(1,4) m(1) mappages_page [OF a, of pgdir "V2P p" "PTE_W OR PTE_U" ?s2] by (simp add: Let_def)
  moreover have "same_outside (insert p (table_pages (mem s') pgdir)) (mem s) (mem s')"
    using o2 m(7) by (simp add: same_outside_def)
  moreover have "pte_at (mem s') pgdir va = mapped_to 1 a (V2P p) (PTE_W OR PTE_U) (pte_at (mem s) pgdir) va" for va
    using m(3) d(2) by (simp add: mapped_to_def)
  ultimately show thesis using that m(2,4,5) tp z by blast
qed

text \<open>The entries after the pages \<open>fs\<close> have been mapped for the user from \<open>a\<close> on.\<close>

definition user_pages :: "u32 list \<Rightarrow> u32 \<Rightarrow> (u32 \<Rightarrow> u32) \<Rightarrow> u32 \<Rightarrow> u32" where
  "user_pages fs a f va =
     (if unat a \<le> unat va \<and> unat va < unat a + 4096 * length fs
      then V2P (fs ! ((unat va - unat a) div 4096)) OR (PTE_W OR PTE_U) OR PTE_P else f va)"

lemma user_pages_Cons:
  assumes a: "a mod PGSIZE = 0" "unat (a + PGSIZE) = unat a + 4096"
  shows "user_pages fs (a + PGSIZE) (mapped_to 1 a (V2P p) (PTE_W OR PTE_U) f) va = user_pages (p # fs) a f va"
proof -
  consider "unat va < unat a" | "unat a \<le> unat va \<and> unat va < unat a + 4096" | "unat a + 4096 \<le> unat va" by linarith
  then show ?thesis
  proof cases
    case 2
    then have "PGROUNDDOWN va = a" using in_page [OF a(1)] by simp
    moreover have "(unat va - unat a) div 4096 = 0" using 2 by (intro div_less) linarith
    ultimately show ?thesis using 2 a(2) by (simp add: user_pages_def mapped_to_def)
  next
    case 3
    then have "(unat va - unat a) div 4096 = Suc ((unat va - (unat a + 4096)) div 4096)"
      using div_add_self2 [of 4096 "unat va - (unat a + 4096)"] by simp
    then show ?thesis using 3 a(2) by (auto simp: user_pages_def mapped_to_def)
  qed (use a(2) in \<open>simp add: user_pages_def mapped_to_def\<close>)
qed

lemma allocuvm_loop_ok:
  assumes "vm_ok s pgdir ps" "2 * n \<le> length ps" "a mod PGSIZE = 0" "unat a + 4096 * n < 2 ^ 32"
    and "\<And>va. unat a \<le> unat va \<Longrightarrow> unat va < unat a + 4096 * n \<Longrightarrow> \<not> present (pte_at (mem s) pgdir va)"
  obtains s' us qs fs where "allocuvm_loop n pgdir a oldsz newsz s = Ret (newsz, s')" "vm_ok s' pgdir qs" "ps = us @ qs"
    "length fs = n" "distinct fs" "set fs \<subseteq> set us" "set fs \<inter> table_pages (mem s') pgdir = {}" "\<And>p. p \<in> set fs \<Longrightarrow> zero_page (mem s') p"
    "\<And>va. pte_at (mem s') pgdir va = user_pages fs a (pte_at (mem s) pgdir) va"
    "table_pages (mem s') pgdir \<subseteq> set us \<union> table_pages (mem s) pgdir"
    "same_outside (set us \<union> table_pages (mem s) pgdir) (mem s) (mem s')"
  using assms
proof (induction n arbitrary: s ps a thesis)
  case 0
  show ?case by (rule "0.prems"(1) [of s ps "[]" "[]"]) (use "0.prems"(2) in \<open>auto simp: user_pages_def\<close>)
next
  case (Suc n)
  note P = Suc.prems
  obtain p ps1 where p: "ps = p # ps1" "ps1 \<noteq> []" using P(3) by (cases ps; cases "tl ps") auto
  have un: "\<not> present (pte_at (mem s) pgdir a)" using P(6) [of a] by simp
  obtain s1 us1 qs1 where
    o: "allocuvm_loop (Suc n) pgdir a oldsz newsz s = allocuvm_loop n pgdir (a + PGSIZE) oldsz newsz s1" "vm_ok s1 pgdir qs1"
      "\<And>va. pte_at (mem s1) pgdir va = mapped_to 1 a (V2P p) (PTE_W OR PTE_U) (pte_at (mem s) pgdir) va"
      "ps1 = us1 @ qs1" "length us1 \<le> 1" "table_pages (mem s1) pgdir = set us1 \<union> table_pages (mem s) pgdir"
      "same_outside (insert p (table_pages (mem s1) pgdir)) (mem s) (mem s1)" "zero_page (mem s1) p"
    by (rule allocuvm_step [OF P(2) [unfolded p] p(2) P(4) un, of n oldsz newsz]) (rule that)
  have a1: "unat (a + PGSIZE) = unat a + 4096" using P(5) by (subst unat_add_no_wrap) (simp_all add: PGSIZE_def)
  have al: "(a + PGSIZE) mod PGSIZE = 0" using P(4) unfolding page_aligned_unat a1 by simp
  have len: "2 * n \<le> length qs1" using P(3) p o(4,5) by simp
  have top: "unat (a + PGSIZE) + 4096 * n < 2 ^ 32" using P(5) unfolding a1 by simp
  have un1: "\<not> present (pte_at (mem s1) pgdir va)" if "unat (a + PGSIZE) \<le> unat va" "unat va < unat (a + PGSIZE) + 4096 * n" for va
    using P(6) [of va] that o(3) [of va] unfolding a1 by (simp add: mapped_to_def)
  obtain s' us qs fs where
    r: "allocuvm_loop n pgdir (a + PGSIZE) oldsz newsz s1 = Ret (newsz, s')" "vm_ok s' pgdir qs" "qs1 = us @ qs" "length fs = n" "distinct fs"
      "set fs \<subseteq> set us" "set fs \<inter> table_pages (mem s') pgdir = {}" "\<And>p. p \<in> set fs \<Longrightarrow> zero_page (mem s') p"
      "\<And>va. pte_at (mem s') pgdir va = user_pages fs (a + PGSIZE) (pte_at (mem s1) pgdir) va"
      "table_pages (mem s') pgdir \<subseteq> set us \<union> table_pages (mem s1) pgdir"
      "same_outside (set us \<union> table_pages (mem s1) pgdir) (mem s1) (mem s')"
    by (rule Suc.IH [OF _ o(2) len al top un1]) (rule that)
  note k = kalloc_vm [OF P(2) [unfolded p]]
  have pn: "p \<notin> set us" "p \<notin> table_pages (mem s1) pgdir" using k(5,6) o(4,6) r(3) by auto
  have e: "pte_at (mem s1) pgdir = mapped_to 1 a (V2P p) (PTE_W OR PTE_U) (pte_at (mem s) pgdir)" by (rule ext) (rule o(3))
  show ?case
  proof (rule P(1) [of s' qs "p # us1 @ us" "p # fs"])
    show "allocuvm_loop (Suc n) pgdir a oldsz newsz s = Ret (newsz, s')" using o(1) r(1) by simp
    show "ps = (p # us1 @ us) @ qs" using p o(4) r(3) by simp
    show "distinct (p # fs)" using r(5,6) pn(1) by auto
    show "set (p # fs) \<inter> table_pages (mem s') pgdir = {}" using r(7,10) pn by auto
    show "zero_page (mem s') q" if "q \<in> set (p # fs)" for q
      using that r(8) zero_page_keep [OF o(8) r(11) k(3)] pn by auto
    show "pte_at (mem s') pgdir va = user_pages (p # fs) a (pte_at (mem s) pgdir) va" for va
      unfolding r(9) e by (rule user_pages_Cons [OF P(4) a1])
    show "table_pages (mem s') pgdir \<subseteq> set (p # us1 @ us) \<union> table_pages (mem s) pgdir" using r(10) o(6) by auto
    show "same_outside (set (p # us1 @ us) \<union> table_pages (mem s) pgdir) (mem s) (mem s')"
      using o(6,7) r(11) by (simp add: same_outside_def)
  qed (use r(2,4,6) in auto)
qed

lemma uva2ka_pte:
  "present (pte_at (mem s) pgdir va) \<Longrightarrow> pte_at (mem s) pgdir va AND PTE_U \<noteq> 0 \<Longrightarrow>
    uva2ka pgdir va s = P2V (PTE_ADDR (pte_at (mem s) pgdir va))"
  by (auto simp: uva2ka_def pte_at_def walk_found present_def PTE_P_def split: option.splits)

lemma user_page_ka:
  assumes e: "pte_at (mem s) pgdir va = V2P p OR (PTE_W OR PTE_U) OR PTE_P" and p: "p mod PGSIZE = 0"
  shows "uva2ka pgdir va s = p"
proof -
  have f: "(PTE_W OR PTE_U) OR PTE_P < PGSIZE" "PTE_P < PGSIZE" "PTE_U < PGSIZE" "((PTE_W OR PTE_U) OR PTE_P) AND PTE_P \<noteq> 0"
    "((PTE_W OR PTE_U) OR PTE_P) AND PTE_U \<noteq> 0"
    by (simp_all add: PTE_P_def PTE_W_def PTE_U_def PGSIZE_def)
  note a = V2P_aligned [OF p]
  have "present (pte_at (mem s) pgdir va)" unfolding e present_def entry_flag [OF a f(2)] by (rule f(4))
  moreover have "pte_at (mem s) pgdir va AND PTE_U \<noteq> 0" unfolding e entry_flag [OF a f(3)] by (rule f(5))
  ultimately show ?thesis using uva2ka_pte [of s pgdir va] entry_page [OF a f(1)] by (simp add: e)
qed

lemma user_pages_entry:
  assumes "pte_at (mem s) pgdir va = user_pages fs a old va" "\<And>p. p \<in> set fs \<Longrightarrow> p mod PGSIZE = 0"
    and "unat a \<le> unat va" "unat va < unat a + 4096 * length fs"
  shows "let p = fs ! ((unat va - unat a) div 4096)
    in p \<in> set fs \<and> pte_at (mem s) pgdir va = V2P p OR (PTE_W OR PTE_U) OR PTE_P \<and> uva2ka pgdir va s = p"
proof -
  let ?p = "fs ! ((unat va - unat a) div 4096)"
  have e: "pte_at (mem s) pgdir va = V2P ?p OR (PTE_W OR PTE_U) OR PTE_P" using assms(1,3,4) by (simp add: user_pages_def)
  have "(unat va - unat a) div 4096 < length fs" using assms(3,4) by (simp add: less_mult_imp_div_less mult.commute less_diff_conv2)
  then have "?p \<in> set fs" by (rule nth_mem)
  moreover from this have "?p mod PGSIZE = 0" by (rule assms(2))
  ultimately show ?thesis using e user_page_ka [OF e] by (simp only: Let_def simp_thms)
qed

lemma unat_PGROUNDUP: "x < KERNBASE \<Longrightarrow> unat (PGROUNDUP x) = 4096 * ((unat x + 4095) div 4096)"
proof -
  assume "x < KERNBASE"
  then have "unat x < 2147483648" by (simp add: KERNBASE_def word_less_nat_alt)
  then have "unat (x + (PGSIZE - 1)) = unat x + unat (PGSIZE - 1)" by (intro unat_add_no_wrap) (simp add: PGSIZE_def)
  then have "unat (x + PGSIZE - 1) = unat x + 4095" unfolding add_diff_eq by (simp add: PGSIZE_def)
  then show ?thesis unfolding PGROUNDUP_eq unat_PGROUNDDOWN by simp
qed

lemma grow_range:
  assumes "oldsz \<le> newsz" "newsz < KERNBASE"
  defines "a \<equiv> PGROUNDUP oldsz" and "n \<equiv> pages_to (PGROUNDUP oldsz) newsz"
  shows "unat (PGROUNDUP newsz) = unat a + 4096 * n" "unat a + 4096 * n \<le> 2147483648"
proof -
  let ?x = "(unat oldsz + 4095) div 4096" and ?y = "(unat newsz + 4095) div 4096"
  have l: "unat newsz < 2147483648" "unat oldsz \<le> unat newsz"
    using assms(1,2) by (simp_all add: KERNBASE_def word_less_nat_alt word_le_nat_alt)
  have "oldsz < KERNBASE" using assms(1,2) by simp
  from unat_PGROUNDUP [OF this] unat_PGROUNDUP [OF assms(2)] have a: "unat a = 4096 * ?x" and b: "unat (PGROUNDUP newsz) = 4096 * ?y"
    by (simp_all add: a_def)
  have xy: "?x \<le> ?y" using l(2) by (intro div_le_mono) simp
  have "n = ?y - ?x"
  proof (cases "unat a \<le> unat newsz")
    case True
    then have "unat newsz + 4095 = unat newsz - unat a + 4095 + ?x * 4096" using a by linarith
    then have "?y = ?x + (unat newsz - unat a + 4095) div 4096" by (metis div_mult_self1 zero_neq_numeral)
    then show ?thesis unfolding n_def pages_to_def a_def [symmetric] by simp
  next
    case False
    then have "?y \<le> ?x" using a by linarith
    then show ?thesis using False unfolding n_def pages_to_def a_def [symmetric] by simp
  qed
  then show e: "unat (PGROUNDUP newsz) = unat a + 4096 * n" using a b xy by (simp add: diff_mult_distrib2)
  have "?y \<le> 524288" using l(1) by simp
  then show "unat a + 4096 * n \<le> 2147483648" unfolding e [symmetric] b by linarith
qed

section \<open>Properties\<close>

text \<open>C7: Growing a process to a size below \<open>KERNBASE\<close>.  With the range from the rounded-up old size to
  \<open>KERNBASE\<close> unmapped and two free pages for each new page (one for the page, one for a table that may be
  missing), \<open>allocuvm\<close> returns the new size.  Every address from the rounded-up old size to the rounded-up new
  size then has a present, writable entry for the user, and translates (\<open>uva2ka\<close>) into a page of zeros, different
  pages for different page numbers, taken from the free list and used neither as page table nor as free page.  The
  entries of all other addresses are as before, so the rest of the range up to \<open>KERNBASE\<close> is still unmapped; the
  directory stays well formed, and no byte outside of the pages that were free and of the page tables changes.\<close>

theorem allocuvm_grows:
  assumes "vm_ok s pgdir ps" "oldsz \<le> newsz" "newsz < KERNBASE" "2 * pages_to (PGROUNDUP oldsz) newsz \<le> length ps"
    and "\<forall>va. PGROUNDUP oldsz \<le> va \<and> va < KERNBASE \<longrightarrow> \<not> present (pte_at (mem s) pgdir va)"
  shows "\<exists>s' qs fs. allocuvm pgdir oldsz newsz s = Ret (newsz, s') \<and> vm_ok s' pgdir qs \<and>
    length fs = pages_to (PGROUNDUP oldsz) newsz \<and> distinct fs \<and> set fs \<subseteq> set ps - set qs \<and>
    set fs \<inter> table_pages (mem s') pgdir = {} \<and> (\<forall>p \<in> set fs. zero_page (mem s') p) \<and>
    (\<forall>va. PGROUNDUP oldsz \<le> va \<and> va < PGROUNDUP newsz \<longrightarrow>
       (let p = fs ! ((unat va - unat (PGROUNDUP oldsz)) div 4096)
        in p \<in> set fs \<and> pte_at (mem s') pgdir va = V2P p OR (PTE_W OR PTE_U) OR PTE_P \<and> uva2ka pgdir va s' = p)) \<and>
    (\<forall>va. va < PGROUNDUP oldsz \<or> PGROUNDUP newsz \<le> va \<longrightarrow> pte_at (mem s') pgdir va = pte_at (mem s) pgdir va) \<and>
    (\<forall>va. PGROUNDUP newsz \<le> va \<and> va < KERNBASE \<longrightarrow> \<not> present (pte_at (mem s') pgdir va)) \<and>
    same_outside (set ps \<union> table_pages (mem s) pgdir) (mem s) (mem s')"
proof -
  let ?a = "PGROUNDUP oldsz" and ?n = "pages_to (PGROUNDUP oldsz) newsz"
  note g = grow_range [OF assms(2,3)]
  have un: "\<not> present (pte_at (mem s) pgdir va)" if "unat ?a \<le> unat va" "unat va < unat ?a + 4096 * ?n" for va
    using assms(5) that g(2) by (simp add: word_le_nat_alt word_less_nat_alt KERNBASE_def)
  have top: "unat ?a + 4096 * ?n < 2 ^ 32" using g(2) by simp
  obtain s' us qs fs where
    r: "allocuvm_loop ?n pgdir ?a oldsz newsz s = Ret (newsz, s')" "vm_ok s' pgdir qs" "ps = us @ qs" "length fs = ?n" "distinct fs"
      "set fs \<subseteq> set us" "set fs \<inter> table_pages (mem s') pgdir = {}" "\<And>p. p \<in> set fs \<Longrightarrow> zero_page (mem s') p"
      "\<And>va. pte_at (mem s') pgdir va = user_pages fs ?a (pte_at (mem s) pgdir) va"
      "table_pages (mem s') pgdir \<subseteq> set us \<union> table_pages (mem s) pgdir"
      "same_outside (set us \<union> table_pages (mem s) pgdir) (mem s) (mem s')"
    by (rule allocuvm_loop_ok [OF assms(1,4) PGROUNDUP_aligned top]) (rule un, assumption, assumption, rule that)
  have fp: "free_pages s ps" using assms(1) by (simp add: vm_ok_def)
  have al: "p mod PGSIZE = 0" if "p \<in> set fs" for p using that r(3,6) free_aligned [OF fp, of p] by auto
  have new: "let p = fs ! ((unat va - unat ?a) div 4096)
      in p \<in> set fs \<and> pte_at (mem s') pgdir va = V2P p OR (PTE_W OR PTE_U) OR PTE_P \<and> uva2ka pgdir va s' = p"
    if "?a \<le> va" "va < PGROUNDUP newsz" for va
    by (rule user_pages_entry [OF r(9) al]) (use that g(1) r(4) in \<open>simp_all add: word_le_nat_alt word_less_nat_alt\<close>)
  have old: "pte_at (mem s') pgdir va = pte_at (mem s) pgdir va" if "va < ?a \<or> PGROUNDUP newsz \<le> va" for va
    using that g(1) r(4) by (auto simp: r(9) user_pages_def word_le_nat_alt word_less_nat_alt)
  have "?a \<le> PGROUNDUP newsz" using g(1) by (simp add: word_le_nat_alt)
  then have "\<not> present (pte_at (mem s') pgdir va)" if "PGROUNDUP newsz \<le> va" "va < KERNBASE" for va
    using that assms(5) old [of va] by (simp add: order_trans [of ?a "PGROUNDUP newsz" va])
  moreover have "set fs \<subseteq> set ps - set qs" using r(3,6) fp by (auto simp: free_pages_def)
  moreover have "same_outside (set ps \<union> table_pages (mem s) pgdir) (mem s) (mem s')"
    by (rule same_outside_mono [OF r(11)]) (use r(3) in auto)
  moreover have "allocuvm pgdir oldsz newsz s = Ret (newsz, s')"
  proof -
    have "\<not> KERNBASE \<le> newsz" "\<not> newsz < oldsz" using assms(2,3) by (simp_all add: not_le not_less)
    then show ?thesis unfolding allocuvm_def Let_def by (simp only: if_False r(1))
  qed
  ultimately show ?thesis using r(2,4,5,7,8) new old by blast
qed

text \<open>An empty directory, and two free pages.\<close>

definition two_pages :: machine where
  "two_pages = empty_machine\<lparr>mem := store32 (\<lambda>_. 0) 0x80400000 0x80401000, freelist := 0x80400000, kend := 0x80400000\<rparr>"

lemma two_pages_words:
  "load32 (mem two_pages) 0x80400000 = 0x80401000" "load32 (mem two_pages) 0x80401000 = 0"
  "i < 1024 \<Longrightarrow> load32 (mem two_pages) (0x80402000 + 4 * i) = 0"
proof -
  have z: "load32 (\<lambda>_. 0) x = 0" for x by (simp add: load32_def le32_def)
  have a: "(0x80400000 :: u32) mod PGSIZE = 0" "(0x80401000 :: u32) mod PGSIZE = 0" "(0x80402000 :: u32) mod PGSIZE = 0"
    by (simp_all add: PGSIZE_def)
  show "load32 (mem two_pages) 0x80400000 = 0x80401000" by (simp add: two_pages_def)
  show "load32 (mem two_pages) 0x80401000 = 0"
    using load32_store32_slot [OF a(1,2), of 0 0 "\<lambda>_. 0" "0x80401000"] z by (simp add: two_pages_def)
  show "i < 1024 \<Longrightarrow> load32 (mem two_pages) (0x80402000 + 4 * i) = 0"
    using load32_store32_slot [OF a(1,3), of 0 i "\<lambda>_. 0" "0x80401000"] z by (simp add: two_pages_def)
qed

lemma two_pages_tables: "i < 1024 \<Longrightarrow> table_at (mem two_pages) 0x80402000 i = None"
  by (simp add: table_at_def two_pages_words present_def)

lemma two_pages_vm: "vm_ok two_pages 0x80402000 [0x80400000, 0x80401000]"
proof -
  have "pgdir_ok (mem two_pages) 0x80402000" using two_pages_tables by (simp add: pgdir_ok_def PGSIZE_def)
  moreover have "free_pages two_pages [0x80400000, 0x80401000]"
    by (simp add: free_pages_def two_pages_words) (simp add: two_pages_def page_ok_def PGSIZE_def V2P_def KERNBASE_def PHYSTOP_def)
  moreover have "table_pages (mem two_pages) 0x80402000 = {0x80402000}" using two_pages_tables by (auto simp: table_pages_def)
  ultimately show ?thesis by (simp add: vm_ok_def)
qed

theorem allocuvm_grows_witness:
  "\<exists>s' p. allocuvm 0x80402000 0 4096 two_pages = Ret (4096, s') \<and> p \<in> {0x80400000, 0x80401000} \<and>
     uva2ka 0x80402000 123 s' = p \<and> zero_page (mem s') p \<and> \<not> present (pte_at (mem s') 0x80402000 4096)"
proof -
  have r: "PGROUNDUP 0 = 0" "PGROUNDUP 4096 = 4096" by (simp_all add: PGROUNDUP_def PGSIZE_def)
  have n: "pages_to (PGROUNDUP 0) 4096 = 1" by (simp add: r pages_to_def)
  have "\<not> present (pte_at (mem two_pages) 0x80402000 va)" for va
    by (simp add: pte_at_def two_pages_tables index_less present_def)
  then obtain s' qs fs where
    g: "allocuvm 0x80402000 0 4096 two_pages = Ret (4096, s')" "set fs \<subseteq> set [0x80400000, 0x80401000] - set qs"
      "\<forall>p \<in> set fs. zero_page (mem s') p"
      "\<forall>va. PGROUNDUP 0 \<le> va \<and> va < PGROUNDUP 4096 \<longrightarrow>
         (let p = fs ! ((unat va - unat (PGROUNDUP 0)) div 4096)
          in p \<in> set fs \<and> pte_at (mem s') 0x80402000 va = V2P p OR (PTE_W OR PTE_U) OR PTE_P \<and> uva2ka 0x80402000 va s' = p)"
      "\<forall>va. PGROUNDUP 4096 \<le> va \<and> va < KERNBASE \<longrightarrow> \<not> present (pte_at (mem s') 0x80402000 va)"
    using allocuvm_grows [OF two_pages_vm, of 0 4096] unfolding n by (simp add: KERNBASE_def) blast
  have "uva2ka 0x80402000 123 s' = fs ! 0 \<and> fs ! 0 \<in> set fs" using g(4) [THEN spec, of 123] by (simp add: r Let_def)
  moreover have "\<not> present (pte_at (mem s') 0x80402000 4096)" using g(5) by (simp add: r KERNBASE_def)
  ultimately show ?thesis using g(1-3) by auto
qed

end
