(* ===== verification/Spec2Isabelle.thy ===== *)
theory Spec2Isabelle
  imports Trap Semaphore_Runs Pipe_Runs Ide Grep Shell File_Data Page_Table
begin

text \<open>
  \<^bold>\<open>A verification of the xv6 kernel of this repository.\<close>  The program under \<^verbatim>\<open>src/xv6\<close> is the xv6 teaching kernel
  for the x86 with the additions of the lab: a scheduler with three queues, counting semaphores, a command history
  in the console, and system calls that trace calls, change the size of a file and factor numbers.  The development
  translates the C code into functions and proves what makes each part correct.

  \<^bold>\<open>The parts and how they interact.\<close>  User code enters the kernel through \<open>trap\<close>, which dispatches system calls,
  device interrupts and faults.  The system calls read their arguments out of user memory and call the process
  code, the file table or program loading.  The file table stands on inodes, pipes and the console; inodes stand on
  the log, the log on the buffer cache, the cache on a disk driver.  The process code stands on page tables,
  these on the page allocator.

  \<^bold>\<open>Conventions.\<close>
  \<^item> A C \<open>int\<close> is an \<open>int\<close> with its wrap-around written out (\<open>wrap32\<close>); \<open>uint\<close>, \<open>ushort\<close> and \<open>uchar\<close> are words of
    their width.
  \<^item> The state of the kernel is a record that grows by extension as the parts are added: \<open>machine\<close> (memory, free
    list), \<open>ptab\<close> (processes, CPUs, ticks), \<open>bio\<close> (buffers, disk), \<open>logst\<close>, \<open>fsst\<close> (inode cache), \<open>consst\<close>,
    \<open>kern\<close> (open files, pipes, semaphores, traces).  An operation is a function of the smallest record it needs.
  \<^item> A routine has an \<open>outcome\<close>: \<open>Ret\<close> its result, \<open>Panic\<close> the message, or \<open>Blocked\<close> when its thread goes to sleep
    in a loop that tests the condition again.  An access of the source outside of an array is a \<open>Panic\<close> too.
  \<^item> A pointer to an entry of a table is the index of the entry; \<open>myproc()\<close> is the argument \<open>me\<close>.
  \<^item> Code that holds a lock is one step.  This rests on mutual exclusion, which theory \<open>Spinlock\<close> proves of the locks
    taken apart into their atomic operations; that steps under a lock may be merged is not itself a theorem.

  \<^bold>\<open>The theories, from the bottom up.\<close>
  \<^item> \<open>Kernel_Prelude\<close>: integer types, C arithmetic, outcomes, array search, little-endian access.
  \<^item> \<open>C_Strings\<close>: \<^verbatim>\<open>string.c\<close> and the routines of \<^verbatim>\<open>ulib.c\<close>, on byte lists and on a byte memory.  \<open>memmove\<close> is
    correct for overlapping ranges.
  \<^item> \<open>Kalloc\<close>: \<^verbatim>\<open>kalloc.c\<close>.  The free list is threaded through memory.  The locale \<open>page_allocator\<close> is its contract;
    pages are handed out exclusively in every run.
  \<^item> \<open>Vm\<close>, \<open>Page_Table\<close>: \<^verbatim>\<open>vm.c\<close>.  The first holds the code, the second the meaning of a page table and the theorem
    that \<open>allocuvm\<close> gives a process distinct fresh pages of zeros, changes no other entry and touches nothing else.
  \<^item> \<open>Proc_Table\<close>, \<open>Scheduler\<close>, \<open>Proc_Life\<close>, \<open>Proc_Invariant\<close>: \<^verbatim>\<open>proc.c\<close>.  Slots, sleep and wakeup, kill; aging and the
    three policies (locales \<open>strict_preference\<close> for searches of the best entry, \<open>policy\<close> for what the dispatcher
    relies on); fork, exit, wait; and the invariant of the table over every interleaving of these.
  \<^item> \<open>Kernel_Steps\<close>: what the rest of the kernel may do to the process table while processes sleep on the channels of one
    component.  The locale \<open>wait_channels\<close> shows that it leaves those sleepers alone; semaphores and pipes interpret it.
  \<^item> \<open>Spinlock\<close>, \<open>Sleeplock\<close>: \<^verbatim>\<open>spinlock.c\<close> and \<^verbatim>\<open>sleeplock.c\<close>; mutual exclusion for any interleaving of CPUs.
    \<open>pushcli\<close> is split after its \<open>readeflags()\<close>, where a process can be preempted and move to another CPU.
  \<^item> \<open>Fifo\<close>, \<open>Pipe\<close>, \<open>Semaphore\<close>: \<^verbatim>\<open>pipe.c\<close> and the semaphores of \<^verbatim>\<open>proc.c\<close>.  Both rings implement the locale \<open>fifo\<close>, from
    which the order of the bytes of a pipe and of the processes in a semaphore follows.
  \<^item> \<open>Pipe_Runs\<close>, \<open>Semaphore_Runs\<close>: step relations in which the calls on a pipe, or on the semaphores, run on the process
    table between the other steps of the kernel.  No process sleeps in a pipe that could go on, but for the readers that
    a killed writer does not wake, which is a theorem too.  Semaphores wake their processes in order and keep count of their
    units, and a semaphore of one unit can be held twice.  The fields \<open>queued\<close>, \<open>woken\<close>, \<open>released\<close>, \<open>acquired\<close> and \<open>gave_up\<close>
    only record the past; no step depends on them.
  \<^item> \<open>Bio\<close>, \<open>Ide\<close>: \<^verbatim>\<open>bio.c\<close>, \<^verbatim>\<open>memide.c\<close> and \<^verbatim>\<open>ide.c\<close>.  The cache is transparent and its writes are durable (locale
    \<open>buffer_cache\<close>); the interrupt-driven driver refines the one in memory when the drive reports success,
    and on an error only marks the buffer valid and clean.
  \<^item> \<open>Log\<close>, \<open>Transaction\<close>: \<^verbatim>\<open>log.c\<close>.  A crash at any disk write of a commit or of a recovery loses nothing; inside a
    transaction blocks are read, changed and logged without a panic (locale \<open>logged_store\<close>).
  \<^item> \<open>Inode\<close>, \<open>Directory\<close>, \<open>Block_Map\<close>, \<open>File_Data\<close>: \<^verbatim>\<open>fs.c\<close>.  The first two hold the code; \<open>Block_Map\<close> shows that \<open>balloc\<close>
    and \<open>bmap\<close> keep files apart, \<open>File_Data\<close> that \<open>readi\<close> returns what \<open>writei\<close> wrote.
  \<^item> \<open>Console\<close>, \<open>Kbd\<close>: \<^verbatim>\<open>console.c\<close>, \<^verbatim>\<open>prefix_predict.c\<close>, \<^verbatim>\<open>kbd.c\<close>.
  \<^item> \<open>Uaccess\<close>, \<open>File\<close>, \<open>Exec\<close>, \<open>Sysfile\<close>, \<open>Prime_Factor\<close>, \<open>Syscall\<close>, \<open>Trap\<close>: \<^verbatim>\<open>syscall.c\<close>, \<^verbatim>\<open>file.c\<close>, \<^verbatim>\<open>exec.c\<close>, \<^verbatim>\<open>sysfile.c\<close>,
    the prime factors of \<^verbatim>\<open>proc.c\<close>, \<^verbatim>\<open>sysproc.c\<close> and \<^verbatim>\<open>trap.c\<close>.  Accepted arguments lie inside the process; the
    timer preempts; the factoring is correct where it returns, and does not return on 0.  Of \<open>File\<close>, \<open>Exec\<close> and
    \<open>Sysfile\<close> the code is modelled and no property is stated.
  \<^item> \<open>Shell\<close>, \<open>Grep\<close>: the parser of \<^verbatim>\<open>sh.c\<close> and the whole of \<^verbatim>\<open>grep.c\<close> but \<open>main\<close>.

  \<^bold>\<open>Parameters.\<close>  The drive behind \<^verbatim>\<open>ide.c\<close> is a function with the hypothesis \<open>drive_ok\<close>, which a concrete drive
  satisfies and which allows it to report errors.  What the keyboard, the serial port and \<open>cr2\<close> deliver are arguments of \<open>trap\<close>; values that C leaves
  undefined (an uninitialised local, the result of a \<open>void\<close> system call) are arguments as well.

  \<^bold>\<open>Loops, bounds and fuel.\<close>  Loops are recursions with a termination proof.
  \<^item> Loops over pages take the number of pages left, computed from the bounds that the source compares (\<open>pages_to\<close>).
  \<^item> The parser takes \<open>parse_fuel\<close>, four steps for each byte of the line and four more; it is proved to be enough,
    and running out is the outcome \<open>Blocked\<close>.
  \<^item> The loops of the factoring need not end and are partial functions, in which not returning is \<open>None\<close>.
  \<^item> \<open>writei_readi\<close> asks for room in the log for six blocks per block of the range and for two free blocks each: a
    block may need the indirect block too, and each allocation logs the bitmap and the cleared block.
  \<^item> \<open>allocuvm_grows\<close> asks for two free pages per new page: the page, and a table that may be missing.
  \<^item> \<open>reservation_suffices\<close> needs a log of more than \<open>LOGSIZE\<close> blocks; the image of this repository has exactly \<open>LOGSIZE\<close>.

  \<^bold>\<open>Not modelled.\<close>
  \<^item> Boot code, trap entry and context switch: assembly.  The saved frame is an argument of \<open>trap\<close>; the switch is
    the end of a step.
  \<^item> Segment and control registers, descriptor tables, interrupt controllers, multiprocessor tables, and the port
    set-up in \<open>ideinit\<close>, \<open>uartinit\<close> and \<open>consoleinit\<close>: hardware on which no modelled state depends.
  \<^item> The debugging fields of a spin-lock.
  \<^item> What \<open>allocuvm\<close> prints when it fails and \<open>trap\<close> before it panics.
  \<^item> \<open>runcmd\<close>, \<open>getcmd\<close> and \<open>main\<close> of the shell, the other user programs, \<open>gets\<close> and \<open>stat\<close> of \<^verbatim>\<open>ulib.c\<close>: sequences of
    system calls, which are modelled on the side of the kernel.
  \<^item> \<^verbatim>\<open>printf.c\<close> and \<^verbatim>\<open>umalloc.c\<close>: they run in user space and nothing here rests on them.
  \<^item> \<^verbatim>\<open>mkfs.c\<close>: a program of the host; the theorems hold for any disk that satisfies their hypotheses.
  \<^item> The test programs, and the unrelated Linux module in \<^verbatim>\<open>src/linux_kernel_mod\<close>.
\<close>

end
